(* ===== verification/TSM_Prelude.thy ===== *)
theory TSM_Prelude
  imports Main "HOL-Library.Word" "HOL-Library.Multiset"
begin

text \<open>
  Shared vocabulary of the development: the machine integer types of the C code, the
  outcomes of a piece of C code (it returns, it blocks on a semaphore, it has undefined
  behaviour), the sequencing of such outcomes, and the generic facts on lists that every
  component uses.
\<close>

section \<open>Machine integers\<close>

type_synonym u8 = "8 word"    \<comment> \<open>\<open>unsigned char\<close>, and the bit pattern of a \<open>char\<close>\<close>
type_synonym u16 = "16 word"  \<comment> \<open>\<open>unsigned short\<close>\<close>
type_synonym u32 = "32 word"  \<comment> \<open>\<open>unsigned int\<close>\<close>
type_synonym u64 = "64 word"  \<comment> \<open>\<open>unsigned long\<close>, and the bit pattern of a \<open>long\<close>\<close>

section \<open>Outcomes of C code\<close>

text \<open>
  A call returns a value, blocks for ever in the state it is run in (a \<open>down\<close> on a
  semaphore nobody can release), or has undefined behaviour. Each kind of undefined
  behaviour is named, so that a theorem can say which one a path has.
\<close>

datatype fault =
    NullDeref       \<comment> \<open>dereference of a NULL pointer\<close>
  | UseAfterFree    \<comment> \<open>dereference of a freed object\<close>
  | BadFree         \<comment> \<open>\<open>kfree\<close> of an address that is not the start of a live object\<close>
  | OutOfBounds     \<comment> \<open>store past the end of a heap object\<close>

datatype 'a outcome = Done 'a | Block | Fault fault

primrec obind :: "'a outcome \<Rightarrow> ('a \<Rightarrow> 'b outcome) \<Rightarrow> 'b outcome" where
  "obind (Done x) f = f x"
| "obind Block f = Block"
| "obind (Fault e) f = Fault e"

named_theorems outcome_simps \<open>elimination of sequenced outcomes\<close>
named_theorems api_defs \<open>definitions of the kernel primitives\<close>
named_theorems dev_defs \<open>definitions of the group device operations\<close>

lemma obind_eq_Done [outcome_simps]:
  "obind m f = Done y \<longleftrightarrow> (\<exists>x. m = Done x \<and> f x = Done y)"
  by (cases m) auto

lemma obind_eq_Fault:
  "obind m f = Fault e \<longleftrightarrow> m = Fault e \<or> (\<exists>x. m = Done x \<and> f x = Fault e)"
  by (cases m) auto

lemma obind_eq_Block:
  "obind m f = Block \<longleftrightarrow> m = Block \<or> (\<exists>x. m = Done x \<and> f x = Block)"
  by (cases m) auto

lemma obind_assoc: "obind (obind m f) g = obind m (\<lambda>x. obind (f x) g)"
  by (cases m) auto

lemma obind_Done_right [simp]: "obind m Done = m"
  by (cases m) auto

lemma obind_if: "obind (if b then m else n) f = (if b then obind m f else obind n f)"
  by simp

section \<open>Lists\<close>

lemma list_all_last: "xs \<noteq> [] \<Longrightarrow> list_all P xs \<Longrightarrow> P (last xs)"
  by (auto simp: list_all_iff)

lemma list_all_butlast: "list_all P xs \<Longrightarrow> list_all P (butlast xs)"
  by (auto simp: list_all_iff dest: in_set_butlastD)

lemma rev_butlast_tl: "rev (butlast xs) = tl (rev xs)"
  by (induction xs) (auto simp: butlast_append tl_append split: list.splits)

lemma last_rev_hd: "xs \<noteq> [] \<Longrightarrow> hd (rev xs) = last xs"
  by (simp add: hd_rev)

lemma append_last: "xs \<noteq> [] \<Longrightarrow> butlast xs @ [last xs] = xs"
  by simp

lemma length_butlast_Suc: "xs \<noteq> [] \<Longrightarrow> Suc (length (butlast xs)) = length xs"
  by (cases xs rule: rev_cases) auto

lemma list_all_nth: "list_all P xs \<Longrightarrow> i < length xs \<Longrightarrow> P (xs ! i)"
  by (simp add: list_all_length)

lemma find_append: "find P (xs @ ys) = (case find P xs of None \<Rightarrow> find P ys | Some x \<Rightarrow> Some x)"
  by (induction xs) auto

section \<open>Words\<close>

text \<open>A counter below some bound can be incremented without wrapping.\<close>

lemma unat_Suc_less:
  fixes x y :: "'a::len word"
  assumes "x < y"
  shows "unat (x + 1) = Suc (unat x)"
proof -
  from assms have "unat x < unat y" by (simp add: word_less_nat_alt)
  moreover have "unat y < 2 ^ LENGTH('a)" by (rule unsigned_less)
  ultimately have "Suc (unat x) < 2 ^ LENGTH('a)" by linarith
  then show ?thesis by (simp add: unat_word_ariths)
qed

lemma word_unat_less_256: "unat (b :: u8) < 256"
  using unsigned_less [of b] by simp

end
