(* ===== verification/Kernel_API.thy ===== *)
theory Kernel_API
  imports TSM_Prelude
begin

text \<open>
  The part of the kernel's library that the module is written against, as its documentation
  describes it: the allocator, copies from and to user memory, counting semaphores and the
  doubly linked lists of \<open>linux/list.h\<close>. What the kernel may decide by itself (does
  an allocation succeed, how much room does it really give, how many jiffies is a
  millisecond) is a parameter, the record \<open>kernel_env\<close>.
\<close>

section \<open>What the kernel decides\<close>

type_synonym addr = nat

text \<open>An owning pointer: NULL, or an address with the object behind it.\<close>

type_synonym 'a ptr = "(addr \<times> 'a) option"

record kernel_env =
  alloc_ok :: "nat \<Rightarrow> bool"             \<comment> \<open>does the \<open>k\<close>-th allocation request succeed?\<close>
  usable_size :: "nat \<Rightarrow> nat"           \<comment> \<open>bytes really reserved for a request of \<open>n\<close> bytes\<close>
  msecs_to_jiffies :: "u32 \<Rightarrow> u64"
  jiffies_to_msecs :: "u64 \<Rightarrow> u32"
  workqueue_ok :: "nat \<Rightarrow> bool"         \<comment> \<open>does \<open>create_singlethread_workqueue\<close> succeed, by minor?\<close>

section \<open>The allocator\<close>

text \<open>
  The heap knows the number of requests so far, which also serves as the next fresh
  address, and the set of live objects. \<open>kfree NULL\<close> is a no-op.
\<close>

record kheap =
  brk :: nat
  live :: "addr set"

definition kmalloc :: "('x) kernel_env_scheme \<Rightarrow> kheap \<Rightarrow> addr option \<times> kheap" where
  "kmalloc env h =
     (if alloc_ok env (brk h)
      then (Some (brk h), h\<lparr>brk := Suc (brk h), live := insert (brk h) (live h)\<rparr>)
      else (None, h\<lparr>brk := Suc (brk h)\<rparr>))"

definition kfree :: "addr option \<Rightarrow> kheap \<Rightarrow> kheap outcome" where
  "kfree p h = (case p of
      None \<Rightarrow> Done h
    | Some a \<Rightarrow> if a \<in> live h then Done (h\<lparr>live := live h - {a}\<rparr>) else Fault BadFree)"

text \<open>Every live address was handed out by an earlier request.\<close>

definition heap_ok :: "kheap \<Rightarrow> bool" where
  "heap_ok h \<longleftrightarrow> live h \<subseteq> {..<brk h}"

definition ptr_addr :: "'a ptr \<Rightarrow> addr option" where
  "ptr_addr p = map_option fst p"

definition ptr_addrs :: "'a ptr \<Rightarrow> addr list" where
  "ptr_addrs p = (case p of None \<Rightarrow> [] | Some (a, _) \<Rightarrow> [a])"

section \<open>User memory\<close>

text \<open>
  A user buffer is the list of bytes that are accessible from the user pointer on. Both
  copies return the number of bytes they could not copy.
\<close>

definition copy_from_user :: "u8 list \<Rightarrow> nat \<Rightarrow> nat \<times> u8 list" where
  "copy_from_user ubuf n = (n - length ubuf, take n ubuf)"

definition copy_to_user :: "u8 list \<Rightarrow> u8 list \<Rightarrow> nat \<times> u8 list" where
  "copy_to_user ubuf src =
     (length src - length ubuf, take (length ubuf) src @ drop (length src) ubuf)"

section \<open>Semaphores\<close>

definition down :: "nat ptr \<Rightarrow> nat ptr outcome" where
  "down s = (case s of
      None \<Rightarrow> Fault NullDeref
    | Some (a, n) \<Rightarrow> (case n of 0 \<Rightarrow> Block | Suc m \<Rightarrow> Done (Some (a, m))))"

definition up :: "nat ptr \<Rightarrow> nat ptr outcome" where
  "up s = (case s of None \<Rightarrow> Fault NullDeref | Some (a, n) \<Rightarrow> Done (Some (a, Suc n)))"

text \<open>A semaphore used as a lock that nobody holds.\<close>

definition sem_free :: "nat ptr \<Rightarrow> bool" where
  "sem_free s \<longleftrightarrow> (\<exists>a. s = Some (a, 1))"

section \<open>Linked lists\<close>

text \<open>
  A list is the sequence of its entries from the one after the head on. Entries are
  identified by their address, given by the projection \<open>key\<close>. \<open>list_add\<close> puts an
  entry right after the head, \<open>list_last_entry\<close> is the entry before the head,
  \<open>list_del\<close> unlinks an entry, \<open>list_splice_tail_init src dst\<close> moves all of
  \<open>src\<close> behind the last entry of \<open>dst\<close> and returns the new \<open>dst\<close> and \<open>src\<close>.
\<close>

definition list_add :: "'a \<Rightarrow> 'a list \<Rightarrow> 'a list" where
  "list_add x xs = x # xs"

definition list_empty :: "'a list \<Rightarrow> bool" where
  "list_empty xs \<longleftrightarrow> xs = []"

definition list_last_entry :: "'a list \<Rightarrow> 'a" where
  "list_last_entry xs = last xs"

primrec list_del :: "('a \<Rightarrow> addr) \<Rightarrow> addr \<Rightarrow> 'a list \<Rightarrow> 'a list" where
  "list_del key a [] = []"
| "list_del key a (x # xs) = (if key x = a then xs else x # list_del key a xs)"

definition list_splice_tail_init :: "'a list \<Rightarrow> 'a list \<Rightarrow> 'a list \<times> 'a list" where
  "list_splice_tail_init src dst = (dst @ src, [])"

declare down_def [api_defs] up_def [api_defs] kfree_def [api_defs] kmalloc_def [api_defs]
  copy_from_user_def [api_defs] copy_to_user_def [api_defs] list_add_def [api_defs]
  list_empty_def [api_defs] list_last_entry_def [api_defs] list_splice_tail_init_def [api_defs]

section \<open>Facts\<close>

lemma kmalloc_Some:
  assumes "kmalloc env h = (Some a, h')" and "heap_ok h"
  shows "a \<notin> live h" and "live h' = insert a (live h)" and "heap_ok h'" and "a = brk h"
    and "brk h' = Suc (brk h)"
  using assms by (auto simp: kmalloc_def heap_ok_def less_Suc_eq split: if_splits)

lemma kmalloc_None:
  assumes "kmalloc env h = (None, h')"
  shows "live h' = live h" and "heap_ok h \<Longrightarrow> heap_ok h'" and "brk h' = Suc (brk h)"
  using assms by (auto simp: kmalloc_def heap_ok_def split: if_splits)

lemma kfree_Some_live: "a \<in> live h \<Longrightarrow> kfree (Some a) h = Done (h\<lparr>live := live h - {a}\<rparr>)"
  by (simp add: kfree_def)

lemma kfree_None [simp]: "kfree None h = Done h"
  by (simp add: kfree_def)

lemma kfree_Done: "kfree (Some a) h = Done h' \<longleftrightarrow> a \<in> live h \<and> h' = h\<lparr>live := live h - {a}\<rparr>"
  by (auto simp: kfree_def)

lemma heap_ok_shrink: "heap_ok h \<Longrightarrow> X \<subseteq> live h \<Longrightarrow> heap_ok (h\<lparr>live := X\<rparr>)"
  by (auto simp: heap_ok_def)

lemma down_free: "down (Some (a, 1)) = Done (Some (a, 0))"
  by (simp add: down_def)

lemma up_taken: "up (Some (a, 0)) = Done (Some (a, 1))"
  by (simp add: up_def)

lemma copy_to_user_full:
  "length src \<le> length ubuf \<Longrightarrow> copy_to_user ubuf src = (0, src @ drop (length src) ubuf)"
  by (simp add: copy_to_user_def)

lemma list_del_notin: "a \<notin> set (map key xs) \<Longrightarrow> list_del key a xs = xs"
  by (induction xs) auto

lemma list_del_split:
  "key x = a \<Longrightarrow> a \<notin> set (map key xs) \<Longrightarrow> list_del key a (xs @ x # ys) = xs @ ys"
  by (induction xs) auto

lemma set_list_del_subset: "set (list_del key a xs) \<subseteq> set xs"
  by (induction xs) auto

lemma distinct_list_del:
  "distinct (map key xs) \<Longrightarrow> distinct (map key (list_del key a xs))"
proof (induction xs)
  case (Cons x xs)
  moreover have "key x \<notin> key ` set (list_del key a xs)" if "key x \<notin> key ` set xs"
    using that set_list_del_subset [of key a xs] by blast
  ultimately show ?case by simp
qed simp

lemma set_list_del:
  "distinct (map key xs) \<Longrightarrow> key ` set (list_del key a xs) = key ` set xs - {a}"
proof (induction xs)
  case (Cons x xs)
  then show ?case by (cases "key x = a") force+
qed simp

lemma list_all_list_del: "list_all P xs \<Longrightarrow> list_all P (list_del key a xs)"
  using set_list_del_subset [of key a xs] by (auto simp: list_all_iff)

lemma length_list_del: "a \<in> key ` set xs \<Longrightarrow> Suc (length (list_del key a xs)) = length xs"
  by (induction xs) auto

text \<open>Unlinking the last entry of a list without aliases drops exactly that entry.\<close>

lemma list_del_last:
  assumes "distinct (map key xs)" and "xs \<noteq> []"
  shows "list_del key (key (list_last_entry xs)) xs = butlast xs"
proof -
  from assms(2) obtain ys y where xs: "xs = ys @ [y]" by (cases xs rule: rev_cases) auto
  with assms(1) have "key y \<notin> set (map key ys)" by auto
  then show ?thesis using list_del_split [of key y "key y" ys "[]"] xs
    by (simp add: list_last_entry_def)
qed

section \<open>The list as a FIFO store\<close>

text \<open>
  What the module relies on when it uses a list as a queue: entries go in at one end, the
  oldest entry is read and unlinked at the other. \<open>contents\<close> lists the entries, oldest
  first, and \<open>ok\<close> is the representation invariant.
\<close>

locale fifo_store =
  fixes put :: "'a \<Rightarrow> 's \<Rightarrow> 's"
    and front :: "'s \<Rightarrow> 'a"
    and drop_front :: "'s \<Rightarrow> 's"
    and is_empty :: "'s \<Rightarrow> bool"
    and contents :: "'s \<Rightarrow> 'a list"
    and fresh :: "'a \<Rightarrow> 's \<Rightarrow> bool"
    and ok :: "'s \<Rightarrow> bool"
  assumes contents_put: "contents (put x s) = contents s @ [x]"
    and ok_put: "ok s \<Longrightarrow> fresh x s \<Longrightarrow> ok (put x s)"
    and front_contents: "\<not> is_empty s \<Longrightarrow> front s = hd (contents s)"
    and contents_drop: "ok s \<Longrightarrow> \<not> is_empty s \<Longrightarrow> contents (drop_front s) = tl (contents s)"
    and ok_drop: "ok s \<Longrightarrow> ok (drop_front s)"
    and is_empty_contents: "is_empty s \<longleftrightarrow> contents s = []"
begin

text \<open>Taking \<open>n\<close> entries one after the other.\<close>

fun take_entries :: "nat \<Rightarrow> 's \<Rightarrow> 'a list \<times> 's" where
  "take_entries 0 s = ([], s)"
| "take_entries (Suc n) s =
     (if is_empty s then ([], s)
      else (let (xs, s') = take_entries n (drop_front s) in (front s # xs, s')))"

lemma front_drop_split:
  assumes "ok s" and "\<not> is_empty s"
  shows "contents s = front s # contents (drop_front s)"
  using assms front_contents [of s] contents_drop [of s] is_empty_contents [of s]
  by (cases "contents s") auto

lemma take_entries_fifo:
  assumes "ok s"
  shows "fst (take_entries n s) = take n (contents s)
       \<and> contents (snd (take_entries n s)) = drop n (contents s)
       \<and> ok (snd (take_entries n s))"
  using assms
proof (induction n arbitrary: s)
  case 0
  then show ?case by simp
next
  case (Suc n)
  show ?case
  proof (cases "is_empty s")
    case True
    then have "contents s = []" by (rule is_empty_contents [THEN iffD1])
    with True Suc.prems show ?thesis by simp
  next
    case False
    with Suc.prems have split: "contents s = front s # contents (drop_front s)"
      by (rule front_drop_split)
    from Suc.IH [OF ok_drop [OF Suc.prems]] False split show ?thesis
      by (simp add: case_prod_beta Let_def)
  qed
qed

lemma contents_put_all: "contents (fold put xs s) = contents s @ xs"
  by (induction xs arbitrary: s) (auto simp: contents_put)

end

text \<open>The list operations, on entries told apart by their address, are such a store.\<close>

definition unlink_last :: "('a \<Rightarrow> addr) \<Rightarrow> 'a list \<Rightarrow> 'a list" where
  "unlink_last key xs = (if xs = [] then [] else list_del key (key (list_last_entry xs)) xs)"

lemma unlink_last_butlast: "distinct (map key xs) \<Longrightarrow> unlink_last key xs = butlast xs"
  by (simp add: unlink_last_def list_del_last)

interpretation list_fifo: fifo_store list_add list_last_entry "unlink_last key" list_empty rev
  "\<lambda>x xs. key x \<notin> key ` set xs" "\<lambda>xs. distinct (map key xs)" for key :: "'a \<Rightarrow> addr"
proof unfold_locales
  fix xs :: "'a list"
  assume ok: "distinct (map key xs)"
  then show "distinct (map key (unlink_last key xs))"
    by (simp add: unlink_last_def distinct_list_del)
  assume "\<not> list_empty xs"
  with ok show "rev (unlink_last key xs) = tl (rev xs)"
    by (simp add: unlink_last_butlast rev_butlast_tl)
qed (auto simp: list_add_def list_last_entry_def list_empty_def hd_rev)

end
