(* ===== verification/Flags.thy ===== *)
theory Flags
  imports Kernel_API
begin

text \<open>
  The bit macros of \<open>group_dev.h\<close> and the two flags a group device keeps in one
  \<open>char\<close>: the barrier bit and the flushing bit.
\<close>

unbundle bit_operations_syntax

section \<open>The macros\<close>

text \<open>
  \<open>var\<close> is a \<open>char\<close>. In \<open>var |= 1UL << n\<close> it is converted to \<open>unsigned long\<close>
  (sign extended), and the result is cut back to eight bits. In \<open>(var >> n) & 1U\<close> it is
  promoted to \<open>int\<close>, shifted arithmetically and masked.
\<close>

definition c_set_bit :: "u8 \<Rightarrow> nat \<Rightarrow> u8" where
  "c_set_bit var n = ucast ((scast var :: u64) OR push_bit n 1)"

definition c_clear_bit :: "u8 \<Rightarrow> nat \<Rightarrow> u8" where
  "c_clear_bit var n = ucast ((scast var :: u64) AND NOT (push_bit n 1))"

definition c_toggle_bit :: "u8 \<Rightarrow> nat \<Rightarrow> u8" where
  "c_toggle_bit var n = ucast ((scast var :: u64) XOR push_bit n 1)"

definition c_check_bit :: "u8 \<Rightarrow> nat \<Rightarrow> u32" where
  "c_check_bit var n = signed_drop_bit n (scast var :: u32) AND 1"

definition BARRIER_BIT :: nat where "BARRIER_BIT = 0"

definition FLUSHING_BIT :: nat where "FLUSHING_BIT = 1"

section \<open>What the macros do to each bit\<close>

lemma bit_c_set_bit: "k < 8 \<Longrightarrow> bit (c_set_bit v n) k \<longleftrightarrow> bit v k \<or> k = n"
  by (auto simp: c_set_bit_def bit_simps)

lemma bit_c_clear_bit: "k < 8 \<Longrightarrow> bit (c_clear_bit v n) k \<longleftrightarrow> bit v k \<and> k \<noteq> n"
  by (auto simp: c_clear_bit_def bit_simps)

lemma bit_c_toggle_bit: "k < 8 \<Longrightarrow> bit (c_toggle_bit v n) k \<longleftrightarrow> (bit v k \<noteq> (k = n))"
  by (auto simp: c_toggle_bit_def bit_simps)

lemma c_check_bit_eq: "n < 8 \<Longrightarrow> c_check_bit v n = of_bool (bit v n)"
proof (rule bit_word_eqI)
  fix k assume n: "n < 8" and k: "k < LENGTH(32)"
  have "n = 7" if "7 \<le> n" using that n by simp
  then show "bit (c_check_bit v n) k = bit (of_bool (bit v n) :: u32) k"
    by (auto simp: c_check_bit_def bit_simps min_def)
qed

end
