(* ===== verification/Group_Dev.thy ===== *)
theory Group_Dev
  imports Flags
begin

text \<open>
  The data of a group device and the functions of \<open>group_dev.c\<close> below the file
  operations: delays, flags, and the work queue that publishes delayed messages.

  A pointer field is NULL (\<open>None\<close>) or an address with the object it owns. A pointer
  argument that the caller has already dereferenced (the device handed to
  \<open>fflush_workqueue\<close>, the work and the device of \<open>delayed_work_fun\<close>, which come out
  of \<open>container_of\<close>) is passed by value, so the NULL checks on those arguments have
  nothing to test. Log output is left out.
\<close>

section \<open>Data\<close>

record work =
  work_addr :: addr      \<comment> \<open>address of the \<open>struct work\<close>\<close>
  work_dev :: addr       \<comment> \<open>\<open>dev\<close>, the device the work belongs to\<close>
  work_delay :: u64      \<comment> \<open>jiffies the delayed work was queued with\<close>

record message =
  msg_addr :: addr       \<comment> \<open>address of the \<open>struct message\<close>\<close>
  data_size :: nat
  data :: "u8 list ptr"  \<comment> \<open>the whole buffer the allocator reserved\<close>

record group_dev =
  dev_addr :: addr       \<comment> \<open>address of the \<open>struct group_dev\<close>\<close>
  minor :: u8
  flags :: u8
  messages_number :: u32
  message_sem :: "nat ptr"
  message_list :: "message list ptr"
  delay :: u64
  wq_sem :: "nat ptr"
  delay_wq :: "work list option"     \<comment> \<open>NULL, or the works whose timer is armed\<close>
  delay_list :: "work list ptr"
  pending_sem :: "nat ptr"
  pending_list :: "message list ptr"
  wait_queue :: "nat list"           \<comment> \<open>threads sleeping on the barrier\<close>

section \<open>Delay\<close>

definition raw_set_delay :: "('x) kernel_env_scheme \<Rightarrow> group_dev \<Rightarrow> u64 \<Rightarrow> group_dev" where
  \<comment> \<open>\<open>msecs_to_jiffies\<close> takes an \<open>unsigned int\<close>: the upper half of the \<open>long\<close> is cut off\<close>
  "raw_set_delay env d msecs = d\<lparr>delay := msecs_to_jiffies env (ucast msecs)\<rparr>"

definition get_delay_msecs :: "('x) kernel_env_scheme \<Rightarrow> group_dev \<Rightarrow> u64" where
  "get_delay_msecs env d = ucast (jiffies_to_msecs env (delay d))"

definition get_delay_jiffies :: "group_dev \<Rightarrow> u64" where
  "get_delay_jiffies d = delay d"

section \<open>Flags\<close>

definition is_flushing :: "group_dev \<Rightarrow> u32" where
  "is_flushing d = c_check_bit (flags d) FLUSHING_BIT"

definition set_flushing :: "group_dev \<Rightarrow> group_dev" where
  "set_flushing d = d\<lparr>flags := c_set_bit (flags d) FLUSHING_BIT\<rparr>"

definition clear_flushing :: "group_dev \<Rightarrow> group_dev" where
  "clear_flushing d = d\<lparr>flags := c_clear_bit (flags d) FLUSHING_BIT\<rparr>"

definition is_barrier_up :: "group_dev \<Rightarrow> u32" where
  "is_barrier_up d = c_check_bit (flags d) BARRIER_BIT"

definition set_barrier :: "group_dev \<Rightarrow> group_dev" where
  "set_barrier d = d\<lparr>flags := c_set_bit (flags d) BARRIER_BIT\<rparr>"

definition clear_barrier :: "group_dev \<Rightarrow> group_dev" where
  "clear_barrier d = d\<lparr>flags := c_clear_bit (flags d) BARRIER_BIT\<rparr>"

section \<open>The work queue\<close>

definition init_workqueue :: "('x) kernel_env_scheme \<Rightarrow> group_dev \<Rightarrow> int \<times> group_dev" where
  "init_workqueue env d =
     (let d = d\<lparr>delay_wq := (if workqueue_ok env (dev_addr d) then Some [] else None)\<rparr>
      in (if delay_wq d \<noteq> None then 0 else -1, d))"

definition raw_fflush_workqueue :: "group_dev \<Rightarrow> group_dev outcome" where
  "raw_fflush_workqueue d =
     (if pending_sem d = None then Done d
      else if message_sem d = None then Done d
      else case pending_list d of None \<Rightarrow> Done d
      | Some (pa, pl) \<Rightarrow> (case message_list d of None \<Rightarrow> Done d
      | Some (ma, ml) \<Rightarrow>
          obind (down (pending_sem d)) (\<lambda>ps.
          obind (down (message_sem d)) (\<lambda>ms.
          let (ml', pl') = list_splice_tail_init pl ml in
          obind (up ps) (\<lambda>ps.
          obind (up ms) (\<lambda>ms.
          Done (d\<lparr>pending_sem := ps, message_sem := ms,
                  pending_list := Some (pa, pl'), message_list := Some (ma, ml')\<rparr>)))))))"

text \<open>
  The end of \<open>delayed_work_fun\<close>: outside a flush the work unlinks itself from
  \<open>delay_list\<close>; in every case it frees itself.
\<close>

definition work_exit :: "kheap \<Rightarrow> work \<Rightarrow> group_dev \<Rightarrow> (kheap \<times> group_dev) outcome" where
  "work_exit h w d =
     (let d' = (if is_flushing d = 0
                then d\<lparr>delay_list := map_option (apsnd (list_del work_addr (work_addr w))) (delay_list d)\<rparr>
                else d)
      in obind (kfree (Some (work_addr w)) h) (\<lambda>h'. Done (h', d')))"

definition delayed_work_fun :: "kheap \<Rightarrow> work \<Rightarrow> group_dev \<Rightarrow> (kheap \<times> group_dev) outcome" where
  "delayed_work_fun h w d =
     (if wq_sem d = None then work_exit h w d
      else if pending_sem d = None then work_exit h w d
      else case pending_list d of None \<Rightarrow> work_exit h w d
      | Some (pa, pl) \<Rightarrow>
        if message_sem d = None then work_exit h w d
        else case message_list d of None \<Rightarrow> work_exit h w d
        | Some (ma, ml) \<Rightarrow>
          obind (down (pending_sem d)) (\<lambda>ps.
          if list_empty pl then
            obind (up ps) (\<lambda>ps. work_exit h w (d\<lparr>pending_sem := ps\<rparr>))
          else
            let msg = list_last_entry pl;
                pl' = list_del msg_addr (msg_addr msg) pl in
            obind (up ps) (\<lambda>ps.
            obind (down (message_sem d)) (\<lambda>ms.
            let ml' = list_add msg ml in
            obind (up ms) (\<lambda>ms.
            work_exit h w (d\<lparr>pending_sem := ps, message_sem := ms,
                             pending_list := Some (pa, pl'), message_list := Some (ma, ml')\<rparr>))))))"

text \<open>
  The work queue itself belongs to the kernel. An armed work leaves the timer list and runs
  its function when the timer expires (\<open>timer_expires\<close>) or when it is flushed
  (\<open>flush_delayed_work\<close>); flushing a work that is not armed does nothing.
  \<open>drain_workqueue\<close> waits for works that have started, and the function of a work runs to
  its end within one step of this model, so it leaves the state alone.
\<close>

definition disarm :: "work \<Rightarrow> group_dev \<Rightarrow> group_dev" where
  "disarm w d = d\<lparr>delay_wq := map_option (list_del work_addr (work_addr w)) (delay_wq d)\<rparr>"

definition armed :: "group_dev \<Rightarrow> work list" where
  "armed d = (case delay_wq d of None \<Rightarrow> [] | Some ws \<Rightarrow> ws)"

definition flush_delayed_work :: "kheap \<Rightarrow> work \<Rightarrow> group_dev \<Rightarrow> (kheap \<times> group_dev) outcome" where
  "flush_delayed_work h w d =
     (if w \<in> set (armed d) then delayed_work_fun h w (disarm w d) else Done (h, d))"

definition drain_workqueue :: "group_dev \<Rightarrow> group_dev" where
  "drain_workqueue d = d"

definition timer_expires :: "kheap \<Rightarrow> addr \<Rightarrow> group_dev \<Rightarrow> (kheap \<times> group_dev) outcome" where
  "timer_expires h a d =
     (case find (\<lambda>w. work_addr w = a) (armed d) of
        None \<Rightarrow> Done (h, d)
      | Some w \<Rightarrow> delayed_work_fun h w (disarm w d))"

text \<open>
  The body of the traversal in \<open>fflush_workqueue\<close>. The traversal goes from the last
  entry of \<open>delay_list\<close> to the first, and its body unlinks only the entry it is at, so it
  visits the entries of the list as it was at the start.
\<close>

fun flush_works :: "kheap \<Rightarrow> work list \<Rightarrow> group_dev \<Rightarrow> (kheap \<times> group_dev) outcome" where
  "flush_works h [] d = Done (h, d)"
| "flush_works h (w # ws) d =
     (let d = d\<lparr>delay_list := map_option (apsnd (list_del work_addr (work_addr w))) (delay_list d)\<rparr>
      in obind (flush_delayed_work h w d) (\<lambda>(h, d). flush_works h ws d))"

definition fflush_workqueue :: "kheap \<Rightarrow> group_dev \<Rightarrow> (kheap \<times> group_dev) outcome" where
  "fflush_workqueue h d =
     obind (raw_fflush_workqueue d) (\<lambda>d.
     if delay_wq d = None then Done (h, d)
     else case delay_list d of None \<Rightarrow> Done (h, d)
     | Some (la, ws) \<Rightarrow>
       if wq_sem d = None then Done (h, d)
       else
         obind (down (wq_sem d)) (\<lambda>s.
         let d = set_flushing (d\<lparr>wq_sem := s\<rparr>) in
         obind (if list_empty ws then Done (h, d) else flush_works h (rev ws) d) (\<lambda>(h, d).
         let d = clear_flushing (drain_workqueue d) in
         obind (up (wq_sem d)) (\<lambda>s. Done (h, d\<lparr>wq_sem := s\<rparr>)))))"

definition add_delayed_work ::
  "('x) kernel_env_scheme \<Rightarrow> kheap \<Rightarrow> group_dev \<Rightarrow> (kheap \<times> group_dev) outcome" where
  "add_delayed_work env h d =
     (case delay_wq d of None \<Rightarrow> Done (h, d)
      | Some ws \<Rightarrow> (case kmalloc env h of
          (None, h) \<Rightarrow> Done (h, d)
        | (Some a, h) \<Rightarrow>
            let w = \<lparr>work_addr = a, work_dev = dev_addr d, work_delay = delay d\<rparr> in
            obind (down (wq_sem d)) (\<lambda>s.
            let d = d\<lparr>wq_sem := s, delay_wq := Some (list_add w ws)\<rparr> in
            case delay_list d of None \<Rightarrow> Fault NullDeref
            | Some (la, ls) \<Rightarrow>
                let d = d\<lparr>delay_list := Some (la, list_add w ls)\<rparr> in
                obind (up (wq_sem d)) (\<lambda>s. Done (h, d\<lparr>wq_sem := s\<rparr>)))))"

declare raw_fflush_workqueue_def [dev_defs] work_exit_def [dev_defs] delayed_work_fun_def [dev_defs]
  flush_delayed_work_def [dev_defs] drain_workqueue_def [dev_defs] timer_expires_def [dev_defs]
  fflush_workqueue_def [dev_defs] add_delayed_work_def [dev_defs]

end
