(* ===== verification/Group_Dev_Laws.thy ===== *)
theory Group_Dev_Laws
  imports Group_Dev
begin

text \<open>
  The invariant of a group device, the memory it owns, and what the functions of
  \<open>Group_Dev\<close> compute on a device that satisfies the invariant.
\<close>

section \<open>The two flags\<close>

text \<open>
  What the code expects of a flag: raising and lowering it is visible to its own test and
  to nothing else, although both flags live in the same byte.
\<close>

locale device_flag =
  fixes raise_flag :: "'d \<Rightarrow> 'd"
    and lower_flag :: "'d \<Rightarrow> 'd"
    and test_flag :: "'d \<Rightarrow> u32"
    and test_other :: "'d \<Rightarrow> u32"
  assumes test_raise: "test_flag (raise_flag d) = 1"
    and test_lower: "test_flag (lower_flag d) = 0"
    and other_raise: "test_other (raise_flag d) = test_other d"
    and other_lower: "test_other (lower_flag d) = test_other d"
    and lower_raise: "test_flag d = 0 \<Longrightarrow> lower_flag (raise_flag d) = d"
    and test_bool: "test_flag d = 0 \<or> test_flag d = 1"
begin

lemma raise_visible: "test_flag (raise_flag d) \<noteq> 0"
  by (simp add: test_raise)

lemma bracket_other: "test_other (lower_flag (raise_flag d)) = test_other d"
  by (simp add: other_raise other_lower)

lemma test_cases: "test_flag d \<noteq> 0 \<longleftrightarrow> test_flag d = 1"
  using test_bool [of d] by auto

end

lemma clear_set_bit: "n < 8 \<Longrightarrow> \<not> bit v n \<Longrightarrow> c_clear_bit (c_set_bit v n) n = v"
  by (rule bit_word_eqI) (auto simp: bit_c_clear_bit bit_c_set_bit)

lemmas flag_defs = is_flushing_def set_flushing_def clear_flushing_def
  is_barrier_up_def set_barrier_def clear_barrier_def FLUSHING_BIT_def BARRIER_BIT_def

lemmas flag_bits = c_check_bit_eq bit_c_set_bit bit_c_clear_bit

interpretation flushing: device_flag set_flushing clear_flushing is_flushing is_barrier_up
  by unfold_locales (auto simp: flag_defs flag_bits clear_set_bit)

interpretation barrier: device_flag set_barrier clear_barrier is_barrier_up is_flushing
  by unfold_locales (auto simp: flag_defs flag_bits clear_set_bit)

section \<open>Views of a device\<close>

definition pointee :: "'a list ptr \<Rightarrow> 'a list" where
  "pointee p = (case p of None \<Rightarrow> [] | Some (_, xs) \<Rightarrow> xs)"

abbreviation msgs :: "group_dev \<Rightarrow> message list" where
  "msgs d \<equiv> pointee (message_list d)"

abbreviation pendings :: "group_dev \<Rightarrow> message list" where
  "pendings d \<equiv> pointee (pending_list d)"

abbreviation works :: "group_dev \<Rightarrow> work list" where
  "works d \<equiv> pointee (delay_list d)"

definition set_pointee :: "'a list \<Rightarrow> 'a list ptr \<Rightarrow> 'a list ptr" where
  "set_pointee xs p = map_option (apsnd (\<lambda>_. xs)) p"

definition upd_msgs :: "message list \<Rightarrow> group_dev \<Rightarrow> group_dev" where
  "upd_msgs ms d = d\<lparr>message_list := set_pointee ms (message_list d)\<rparr>"

definition upd_pend :: "message list \<Rightarrow> group_dev \<Rightarrow> group_dev" where
  "upd_pend ms d = d\<lparr>pending_list := set_pointee ms (pending_list d)\<rparr>"

definition upd_works :: "work list \<Rightarrow> group_dev \<Rightarrow> group_dev" where
  "upd_works ws d = d\<lparr>delay_list := set_pointee ws (delay_list d),
                      delay_wq := map_option (\<lambda>_. ws) (delay_wq d)\<rparr>"

text \<open>The bytes a message carries, and the addresses it owns.\<close>

definition content :: "message \<Rightarrow> u8 list" where
  "content m = (case data m of None \<Rightarrow> [] | Some (_, buf) \<Rightarrow> take (data_size m) buf)"

definition msg_owned :: "message \<Rightarrow> addr list" where
  "msg_owned m = msg_addr m # ptr_addrs (data m)"

definition owned :: "group_dev \<Rightarrow> addr list" where
  "owned d = dev_addr d # ptr_addrs (message_sem d) @ ptr_addrs (message_list d)
     @ ptr_addrs (wq_sem d) @ ptr_addrs (delay_list d)
     @ ptr_addrs (pending_sem d) @ ptr_addrs (pending_list d)
     @ concat (map msg_owned (msgs d)) @ concat (map msg_owned (pendings d))
     @ map work_addr (works d)"

section \<open>The invariant\<close>

text \<open>A stored message has a buffer with room for its content and a terminator behind it.\<close>

definition msg_ok :: "message \<Rightarrow> bool" where
  "msg_ok m = (case data m of None \<Rightarrow> False
     | Some (_, buf) \<Rightarrow> data_size m < length buf \<and> buf ! data_size m = 0)"

text \<open>
  Between two calls: no semaphore is held, nothing is NULL but possibly the work queue, no
  flush is going on, the counter counts the published and the delayed messages, and the
  armed works are the works on \<open>delay_list\<close>, all of this device.
\<close>

definition dev_ok :: "group_dev \<Rightarrow> bool" where
  "dev_ok d \<longleftrightarrow> sem_free (message_sem d) \<and> sem_free (pending_sem d) \<and> sem_free (wq_sem d)
     \<and> message_list d \<noteq> None \<and> pending_list d \<noteq> None \<and> delay_list d \<noteq> None
     \<and> armed d = works d \<and> is_flushing d = 0
     \<and> unat (messages_number d) = length (msgs d) + length (pendings d)
     \<and> list_all msg_ok (msgs d) \<and> list_all msg_ok (pendings d)
     \<and> list_all (\<lambda>w. work_dev w = dev_addr d) (works d)"

text \<open>The device owns distinct live objects.\<close>

definition mem_ok :: "kheap \<Rightarrow> group_dev \<Rightarrow> bool" where
  "mem_ok h d \<longleftrightarrow> heap_ok h \<and> distinct (owned d) \<and> set (owned d) \<subseteq> live h"

text \<open>A call neither leaks nor frees anything but what the device itself owns.\<close>

definition no_leak :: "kheap \<Rightarrow> group_dev \<Rightarrow> kheap \<Rightarrow> group_dev \<Rightarrow> bool" where
  "no_leak h d h' d' \<longleftrightarrow> live h' - set (owned d') = live h - set (owned d)"

section \<open>Rewriting views\<close>

lemma pointee_simps [simp]: "pointee None = []" "pointee (Some (a, xs)) = xs"
  by (simp_all add: pointee_def)

lemma pointee_set_pointee [simp]: "p \<noteq> None \<Longrightarrow> pointee (set_pointee xs p) = xs"
  by (auto simp: pointee_def set_pointee_def)

lemma set_pointee_simps [simp]:
  "set_pointee xs (Some (a, ys)) = Some (a, xs)" "set_pointee xs None = None"
  by (simp_all add: set_pointee_def)

lemma set_pointee_None_iff [simp]: "set_pointee xs p = None \<longleftrightarrow> p = None"
  by (simp add: set_pointee_def)

lemma set_pointee_twice [simp]: "set_pointee xs (set_pointee ys p) = set_pointee xs p"
  by (cases p) (auto simp: set_pointee_def)

lemma set_pointee_same [simp]: "set_pointee (pointee p) p = p"
  by (cases p) (auto simp: set_pointee_def)

lemma ptr_addrs_set_pointee [simp]: "ptr_addrs (set_pointee xs p) = ptr_addrs p"
  by (cases p) (auto simp: ptr_addrs_def set_pointee_def)

lemma ptr_addrs_Some [simp]: "ptr_addrs (Some (a, x)) = [a]" "ptr_addrs None = []"
  by (simp_all add: ptr_addrs_def)

lemmas upd_defs = upd_msgs_def upd_pend_def upd_works_def

lemma armed_upd [simp]:
  "armed (upd_msgs ms d) = armed d" "armed (upd_pend ms d) = armed d"
  "armed (upd_works ws d) = (if delay_wq d = None then [] else ws)"
  by (auto simp: armed_def upd_defs split: option.splits)

lemma is_flushing_upd [simp]:
  "is_flushing (upd_msgs ms d) = is_flushing d" "is_flushing (upd_pend ms d) = is_flushing d"
  "is_flushing (upd_works ws d) = is_flushing d"
  by (simp_all add: is_flushing_def upd_defs)

section \<open>Running a work\<close>

text \<open>What \<open>delayed_work_fun\<close> needs of the device, inside or outside a flush.\<close>

definition fun_ready :: "group_dev \<Rightarrow> bool" where
  "fun_ready d \<longleftrightarrow> sem_free (message_sem d) \<and> sem_free (pending_sem d) \<and> wq_sem d \<noteq> None
     \<and> message_list d \<noteq> None \<and> pending_list d \<noteq> None"

text \<open>Publish the oldest delayed message, if there is one.\<close>

definition publish :: "group_dev \<Rightarrow> group_dev" where
  "publish d = (if pendings d = [] then d
     else upd_msgs (last (pendings d) # msgs d) (upd_pend (unlink_last msg_addr (pendings d)) d))"

lemma dev_ok_fun_ready: "dev_ok d \<Longrightarrow> fun_ready d"
  by (auto simp: dev_ok_def fun_ready_def sem_free_def)

lemma sem_same: "sem_free s \<Longrightarrow> down s = Done t \<Longrightarrow> up t = Done s"
  by (auto simp: sem_free_def down_def up_def)

lemma sem_free_down: "sem_free s \<Longrightarrow> obind (down s) f = f (map_option (apsnd (\<lambda>_. 0)) s)"
  by (auto simp: sem_free_def down_def)

lemma sem_free_up: "sem_free s \<Longrightarrow> obind (up (map_option (apsnd (\<lambda>_. 0)) s)) f = f s"
  by (auto simp: sem_free_def up_def)

lemma sem_free_neq_None: "sem_free s \<Longrightarrow> s \<noteq> None"
  by (auto simp: sem_free_def)

lemmas sem_bracket = sem_free_down sem_free_up sem_free_neq_None

lemma delayed_work_fun_eq:
  assumes "fun_ready d"
  shows "delayed_work_fun h w d = work_exit h w (publish d)"
proof -
  from assms obtain pa pl ma ml where
    "pending_list d = Some (pa, pl)" and "message_list d = Some (ma, ml)"
    by (auto simp: fun_ready_def)
  moreover have "pending_sem_update (\<lambda>_. pending_sem d) d = d"
    and "d\<lparr>pending_sem := pending_sem d, message_sem := message_sem d\<rparr> = d"
    by simp_all
  ultimately show ?thesis using assms
    by (auto simp: delayed_work_fun_def fun_ready_def sem_bracket list_empty_def Let_def
        publish_def upd_defs list_add_def list_last_entry_def unlink_last_def)
qed

lemma work_exit_ok:
  assumes "work_addr w \<in> live h"
  shows "work_exit h w d = Done (h\<lparr>live := live h - {work_addr w}\<rparr>,
     if is_flushing d = 0
     then d\<lparr>delay_list := set_pointee (list_del work_addr (work_addr w) (works d)) (delay_list d)\<rparr>
     else d)"
  using assms by (cases "delay_list d") (auto simp: work_exit_def kfree_def)

lemma publish_frame [simp]:
  "is_flushing (publish d) = is_flushing d" "armed (publish d) = armed d"
  "delay_list (publish d) = delay_list d" "delay_wq (publish d) = delay_wq d"
  "message_sem (publish d) = message_sem d" "pending_sem (publish d) = pending_sem d"
  "wq_sem (publish d) = wq_sem d" "messages_number (publish d) = messages_number d"
  "dev_addr (publish d) = dev_addr d" "delay (publish d) = delay d" "flags (publish d) = flags d"
  "minor (publish d) = minor d" "wait_queue (publish d) = wait_queue d"
  by (simp_all add: publish_def upd_defs is_flushing_def armed_def)

section \<open>A timer expires\<close>

lemma find_work:
  assumes "distinct (map work_addr ws)" and "w \<in> set ws"
  shows "find (\<lambda>v. work_addr v = work_addr w) ws = Some w"
  using assms by (induction ws) (auto simp: image_iff)

lemma owned_works_distinct: "distinct (owned d) \<Longrightarrow> distinct (map work_addr (works d))"
  by (simp add: owned_def)

lemma works_live: "mem_ok h d \<Longrightarrow> work_addr ` set (works d) \<subseteq> live h"
  by (auto simp: mem_ok_def owned_def)

lemma works_distinct: "mem_ok h d \<Longrightarrow> distinct (map work_addr (works d))"
  by (simp add: mem_ok_def owned_works_distinct)

lemma timer_expires_ok:
  assumes dev: "dev_ok d" and mem: "mem_ok h d" and w: "w \<in> set (works d)"
  shows "timer_expires h (work_addr w) d =
     Done (h\<lparr>live := live h - {work_addr w}\<rparr>,
           upd_works (list_del work_addr (work_addr w) (works d)) (publish d))"
proof -
  from dev have arm: "armed d = works d" by (simp add: dev_ok_def)
  with w obtain ws where wq: "delay_wq d = Some ws" and ws: "ws = works d"
    by (auto simp: armed_def split: option.splits)
  from mem have "distinct (map work_addr (works d))" by (rule works_distinct)
  with arm w have "find (\<lambda>v. work_addr v = work_addr w) (armed d) = Some w"
    by (simp add: find_work)
  moreover from works_live [OF mem] w have "work_addr w \<in> live h" by auto
  moreover have "fun_ready (disarm w d)"
    using dev_ok_fun_ready [OF dev] by (simp add: fun_ready_def disarm_def)
  moreover have "publish (disarm w d) = disarm w (publish d)"
    by (simp add: publish_def disarm_def upd_defs)
  moreover from dev have "is_flushing d = 0" by (simp add: dev_ok_def)
  then have "is_flushing (disarm w (publish d)) = 0" by (simp add: disarm_def is_flushing_def publish_def upd_defs)
  ultimately show ?thesis using wq ws
    by (simp add: timer_expires_def delayed_work_fun_eq work_exit_ok disarm_def upd_works_def)
qed

lemma timer_expires_stale:
  assumes "a \<notin> work_addr ` set (armed d)"
  shows "timer_expires h a d = Done (h, d)"
proof -
  from assms have "find (\<lambda>w. work_addr w = a) (armed d) = None"
    by (auto simp: find_None_iff)
  then show ?thesis by (simp add: timer_expires_def)
qed

section \<open>Flushing\<close>

definition splice_pending :: "group_dev \<Rightarrow> group_dev" where
  "splice_pending d = upd_msgs (msgs d @ pendings d) (upd_pend [] d)"

lemma raw_fflush_ok:
  assumes "fun_ready d"
  shows "raw_fflush_workqueue d = Done (splice_pending d)"
proof -
  from assms obtain pa pl ma ml where
    "pending_list d = Some (pa, pl)" and "message_list d = Some (ma, ml)"
    by (auto simp: fun_ready_def)
  with assms show ?thesis
    by (auto simp: raw_fflush_workqueue_def fun_ready_def sem_bracket splice_pending_def upd_defs
        list_splice_tail_init_def)
qed

lemma splice_pending_frame [simp]:
  "is_flushing (splice_pending d) = is_flushing d" "armed (splice_pending d) = armed d"
  "delay_list (splice_pending d) = delay_list d" "delay_wq (splice_pending d) = delay_wq d"
  "message_sem (splice_pending d) = message_sem d" "pending_sem (splice_pending d) = pending_sem d"
  "wq_sem (splice_pending d) = wq_sem d" "messages_number (splice_pending d) = messages_number d"
  "dev_addr (splice_pending d) = dev_addr d" "delay (splice_pending d) = delay d" "flags (splice_pending d) = flags d"
  "minor (splice_pending d) = minor d" "wait_queue (splice_pending d) = wait_queue d"
  by (simp_all add: splice_pending_def upd_defs is_flushing_def armed_def)

text \<open>With nothing delayed, a flushed work only removes and frees itself.\<close>

abbreviation del_work :: "work \<Rightarrow> work list \<Rightarrow> work list" where
  "del_work w \<equiv> list_del work_addr (work_addr w)"

lemma flush_delayed_work_idle:
  assumes "fun_ready d" and "pendings d = []" and "is_flushing d \<noteq> 0"
    and "w \<in> set (armed d)" and "work_addr w \<in> live h"
  shows "flush_delayed_work h w d = Done (h\<lparr>live := live h - {work_addr w}\<rparr>, disarm w d)"
proof -
  from assms(1) have "fun_ready (disarm w d)" by (simp add: fun_ready_def disarm_def)
  moreover from assms(2) have "publish (disarm w d) = disarm w d"
    by (simp add: publish_def disarm_def)
  moreover from assms(3) have "is_flushing (disarm w d) \<noteq> 0" by (simp add: disarm_def is_flushing_def)
  ultimately show ?thesis using assms(4,5)
    by (simp add: flush_delayed_work_def delayed_work_fun_eq work_exit_ok)
qed

lemma flush_works_idle:
  assumes "fun_ready d" and "pendings d = []" and "is_flushing d \<noteq> 0"
    and "delay_wq d = Some ts" and "delay_list d = Some (la, ls)"
    and "distinct (map work_addr ws)" and "set ws \<subseteq> set ts"
    and "work_addr ` set ws \<subseteq> live h" and "distinct (map work_addr ts)"
  shows "flush_works h ws d =
     Done (h\<lparr>live := live h - work_addr ` set ws\<rparr>,
           d\<lparr>delay_list := Some (la, fold del_work ws ls), delay_wq := Some (fold del_work ws ts)\<rparr>)"
  using assms
proof (induction ws arbitrary: h d ts ls)
  case Nil
  then show ?case by simp
next
  case (Cons w ws)
  let ?d1 = "d\<lparr>delay_list := Some (la, del_work w ls)\<rparr>"
  let ?d2 = "?d1\<lparr>delay_wq := Some (del_work w ts)\<rparr>"
  let ?h1 = "h\<lparr>live := live h - {work_addr w}\<rparr>"
  have flush: "flush_delayed_work h w ?d1 = Done (?h1, ?d2)"
    using Cons.prems flush_delayed_work_idle [of ?d1 w h]
    by (simp add: fun_ready_def armed_def is_flushing_def disarm_def)
  have rest: "set ws \<subseteq> set (del_work w ts)"
  proof
    fix v assume v: "v \<in> set ws"
    with Cons.prems have "work_addr v \<noteq> work_addr w" and "v \<in> set ts" by (auto simp: image_iff)
    then show "v \<in> set (del_work w ts)" by (induction ts) auto
  qed
  have lv: "work_addr ` set ws \<subseteq> live ?h1" using Cons.prems(6,8) by (auto simp: rev_image_eqI)
  have "flush_works ?h1 ws ?d2 =
     Done (?h1\<lparr>live := live ?h1 - work_addr ` set ws\<rparr>,
           ?d2\<lparr>delay_list := Some (la, fold del_work ws (del_work w ls)),
               delay_wq := Some (fold del_work ws (del_work w ts))\<rparr>)"
    using Cons.prems(1,2,3,6,9) rest lv
    by (intro Cons.IH) (simp_all add: fun_ready_def is_flushing_def distinct_list_del)
  moreover have "live h - {work_addr w} - work_addr ` set ws = live h - work_addr ` set (w # ws)"
    by auto
  ultimately show ?case using flush Cons.prems(5) by simp
qed

lemma fold_del_rev: "distinct (map work_addr ws) \<Longrightarrow> fold del_work (rev ws) ws = []"
proof (induction ws rule: rev_induct)
  case (snoc w ws)
  then have "del_work w (ws @ [w]) = ws"
    using list_del_split [of work_addr w "work_addr w" ws "[]"] by simp
  with snoc show ?case by simp
qed simp

lemma flush_works_guard:
  "(if list_empty ws then Done (h, d) else flush_works h (rev ws) d) = flush_works h (rev ws) d"
  by (simp add: list_empty_def)

lemma fflush_workqueue_ok:
  assumes dev: "dev_ok d" and mem: "mem_ok h d"
  shows "fflush_workqueue h d =
     Done (h\<lparr>live := live h - work_addr ` set (works d)\<rparr>, upd_works [] (splice_pending d))"
proof (cases "delay_wq d")
  case None
  with dev have none: "works d = []" by (simp add: dev_ok_def armed_def)
  with dev obtain la where "delay_list d = Some (la, [])" by (auto simp: dev_ok_def)
  then have "upd_works [] (splice_pending d) = splice_pending d"
    using None by (simp add: upd_works_def)
  with None none show ?thesis
    by (simp add: fflush_workqueue_def raw_fflush_ok dev_ok_fun_ready [OF dev])
next
  case (Some ts)
  from dev obtain la ls where dl: "delay_list d = Some (la, ls)" by (auto simp: dev_ok_def)
  from dev Some dl have ts: "ts = ls" by (simp add: dev_ok_def armed_def)
  let ?wq0 = "map_option (apsnd (\<lambda>_. 0)) (wq_sem d)"
  let ?d1 = "set_flushing ((splice_pending d)\<lparr>wq_sem := ?wq0\<rparr>)"
  from works_distinct [OF mem] dl have dist: "distinct (map work_addr ls)" by simp
  from works_live [OF mem] dl have lv: "work_addr ` set ls \<subseteq> live h" by simp
  from dev have wq: "sem_free (wq_sem d)" by (simp add: dev_ok_def)
  from dev have clean: "is_flushing d = 0" by (simp add: dev_ok_def)
  have "pendings (splice_pending d) = []" using dev by (auto simp: splice_pending_def upd_defs dev_ok_def)
  moreover have "is_flushing ?d1 \<noteq> 0" by (simp add: flushing.raise_visible)
  moreover have "fun_ready ?d1"
    using dev_ok_fun_ready [OF dev] wq
    by (auto simp: fun_ready_def set_flushing_def splice_pending_def upd_defs sem_free_def)
  ultimately have "flush_works h (rev ls) ?d1 =
     Done (h\<lparr>live := live h - work_addr ` set (rev ls)\<rparr>,
           ?d1\<lparr>delay_list := Some (la, fold del_work (rev ls) ls),
               delay_wq := Some (fold del_work (rev ls) ls)\<rparr>)"
    using dl dist lv Some ts
    by (intro flush_works_idle) (simp_all add: set_flushing_def rev_map [symmetric])
  then have "flush_works h (rev ls) ?d1 =
     Done (h\<lparr>live := live h - work_addr ` set ls\<rparr>, ?d1\<lparr>delay_list := Some (la, []), delay_wq := Some []\<rparr>)"
    using dist by (simp add: fold_del_rev)
  moreover have "clear_flushing (?d1\<lparr>delay_list := Some (la, []), delay_wq := Some []\<rparr>)
     = (splice_pending d)\<lparr>wq_sem := ?wq0, delay_list := Some (la, []), delay_wq := Some []\<rparr>"
    using clean flushing.lower_raise
      [of "(splice_pending d)\<lparr>wq_sem := ?wq0, delay_list := Some (la, []), delay_wq := Some []\<rparr>"]
    by (simp add: set_flushing_def is_flushing_def clear_flushing_def)
  ultimately show ?thesis using Some dl wq ts
    by (simp add: fflush_workqueue_def raw_fflush_ok dev_ok_fun_ready [OF dev] sem_bracket Let_def
        flush_works_guard drain_workqueue_def upd_works_def)
qed

section \<open>Queueing a work\<close>

lemma add_delayed_work_ok:
  assumes "dev_ok d"
  shows "add_delayed_work env h d =
     (if delay_wq d = None then Done (h, d)
      else case kmalloc env h of
        (None, h') \<Rightarrow> Done (h', d)
      | (Some a, h') \<Rightarrow> Done (h',
          upd_works (\<lparr>work_addr = a, work_dev = dev_addr d, work_delay = delay d\<rparr> # works d) d))"
proof -
  from assms obtain la ls where dl: "delay_list d = Some (la, ls)" by (auto simp: dev_ok_def)
  from assms have wq: "sem_free (wq_sem d)" by (simp add: dev_ok_def)
  from assms have "armed d = works d" by (simp add: dev_ok_def)
  with dl show ?thesis using wq
    by (auto simp: add_delayed_work_def sem_bracket Let_def list_add_def upd_works_def armed_def
        split: option.splits prod.splits)
qed

section \<open>Preservation of the invariant\<close>

text \<open>Ownership is counted with multisets; these two rules turn counts into the invariant.\<close>

lemma mem_ok_release:
  assumes mem: "mem_ok h d" and split: "mset (owned d) = mset (owned d') + mset xs"
  shows "mem_ok (h\<lparr>live := live h - set xs\<rparr>) d'" and "no_leak h d (h\<lparr>live := live h - set xs\<rparr>) d'"
proof -
  from split have "mset (owned d) = mset (owned d' @ xs)" by simp
  then have "distinct (owned d) \<longleftrightarrow> distinct (owned d' @ xs)" and
    sets: "set (owned d) = set (owned d' @ xs)"
    by (rule mset_eq_imp_distinct_iff, rule mset_eq_setD)
  with mem have "distinct (owned d')" and disj: "set (owned d') \<inter> set xs = {}"
    and "set (owned d') \<union> set xs \<subseteq> live h"
    by (auto simp: mem_ok_def)
  then show "mem_ok (h\<lparr>live := live h - set xs\<rparr>) d'"
    using mem by (auto simp: mem_ok_def heap_ok_def)
  show "no_leak h d (h\<lparr>live := live h - set xs\<rparr>) d'"
    using sets disj by (auto simp: no_leak_def)
qed

lemma mem_ok_acquire:
  assumes mem: "mem_ok h d" and heap: "heap_ok h'" and live: "live h' = set xs \<union> live h"
    and fresh: "distinct xs" "set xs \<inter> live h = {}"
    and split: "mset (owned d') = mset (owned d) + mset xs"
  shows "mem_ok h' d'" and "no_leak h d h' d'"
proof -
  from split have "mset (owned d') = mset (owned d @ xs)" by simp
  then have "distinct (owned d') \<longleftrightarrow> distinct (owned d @ xs)" and
    sets: "set (owned d') = set (owned d @ xs)"
    by (rule mset_eq_imp_distinct_iff, rule mset_eq_setD)
  with mem fresh heap live show "mem_ok h' d'"
    by (auto simp: mem_ok_def)
  show "no_leak h d h' d'"
    using sets live fresh mem by (auto simp: no_leak_def mem_ok_def)
qed

lemma owned_upd_works:
  assumes "delay_list d \<noteq> None"
  shows "mset (owned (upd_works ws d)) + mset (map work_addr (works d))
       = mset (owned d) + mset (map work_addr ws)"
  using assms by (simp add: owned_def upd_works_def ac_simps)

lemma mset_map_list_del:
  "a \<in> key ` set xs \<Longrightarrow> add_mset a (mset (map key (list_del key a xs))) = mset (map key xs)"
  by (induction xs) auto

lemma owned_msgs_distinct:
  "distinct (owned d) \<Longrightarrow> distinct (map msg_addr (msgs d)) \<and> distinct (map msg_addr (pendings d))"
proof -
  have "distinct (concat (map msg_owned ms)) \<Longrightarrow> distinct (map msg_addr ms)" for ms
    by (induction ms) (auto simp: msg_owned_def)
  then show "distinct (owned d) \<Longrightarrow> ?thesis" by (simp add: owned_def)
qed

lemma pendings_unlink: "mem_ok h d \<Longrightarrow> unlink_last msg_addr (pendings d) = butlast (pendings d)"
  using owned_msgs_distinct [of d] by (simp add: mem_ok_def unlink_last_butlast)

lemma publish_eq:
  "mem_ok h d \<Longrightarrow> publish d = (if pendings d = [] then d
     else upd_msgs (last (pendings d) # msgs d) (upd_pend (butlast (pendings d)) d))"
  by (simp add: publish_def pendings_unlink)

lemma owned_publish:
  assumes "mem_ok h d" and "dev_ok d"
  shows "mset (owned (publish d)) = mset (owned d)"
proof (cases "pendings d = []")
  case False
  then obtain pl p where "pendings d = pl @ [p]" by (cases "pendings d" rule: rev_cases) auto
  then have "mset (concat (map msg_owned (pendings d)))
      = mset (msg_owned (last (pendings d))) + mset (concat (map msg_owned (butlast (pendings d))))"
    by simp
  moreover from assms(2) have "message_list d \<noteq> None" "pending_list d \<noteq> None"
    by (simp_all add: dev_ok_def)
  ultimately show ?thesis using False assms(1)
    by (simp add: publish_eq owned_def upd_defs ac_simps)
qed (simp add: publish_def)

lemma dev_ok_publish:
  assumes "dev_ok d" and "mem_ok h d"
  shows "dev_ok (publish d)"
proof (cases "pendings d = []")
  case True
  with assms show ?thesis by (simp add: publish_def)
next
  case False
  then obtain pl p where pl: "pendings d = pl @ [p]" by (cases "pendings d" rule: rev_cases) auto
  from assms(1) have "message_list d \<noteq> None" "pending_list d \<noteq> None" by (simp_all add: dev_ok_def)
  then have views: "msgs (publish d) = p # msgs d" "pendings (publish d) = pl"
    "message_list (publish d) \<noteq> None" "pending_list (publish d) \<noteq> None"
    using assms(2) pl by (simp_all add: publish_eq upd_defs)
  show ?thesis using assms(1) pl unfolding dev_ok_def views by (simp add: views)
qed

lemma dev_ok_upd_works:
  assumes "dev_ok d" and "list_all (\<lambda>w. work_dev w = dev_addr d) ws" and "delay_wq d = None \<Longrightarrow> ws = []"
  shows "dev_ok (upd_works ws d)"
  using assms by (cases "delay_wq d") (auto simp: dev_ok_def upd_works_def armed_def is_flushing_def)

lemma mem_ok_publish:
  assumes "dev_ok d" and "mem_ok h d"
  shows "mem_ok h (publish d)" and "no_leak h d h (publish d)"
proof -
  have "h\<lparr>live := live h\<rparr> = h" by simp
  then show "mem_ok h (publish d)" and "no_leak h d h (publish d)"
    using mem_ok_release [OF assms(2), of "publish d" "[]"] owned_publish [OF assms(2,1)] by simp_all
qed

lemma no_leak_trans: "no_leak h d h' d' \<Longrightarrow> no_leak h' d' h'' d'' \<Longrightarrow> no_leak h d h'' d''"
  by (simp add: no_leak_def)

text \<open>Dropping works from both lists and freeing them.\<close>

lemma works_released:
  assumes "dev_ok d" and "mem_ok h d" and split: "mset (map work_addr (works d)) = mset (map work_addr ws) + mset as"
    and sub: "set ws \<subseteq> set (works d)"
  shows "dev_ok (upd_works ws d)" and "mem_ok (h\<lparr>live := live h - set as\<rparr>) (upd_works ws d)"
    and "no_leak h d (h\<lparr>live := live h - set as\<rparr>) (upd_works ws d)"
proof -
  from assms(1) have "delay_list d \<noteq> None" by (simp add: dev_ok_def)
  then have "mset (owned (upd_works ws d)) + mset (map work_addr (works d))
       = mset (owned d) + mset (map work_addr ws)"
    by (rule owned_upd_works)
  then have "mset (owned d) = mset (owned (upd_works ws d)) + mset as"
    unfolding split by (simp add: ac_simps)
  from mem_ok_release [OF assms(2) this]
  show "mem_ok (h\<lparr>live := live h - set as\<rparr>) (upd_works ws d)"
    and "no_leak h d (h\<lparr>live := live h - set as\<rparr>) (upd_works ws d)" by simp_all
  have "delay_wq d = None \<Longrightarrow> works d = []" using assms(1) by (simp add: dev_ok_def armed_def)
  then show "dev_ok (upd_works ws d)"
    using assms(1) sub by (intro dev_ok_upd_works) (auto simp: dev_ok_def list_all_iff)
qed

lemma timer_expires_inv:
  assumes "dev_ok d" and "mem_ok h d" and "timer_expires h a d = Done (h', d')"
  shows "dev_ok d' \<and> mem_ok h' d' \<and> no_leak h d h' d'"
proof (cases "a \<in> work_addr ` set (armed d)")
  case False
  with assms show ?thesis by (simp add: timer_expires_stale no_leak_def)
next
  case True
  with assms(1) obtain w where w: "w \<in> set (works d)" and a: "a = work_addr w"
    by (auto simp: dev_ok_def)
  let ?d1 = "publish d" and ?ws = "list_del work_addr a (works d)"
  from timer_expires_ok [OF assms(1,2) w] assms(3) a
  have res: "h' = h\<lparr>live := live h - {a}\<rparr>" "d' = upd_works ?ws ?d1" by simp_all
  note d1 = dev_ok_publish [OF assms(1,2)] mem_ok_publish [OF assms(1,2)]
  from w a have "a \<in> work_addr ` set (works ?d1)" by simp
  then have "mset (map work_addr (works ?d1)) = mset (map work_addr ?ws) + mset [a]"
    using mset_map_list_del [of a work_addr "works ?d1"] by simp
  moreover have "set ?ws \<subseteq> set (works ?d1)" using set_list_del_subset by simp
  ultimately have "dev_ok (upd_works ?ws ?d1) \<and> mem_ok h' (upd_works ?ws ?d1) \<and> no_leak h ?d1 h' (upd_works ?ws ?d1)"
    using works_released [OF d1(1,2), of ?ws "[a]"] res(1) by simp
  with d1(3) res(2) show ?thesis using no_leak_trans by blast
qed

lemma timer_expires_total:
  assumes "dev_ok d" and "mem_ok h d"
  shows "\<exists>h' d'. timer_expires h a d = Done (h', d')"
proof (cases "a \<in> work_addr ` set (armed d)")
  case True
  with assms(1) obtain w where "w \<in> set (works d)" and "a = work_addr w" by (auto simp: dev_ok_def)
  with timer_expires_ok [OF assms, of w] show ?thesis by simp
qed (simp add: timer_expires_stale)

lemma splice_pending_inv:
  assumes "dev_ok d" and "mem_ok h d"
  shows "dev_ok (splice_pending d)" and "mem_ok h (splice_pending d)" and "no_leak h d h (splice_pending d)"
proof -
  from assms(1) have nn: "message_list d \<noteq> None" "pending_list d \<noteq> None" by (simp_all add: dev_ok_def)
  then have views: "msgs (splice_pending d) = msgs d @ pendings d" "pendings (splice_pending d) = []"
    "message_list (splice_pending d) \<noteq> None" "pending_list (splice_pending d) \<noteq> None"
    by (simp_all add: splice_pending_def upd_defs)
  show "dev_ok (splice_pending d)" using assms(1) unfolding dev_ok_def views by (simp add: views)
  from nn have "mset (owned d) = mset (owned (splice_pending d)) + mset []"
    by (simp add: owned_def splice_pending_def upd_defs ac_simps)
  from mem_ok_release [OF assms(2) this]
  show "mem_ok h (splice_pending d)" and "no_leak h d h (splice_pending d)" by simp_all
qed

lemma fflush_workqueue_inv:
  assumes "dev_ok d" and "mem_ok h d" and "fflush_workqueue h d = Done (h', d')"
  shows "dev_ok d' \<and> mem_ok h' d' \<and> no_leak h d h' d'"
proof -
  let ?as = "map work_addr (works d)"
  from assms(3) fflush_workqueue_ok [OF assms(1,2)]
  have res: "h' = h\<lparr>live := live h - set ?as\<rparr>" "d' = upd_works [] (splice_pending d)" by simp_all
  note sp = splice_pending_inv [OF assms(1,2)]
  have "dev_ok d' \<and> mem_ok h' d' \<and> no_leak h (splice_pending d) h' d'"
    using works_released [OF sp(1,2), of "[]" ?as] res by simp
  with sp(3) show ?thesis using no_leak_trans by blast
qed

lemma add_delayed_work_inv:
  assumes "dev_ok d" and "mem_ok h d" and "add_delayed_work env h d = Done (h', d')"
  shows "dev_ok d' \<and> mem_ok h' d' \<and> no_leak h d h' d'"
proof (cases "delay_wq d = None")
  case True
  with assms show ?thesis by (simp add: add_delayed_work_ok no_leak_def)
next
  case False
  obtain r h1 where k: "kmalloc env h = (r, h1)" by (cases "kmalloc env h") auto
  show ?thesis
  proof (cases r)
    case None
    with k False assms have "h' = h1" "d' = d" by (auto simp: add_delayed_work_ok)
    moreover from k None have "live h1 = live h" "heap_ok h \<Longrightarrow> heap_ok h1"
      by (simp_all add: kmalloc_None)
    ultimately show ?thesis using assms by (simp add: mem_ok_def no_leak_def)
  next
    case (Some a)
    let ?w = "\<lparr>work_addr = a, work_dev = dev_addr d, work_delay = delay d\<rparr>"
    from k Some False assms have res: "h' = h1" "d' = upd_works (?w # works d) d"
      by (auto simp: add_delayed_work_ok)
    from assms(2) have "heap_ok h" by (simp add: mem_ok_def)
    from kmalloc_Some [OF k [unfolded Some] this]
    have fresh: "a \<notin> live h" "live h1 = insert a (live h)" "heap_ok h1" by simp_all
    from assms(1) have "delay_list d \<noteq> None" by (simp add: dev_ok_def)
    from owned_upd_works [OF this, of "?w # works d"]
    have "mset (owned d') = mset (owned d) + mset [a]" by (simp add: res ac_simps)
    from mem_ok_acquire [OF assms(2) _ _ _ _ this, of h1] fresh res
    have "mem_ok h' d' \<and> no_leak h d h' d'" by simp
    moreover have "dev_ok d'"
      unfolding res(2) using assms(1) False
      by (intro dev_ok_upd_works) (simp_all add: dev_ok_def)
    ultimately show ?thesis by simp
  qed
qed

end
