(* ===== verification/Group_Fops.thy ===== *)
theory Group_Fops
  imports Group_Dev_Laws
begin

text \<open>
  The file operations of a group device (\<open>group_dev.c\<close>): open, release, read, write,
  ioctl and flush, as the kernel calls them, and the ioctl command numbers
  (\<open>ioctl.h\<close>). Each call runs to its end or to the point where it sleeps.
\<close>

section \<open>Module parameters and command numbers\<close>

record module_params =
  max_message_size :: u32
  max_storage_size :: u32

text \<open>
  \<open>linux/ioctl.h\<close> packs a command number from direction, argument size, type and
  sequence number; \<open>IOCTL_IDENTIFIER\<close> is the character \<open>s\<close>. Pointers and
  \<open>long\<close> have eight bytes.
\<close>

definition ioc :: "u32 \<Rightarrow> u32 \<Rightarrow> u32 \<Rightarrow> u32" where
  "ioc dir sz nr = push_bit 30 dir OR push_bit 8 115 OR nr OR push_bit 16 sz"

definition IOCTL_INSTALL_GROUP :: u32 where "IOCTL_INSTALL_GROUP = ioc 1 8 0"

definition IOCTL_MAX_MESSAGE_SIZE :: u32 where "IOCTL_MAX_MESSAGE_SIZE = ioc 2 4 1"

definition IOCTL_SLEEP_ON_BARRIER :: u32 where "IOCTL_SLEEP_ON_BARRIER = ioc 0 0 2"

definition IOCTL_AWAKE_BARRIER :: u32 where "IOCTL_AWAKE_BARRIER = ioc 0 0 3"

definition IOCTL_SET_SEND_DELAY :: u32 where "IOCTL_SET_SEND_DELAY = ioc 1 8 4"

definition IOCTL_REVOKE_DELAYED_MESSAGES :: u32 where "IOCTL_REVOKE_DELAYED_MESSAGES = ioc 0 0 5"

lemmas ioctl_defs = IOCTL_INSTALL_GROUP_def IOCTL_MAX_MESSAGE_SIZE_def IOCTL_SLEEP_ON_BARRIER_def
  IOCTL_AWAKE_BARRIER_def IOCTL_SET_SEND_DELAY_def IOCTL_REVOKE_DELAYED_MESSAGES_def ioc_def

section \<open>Open, release and flush\<close>

text \<open>
  An open file is its \<open>private_data\<close>, the device it was opened on. \<open>container_of\<close>
  gives \<open>group_open\<close> the device around the inode's \<open>cdev\<close>.
\<close>

type_synonym filp = "group_dev option"

definition group_open :: "group_dev option \<Rightarrow> int \<times> filp" where
  "group_open dev = (case dev of None \<Rightarrow> (-1, None) | Some d \<Rightarrow> (0, Some d))"

definition group_release :: "filp \<Rightarrow> int" where
  "group_release f = 0"

definition group_flush :: "kheap \<Rightarrow> group_dev \<Rightarrow> int \<times> kheap \<times> group_dev" where
  "group_flush h d = (0, h, d)"

section \<open>Read\<close>

text \<open>The result of a read: return value, user buffer, heap and device.\<close>

type_synonym read_result = "int \<times> u8 list \<times> kheap \<times> group_dev"

text \<open>
  The second half of \<open>group_read\<close>, after the message has been taken off the list and the
  semaphore released: copy out at most \<open>data_size\<close> bytes and free the message.
\<close>

definition read_deliver :: "kheap \<Rightarrow> group_dev \<Rightarrow> message \<Rightarrow> u8 list \<Rightarrow> nat \<Rightarrow> read_result outcome" where
  "read_deliver h d msg ubuf len =
     (let len = (if len > data_size msg then data_size msg else len) in
      case data msg of
        None \<Rightarrow> Fault NullDeref
      | Some (da, buf) \<Rightarrow>
          let (left, ubuf') = copy_to_user ubuf (take len buf) in
          if left \<noteq> 0 then Done (-1, ubuf', h, d)
          else obind (kfree (Some da) h) (\<lambda>h.
               obind (kfree (Some (msg_addr msg)) h) (\<lambda>h.
               Done (int len, ubuf', h, d))))"

definition group_read_dev :: "kheap \<Rightarrow> group_dev \<Rightarrow> u8 list \<Rightarrow> nat \<Rightarrow> read_result outcome" where
  "group_read_dev h d ubuf len =
     obind (down (message_sem d)) (\<lambda>s.
     let d = d\<lparr>message_sem := s\<rparr> in
     case message_list d of
       None \<Rightarrow> obind (up (message_sem d)) (\<lambda>s. Done (-1, ubuf, h, d\<lparr>message_sem := s\<rparr>))
     | Some (la, ml) \<Rightarrow>
         if list_empty ml then
           obind (up (message_sem d)) (\<lambda>s. Done (0, ubuf, h, d\<lparr>message_sem := s\<rparr>))
         else
           let msg = list_last_entry ml;
               d = d\<lparr>message_list := Some (la, list_del msg_addr (msg_addr msg) ml),
                     messages_number := messages_number d - 1\<rparr> in
           obind (up (message_sem d)) (\<lambda>s.
           read_deliver h (d\<lparr>message_sem := s\<rparr>) msg ubuf len))"

definition group_read ::
  "kheap \<Rightarrow> filp option \<Rightarrow> u8 list \<Rightarrow> nat \<Rightarrow> (int \<times> u8 list \<times> kheap \<times> filp option) outcome" where
  "group_read h filp ubuf len =
     (case filp of
        None \<Rightarrow> Done (-1, ubuf, h, None)
      | Some None \<Rightarrow> Done (-1, ubuf, h, Some None)
      | Some (Some d) \<Rightarrow>
          obind (group_read_dev h d ubuf len) (\<lambda>(ret, ubuf, h, d). Done (ret, ubuf, h, Some (Some d))))"

section \<open>Write\<close>

type_synonym write_result = "int \<times> kheap \<times> group_dev"

text \<open>The \<open>msg_fail\<close> and \<open>data_fail\<close> labels: release the semaphore, free both objects.\<close>

definition write_fail :: "int \<Rightarrow> kheap \<Rightarrow> group_dev \<Rightarrow> addr \<Rightarrow> addr \<Rightarrow> write_result outcome" where
  "write_fail ret h d msg dat =
     obind (up (message_sem d)) (\<lambda>s.
     obind (kfree (Some msg) h) (\<lambda>h.
     obind (kfree (Some dat) h) (\<lambda>h.
     Done (ret, h, d\<lparr>message_sem := s\<rparr>))))"

text \<open>
  The end of \<open>group_write\<close>, inside the critical section and with the message filled in:
  count it, then either put it on \<open>pending_list\<close> and queue a work, or put it on
  \<open>message_list\<close>.
\<close>

definition write_store ::
  "('x) kernel_env_scheme \<Rightarrow> kheap \<Rightarrow> group_dev \<Rightarrow> message \<Rightarrow> write_result outcome" where
  "write_store env h d msg =
     (let d = d\<lparr>messages_number := messages_number d + 1\<rparr> in
      if delay d \<noteq> 0 then
        obind (up (message_sem d)) (\<lambda>s. let d = d\<lparr>message_sem := s\<rparr> in
        obind (down (pending_sem d)) (\<lambda>s. let d = d\<lparr>pending_sem := s\<rparr> in
        case pending_list d of
          None \<Rightarrow> Fault NullDeref
        | Some (pa, pl) \<Rightarrow>
            let d = d\<lparr>pending_list := Some (pa, list_add msg pl)\<rparr> in
            obind (up (pending_sem d)) (\<lambda>s.
            obind (add_delayed_work env h (d\<lparr>pending_sem := s\<rparr>)) (\<lambda>(h, d).
            Done (int (data_size msg), h, d)))))
      else
        case message_list d of
          None \<Rightarrow> Fault NullDeref
        | Some (ma, ml) \<Rightarrow>
            let d = d\<lparr>message_list := Some (ma, list_add msg ml)\<rparr> in
            obind (up (message_sem d)) (\<lambda>s.
            Done (int (data_size msg), h, d\<lparr>message_sem := s\<rparr>)))"

text \<open>
  The buffer \<open>data\<close> is zeroed and has the usable size of a request for \<open>length\<close> bytes.
  \<open>data[length] = 0\<close> is a store one past the requested bytes: it is inside the object
  only if the allocator reserved more than was asked for. The test of \<open>data\<close> right before
  it cannot fail, since the allocation was checked.
\<close>

definition group_write_dev ::
  "('x) kernel_env_scheme \<Rightarrow> module_params \<Rightarrow> kheap \<Rightarrow> group_dev \<Rightarrow> u8 list \<Rightarrow> nat \<Rightarrow> write_result outcome" where
  "group_write_dev env prm h d ubuf len =
     (if len = 0 then Done (-1, h, d)
      else
        let len = (if len > unat (max_message_size prm) then unat (max_message_size prm) else len) in
        case kmalloc env h of (None, h) \<Rightarrow> Done (-1, h, d)
        | (Some dat, h) \<Rightarrow> (case kmalloc env h of
            (None, h) \<Rightarrow> obind (kfree (Some dat) h) (\<lambda>h. Done (-1, h, d))
          | (Some msg, h) \<Rightarrow>
              obind (down (message_sem d)) (\<lambda>s.
              let d = d\<lparr>message_sem := s\<rparr> in
              if messages_number d \<ge> max_storage_size prm then write_fail 0 h d msg dat
              else if message_list d = None then write_fail (-1) h d msg dat
              else
                let (left, bytes) = copy_from_user ubuf len in
                if left \<noteq> 0 then write_fail (-1) h d msg dat
                else
                  let buf = bytes @ replicate (usable_size env len - len) 0 in
                  if len < length buf then
                    write_store env h d
                      \<lparr>msg_addr = msg, data_size = len, data = Some (dat, buf[len := 0])\<rparr>
                  else Fault OutOfBounds)))"

definition group_write ::
  "('x) kernel_env_scheme \<Rightarrow> module_params \<Rightarrow> kheap \<Rightarrow> filp option \<Rightarrow> u8 list \<Rightarrow> nat \<Rightarrow>
   (int \<times> kheap \<times> filp option) outcome" where
  "group_write env prm h filp ubuf len =
     (case filp of
        None \<Rightarrow> Done (-1, h, None)
      | Some None \<Rightarrow> Done (-1, h, Some None)
      | Some (Some d) \<Rightarrow>
          obind (group_write_dev env prm h d ubuf len) (\<lambda>(ret, h, d). Done (ret, h, Some (Some d))))"

section \<open>Ioctl\<close>

text \<open>A system call returns a value, or its thread sleeps on the device's wait queue.\<close>

datatype sysret = Returns int | Sleeps

text \<open>
  \<open>wait_event\<close> returns at once if its condition holds and puts the thread on the wait
  queue otherwise. \<open>wake_up_all\<close> makes every waiting thread test its condition again; a
  thread leaves the queue if the condition holds then.
\<close>

definition wait_event_barrier :: "nat \<Rightarrow> group_dev \<Rightarrow> sysret \<times> group_dev" where
  "wait_event_barrier tid d =
     (if is_barrier_up d = 0 then (Returns 0, d)
      else (Sleeps, d\<lparr>wait_queue := wait_queue d @ [tid]\<rparr>))"

definition waitqueue_active :: "group_dev \<Rightarrow> bool" where
  "waitqueue_active d \<longleftrightarrow> wait_queue d \<noteq> []"

definition wake_up_all :: "group_dev \<Rightarrow> group_dev" where
  "wake_up_all d = (if is_barrier_up d = 0 then d\<lparr>wait_queue := []\<rparr> else d)"

definition group_ioctl_dev ::
  "('x) kernel_env_scheme \<Rightarrow> kheap \<Rightarrow> group_dev \<Rightarrow> nat \<Rightarrow> u32 \<Rightarrow> u64 \<Rightarrow>
   (sysret \<times> kheap \<times> group_dev) outcome" where
  "group_ioctl_dev env h d tid cmd arg =
     (if cmd = IOCTL_SLEEP_ON_BARRIER then
        let (r, d) = wait_event_barrier tid (set_barrier d) in Done (r, h, d)
      else if cmd = IOCTL_AWAKE_BARRIER then
        let d = (if is_barrier_up d \<noteq> 0 then clear_barrier d else d);
            d = (if waitqueue_active d then wake_up_all d else d) in
        Done (Returns 0, h, d)
      else if cmd = IOCTL_SET_SEND_DELAY then
        (if sint arg < 0 then Done (Returns (-1), h, d)
         else Done (Returns 0, h, raw_set_delay env d arg))
      else if cmd = IOCTL_REVOKE_DELAYED_MESSAGES then
        obind (fflush_workqueue h d) (\<lambda>(h, d). Done (Returns 0, h, d))
      else Done (Returns (-1), h, d))"

definition group_unlocked_ioctl ::
  "('x) kernel_env_scheme \<Rightarrow> kheap \<Rightarrow> filp option \<Rightarrow> nat \<Rightarrow> u32 \<Rightarrow> u64 \<Rightarrow>
   (sysret \<times> kheap \<times> filp option) outcome" where
  "group_unlocked_ioctl env h filp tid cmd arg =
     (case filp of
        None \<Rightarrow> Done (Returns (-1), h, None)
      | Some None \<Rightarrow> Done (Returns (-1), h, Some None)
      | Some (Some d) \<Rightarrow>
          obind (group_ioctl_dev env h d tid cmd arg) (\<lambda>(r, h, d). Done (r, h, Some (Some d))))"

end
