(* ===== verification/Group_Fops_Laws.thy ===== *)
theory Group_Fops_Laws
  imports Group_Fops
begin

text \<open>
  What the file operations compute on a device that satisfies the invariant, branch by
  branch, and that they keep the invariant and leak nothing.
\<close>

section \<open>Read\<close>

text \<open>The device after its oldest published message was taken off.\<close>

definition taken :: "group_dev \<Rightarrow> group_dev" where
  "taken d = (upd_msgs (butlast (msgs d)) d)\<lparr>messages_number := messages_number d - 1\<rparr>"

lemma group_read_empty:
  assumes "dev_ok d" and "msgs d = []"
  shows "group_read_dev h d ubuf len = Done (0, ubuf, h, d)"
  using assms by (auto simp: group_read_dev_def dev_ok_def sem_bracket list_empty_def)

lemma msgs_unlink: "mem_ok h d \<Longrightarrow> unlink_last msg_addr (msgs d) = butlast (msgs d)"
  using owned_msgs_distinct [of d] by (simp add: mem_ok_def unlink_last_butlast)

lemma group_read_take:
  assumes "dev_ok d" and "mem_ok h d" and "msgs d \<noteq> []"
  shows "group_read_dev h d ubuf len = read_deliver h (taken d) (last (msgs d)) ubuf len"
proof -
  from assms(1) obtain la ms where ml: "message_list d = Some (la, ms)" by (auto simp: dev_ok_def)
  from assms(1) have sem: "sem_free (message_sem d)" by (simp add: dev_ok_def)
  from msgs_unlink [OF assms(2)] assms(3) ml
  have del: "list_del msg_addr (msg_addr (last ms)) ms = butlast ms"
    by (simp add: unlink_last_def list_last_entry_def)
  from ml have "d\<lparr>message_sem := message_sem d, message_list := Some (la, butlast ms),
       messages_number := messages_number d - 1\<rparr> = taken d"
    by (simp add: taken_def upd_msgs_def)
  with ml sem assms(3) del show ?thesis
    by (simp add: group_read_dev_def sem_bracket Let_def list_empty_def list_last_entry_def
        taken_def upd_msgs_def)
qed

lemma read_deliver_ok:
  fixes len :: nat
  assumes "msg_ok m" and "distinct (msg_owned m)" and "set (msg_owned m) \<subseteq> live h"
  defines "n \<equiv> min len (data_size m)"
  shows "read_deliver h d m ubuf len =
     (if n \<le> length ubuf
      then Done (int n, take n (content m) @ drop n ubuf, h\<lparr>live := live h - set (msg_owned m)\<rparr>, d)
      else Done (-1, take (length ubuf) (content m), h, d))"
proof -
  from assms(1) obtain a buf where dat: "data m = Some (a, buf)" and sz: "data_size m < length buf"
    by (auto simp: msg_ok_def split: option.splits)
  have n: "(if data_size m < len then data_size m else len) = n" by (simp add: n_def min_def)
  have le: "n \<le> data_size m" by (simp add: n_def)
  with sz have len: "length (take n buf) = n" and cont: "take n (content m) = take n buf"
    by (simp_all add: content_def dat min_def)
  from assms(2,3) dat have frees: "a \<in> live h" "msg_addr m \<in> live h" "a \<noteq> msg_addr m"
    by (simp_all add: msg_owned_def)
  have own: "live h - {a} - {msg_addr m} = live h - set (msg_owned m)"
    by (auto simp: msg_owned_def dat)
  show ?thesis
  proof (cases "n \<le> length ubuf")
    case True
    with len have "copy_to_user ubuf (take n buf) = (0, take n buf @ drop n ubuf)"
      by (simp add: copy_to_user_def)
    with True dat frees show ?thesis
      by (simp add: read_deliver_def n kfree_def cont own [symmetric])
  next
    case False
    with le have "take (length ubuf) (take n buf) = take (length ubuf) (content m)"
      by (simp add: content_def dat min_def)
    with len False have "copy_to_user ubuf (take n buf) = (n - length ubuf, take (length ubuf) (content m))"
      by (simp add: copy_to_user_def)
    with False dat show ?thesis by (simp add: read_deliver_def n)
  qed
qed

lemma last_msg_facts:
  assumes "dev_ok d" and "mem_ok h d" and "msgs d \<noteq> []"
  shows "msg_ok (last (msgs d))" and "distinct (msg_owned (last (msgs d)))"
    and "set (msg_owned (last (msgs d))) \<subseteq> live h"
    and "mset (owned d) = mset (owned (taken d)) + mset (msg_owned (last (msgs d)))"
proof -
  from assms(3) obtain ml m where ml: "msgs d = ml @ [m]" by (cases "msgs d" rule: rev_cases) auto
  from assms(1) ml show "msg_ok (last (msgs d))" by (simp add: dev_ok_def)
  from assms(2) ml show "distinct (msg_owned (last (msgs d)))" by (simp add: mem_ok_def owned_def)
  from assms(2) ml show "set (msg_owned (last (msgs d))) \<subseteq> live h" by (auto simp: mem_ok_def owned_def)
  from assms(1) have "message_list d \<noteq> None" by (simp add: dev_ok_def)
  with ml show "mset (owned d) = mset (owned (taken d)) + mset (msg_owned (last (msgs d)))"
    by (simp add: taken_def owned_def upd_msgs_def ac_simps)
qed

lemma group_read_ok:
  fixes len :: nat
  assumes "dev_ok d" and "mem_ok h d" and "msgs d \<noteq> []"
  defines "m \<equiv> last (msgs d)"
  defines "n \<equiv> min len (data_size m)"
  shows "group_read_dev h d ubuf len =
     (if n \<le> length ubuf
      then Done (int n, take n (content m) @ drop n ubuf, h\<lparr>live := live h - set (msg_owned m)\<rparr>, taken d)
      else Done (-1, take (length ubuf) (content m), h, taken d))"
  using last_msg_facts [OF assms(1-3)] group_read_take [OF assms(1-3)]
  unfolding m_def n_def by (simp add: read_deliver_ok)

lemma dev_ok_taken:
  assumes "dev_ok d" and "msgs d \<noteq> []"
  shows "dev_ok (taken d)"
proof -
  from assms(2) obtain ml m where ml: "msgs d = ml @ [m]" by (cases "msgs d" rule: rev_cases) auto
  from assms(1) have nn: "message_list d \<noteq> None" by (simp add: dev_ok_def)
  then have views: "msgs (taken d) = ml" "pendings (taken d) = pendings d" "works (taken d) = works d"
    "message_list (taken d) \<noteq> None"
    using ml by (simp_all add: taken_def upd_msgs_def)
  from assms(1) ml have cnt: "unat (messages_number d) = Suc (length ml + length (pendings d))"
    by (simp add: dev_ok_def)
  then have "messages_number d \<noteq> 0" by auto
  then have "unat (messages_number d - 1) = unat (messages_number d) - 1" by (rule unat_minus_one)
  with cnt have "unat (messages_number (taken d)) = length ml + length (pendings d)"
    by (simp add: taken_def)
  with assms(1) show ?thesis unfolding dev_ok_def views
    by (simp add: ml taken_def upd_msgs_def armed_def is_flushing_def)
qed

lemma group_read_inv:
  assumes "dev_ok d" and "mem_ok h d" and "group_read_dev h d ubuf len = Done (ret, ubuf', h', d')"
  shows "dev_ok d' \<and> mem_ok h' d' \<and> (0 \<le> ret \<longrightarrow> no_leak h d h' d')"
proof (cases "msgs d = []")
  case True
  with assms show ?thesis by (simp add: group_read_empty no_leak_def)
next
  case False
  let ?m = "last (msgs d)"
  note m = last_msg_facts [OF assms(1,2) False]
  from mem_ok_release [OF assms(2) m(4)]
  have freed: "mem_ok (h\<lparr>live := live h - set (msg_owned ?m)\<rparr>) (taken d)"
    "no_leak h d (h\<lparr>live := live h - set (msg_owned ?m)\<rparr>) (taken d)" by simp_all
  moreover from freed(1) assms(2) have "mem_ok h (taken d)" by (auto simp: mem_ok_def)
  ultimately show ?thesis
    using assms(3) dev_ok_taken [OF assms(1) False]
    by (auto simp: group_read_ok [OF assms(1,2) False] split: if_splits)
qed

section \<open>Write\<close>

text \<open>The number of bytes a write stores, and the message it builds.\<close>

definition write_len :: "module_params \<Rightarrow> nat \<Rightarrow> nat" where
  "write_len prm len = min len (unat (max_message_size prm))"

definition new_msg :: "('x) kernel_env_scheme \<Rightarrow> addr \<Rightarrow> addr \<Rightarrow> u8 list \<Rightarrow> nat \<Rightarrow> message" where
  "new_msg env msg dat ubuf n = \<lparr>msg_addr = msg, data_size = n,
     data = Some (dat, (take n ubuf @ replicate (usable_size env n - n) 0)[n := 0])\<rparr>"

text \<open>The accepted message enters one of the two lists.\<close>

definition write_accept ::
  "('x) kernel_env_scheme \<Rightarrow> kheap \<Rightarrow> group_dev \<Rightarrow> message \<Rightarrow> write_result outcome" where
  "write_accept env h d m =
     (let d1 = d\<lparr>messages_number := messages_number d + 1\<rparr> in
      if delay d = 0 then Done (int (data_size m), h, upd_msgs (m # msgs d) d1)
      else obind (add_delayed_work env h (upd_pend (m # pendings d) d1))
             (\<lambda>(h, d). Done (int (data_size m), h, d)))"

lemma write_store_ok:
  assumes "dev_ok d"
  shows "write_store env h (d\<lparr>message_sem := map_option (apsnd (\<lambda>_. 0)) (message_sem d)\<rparr>) m
       = write_accept env h d m"
proof -
  from assms obtain ma ms pa ps where ml: "message_list d = Some (ma, ms)"
    and pl: "pending_list d = Some (pa, ps)"
    by (auto simp: dev_ok_def)
  from assms have "sem_free (message_sem d)" "sem_free (pending_sem d)" by (simp_all add: dev_ok_def)
  then show ?thesis using ml pl
    by (simp add: write_store_def write_accept_def sem_bracket Let_def list_add_def upd_defs)
qed

lemma write_fail_ok:
  assumes "sem_free (message_sem d)" and "msg \<in> live h" and "dat \<in> live h" and "msg \<noteq> dat"
  shows "write_fail ret h (d\<lparr>message_sem := map_option (apsnd (\<lambda>_. 0)) (message_sem d)\<rparr>) msg dat
       = Done (ret, h\<lparr>live := live h - {msg, dat}\<rparr>, d)"
proof -
  have "live h - {msg} - {dat} = live h - {msg, dat}" by auto
  with assms show ?thesis by (simp add: write_fail_def sem_bracket kfree_def)
qed

lemma group_write_cases:
  fixes prm :: module_params and len :: nat
  assumes dev: "dev_ok d" and heap: "heap_ok h"
  defines "n \<equiv> write_len prm len"
  shows "group_write_dev env prm h d ubuf len =
     (if len = 0 then Done (-1, h, d)
      else case kmalloc env h of
        (None, h1) \<Rightarrow> Done (-1, h1, d)
      | (Some dat, h1) \<Rightarrow> (case kmalloc env h1 of
          (None, h2) \<Rightarrow> Done (-1, h2\<lparr>live := live h\<rparr>, d)
        | (Some msg, h2) \<Rightarrow>
            if max_storage_size prm \<le> messages_number d then Done (0, h2\<lparr>live := live h\<rparr>, d)
            else if length ubuf < n then Done (-1, h2\<lparr>live := live h\<rparr>, d)
            else if usable_size env n \<le> n then Fault OutOfBounds
            else write_accept env h2 d (new_msg env msg dat ubuf n)))"
proof (cases "len = 0")
  case True
  then show ?thesis by (simp add: group_write_dev_def)
next
  case False
  have n: "(if unat (max_message_size prm) < len then unat (max_message_size prm) else len) = n"
    by (simp add: n_def write_len_def min_def)
  from dev obtain ma ms where sem: "sem_free (message_sem d)" and ml: "message_list d = Some (ma, ms)"
    by (auto simp: dev_ok_def)
  obtain r1 h1 where k1: "kmalloc env h = (r1, h1)" by (cases "kmalloc env h") auto
  show ?thesis
  proof (cases r1)
    case None
    with False k1 show ?thesis by (simp add: group_write_dev_def n Let_def)
  next
    case (Some dat)
    note f1 = kmalloc_Some [OF k1 [unfolded Some] heap]
    obtain r2 h2 where k2: "kmalloc env h1 = (r2, h2)" by (cases "kmalloc env h1") auto
    show ?thesis
    proof (cases r2)
      case None
      from kmalloc_None(1) [OF k2 [unfolded None]] f1 have "live h2 = insert dat (live h)" by simp
      then have "kfree (Some dat) h2 = Done (h2\<lparr>live := live h\<rparr>)"
        using f1(1) by (simp add: kfree_def)
      with False Some None k1 k2 show ?thesis by (simp add: group_write_dev_def n Let_def)
    next
      case (Some msg)
      note f2 = kmalloc_Some [OF k2 [unfolded Some] f1(3)]
      from f1 f2 have "live h2 - {msg, dat} = live h" and two: "msg \<in> live h2" "dat \<in> live h2" "msg \<noteq> dat"
        by auto
      then have fail: "write_fail ret h2 (d\<lparr>message_sem := map_option (apsnd (\<lambda>_. 0)) (message_sem d)\<rparr>) msg dat
         = Done (ret, h2\<lparr>live := live h\<rparr>, d)" for ret
        using write_fail_ok [OF sem two] by simp
      show ?thesis using False Some \<open>r1 = Some dat\<close> k1 k2 ml fail sem
        by (simp add: group_write_dev_def n Let_def sem_bracket copy_from_user_def min_def
            write_store_ok [OF dev] new_msg_def)
    qed
  qed
qed

lemma msg_ok_new:
  assumes "n \<le> length ubuf" and "n < usable_size env n"
  shows "msg_ok (new_msg env msg dat ubuf n)" and "content (new_msg env msg dat ubuf n) = take n ubuf"
    and "msg_owned (new_msg env msg dat ubuf n) = [msg, dat]"
    and "data_size (new_msg env msg dat ubuf n) = n"
  using assms by (simp_all add: new_msg_def msg_ok_def content_def msg_owned_def min_def nth_append)

text \<open>The device right after an accepted message was counted and linked.\<close>

definition stored :: "message \<Rightarrow> group_dev \<Rightarrow> group_dev" where
  "stored m d = (let d1 = d\<lparr>messages_number := messages_number d + 1\<rparr> in
     if delay d = 0 then upd_msgs (m # msgs d) d1 else upd_pend (m # pendings d) d1)"

lemma write_accept_stored:
  "write_accept env h d m =
     (if delay d = 0 then Done (int (data_size m), h, stored m d)
      else obind (add_delayed_work env h (stored m d)) (\<lambda>(h, d). Done (int (data_size m), h, d)))"
  by (simp add: write_accept_def stored_def Let_def)

lemma stored_frame [simp]:
  "delay_wq (stored m d) = delay_wq d" "delay_list (stored m d) = delay_list d"
  "delay (stored m d) = delay d" "dev_addr (stored m d) = dev_addr d" "flags (stored m d) = flags d"
  "messages_number (stored m d) = messages_number d + 1" "wait_queue (stored m d) = wait_queue d"
  "message_sem (stored m d) = message_sem d" "pending_sem (stored m d) = pending_sem d"
  "wq_sem (stored m d) = wq_sem d" "minor (stored m d) = minor d"
  by (simp_all add: stored_def upd_defs Let_def)

lemma stored_inv:
  assumes dev: "dev_ok d" and m: "msg_ok m" and room: "messages_number d < mx"
  shows "dev_ok (stored m d)" and "mset (owned (stored m d)) = mset (owned d) + mset (msg_owned m)"
    and "msgs (stored m d) = (if delay d = 0 then m # msgs d else msgs d)"
    and "pendings (stored m d) = (if delay d = 0 then pendings d else m # pendings d)"
proof -
  from dev have nn: "message_list d \<noteq> None" "pending_list d \<noteq> None" by (simp_all add: dev_ok_def)
  then show views: "msgs (stored m d) = (if delay d = 0 then m # msgs d else msgs d)"
    "pendings (stored m d) = (if delay d = 0 then pendings d else m # pendings d)"
    by (simp_all add: stored_def upd_defs Let_def)
  from nn show "mset (owned (stored m d)) = mset (owned d) + mset (msg_owned m)"
    by (simp add: owned_def stored_def upd_defs Let_def ac_simps)
  from room have "unat (messages_number d + 1) = Suc (unat (messages_number d))"
    by (rule unat_Suc_less)
  moreover have "message_list (stored m d) \<noteq> None" "pending_list (stored m d) \<noteq> None"
    using nn by (auto simp: stored_def upd_defs Let_def)
  moreover have "armed (stored m d) = armed d" "is_flushing (stored m d) = is_flushing d"
    by (simp_all add: armed_def is_flushing_def)
  ultimately show "dev_ok (stored m d)"
    using dev m unfolding dev_ok_def views by simp
qed

lemma write_accept_inv:
  assumes dev: "dev_ok d" and mem: "mem_ok h d" and m: "msg_ok m" and room: "messages_number d < mx"
    and heap: "heap_ok h2" and live: "live h2 = set (msg_owned m) \<union> live h"
    and fresh: "distinct (msg_owned m)" "set (msg_owned m) \<inter> live h = {}"
    and acc: "write_accept env h2 d m = Done (ret, h', d')"
  shows "ret = int (data_size m) \<and> dev_ok d' \<and> mem_ok h' d' \<and> no_leak h d h' d'"
proof -
  note st = stored_inv [OF dev m room]
  from mem_ok_acquire [OF mem heap live fresh st(2)]
  have mem2: "mem_ok h2 (stored m d)" and leak2: "no_leak h d h2 (stored m d)" by simp_all
  show ?thesis
  proof (cases "delay d = 0")
    case True
    with acc mem2 leak2 st(1) show ?thesis by (simp add: write_accept_stored)
  next
    case False
    with acc have "add_delayed_work env h2 (stored m d) = Done (h', d')" and "ret = int (data_size m)"
      by (auto simp: write_accept_stored obind_eq_Done)
    with add_delayed_work_inv [OF st(1) mem2] leak2 no_leak_trans show ?thesis by blast
  qed
qed

lemma add_delayed_work_total:
  assumes "dev_ok d"
  shows "\<exists>h' d'. add_delayed_work env h d = Done (h', d')"
  using assms by (auto simp: add_delayed_work_ok split: option.splits prod.splits)

lemma write_accept_total:
  assumes "dev_ok d" and "msg_ok m" and "messages_number d < mx"
  shows "\<exists>h' d'. write_accept env h d m = Done (int (data_size m), h', d')"
  using add_delayed_work_total [OF stored_inv(1) [OF assms], of env h]
  by (auto simp: write_accept_stored)

lemma write_accept_no_fault:
  assumes "dev_ok d" and "msg_ok m" and "messages_number d < mx"
  shows "write_accept env h d m \<noteq> Fault f"
  using write_accept_total [OF assms, of env h] by auto

lemma mem_ok_live_eq: "mem_ok h d \<Longrightarrow> live h' = live h \<Longrightarrow> heap_ok h' \<Longrightarrow> mem_ok h' d \<and> no_leak h d h' d"
  by (simp add: mem_ok_def no_leak_def)

lemma heap_ok_live_back:
  "heap_ok h2 \<Longrightarrow> live h \<subseteq> live h2 \<Longrightarrow> heap_ok (h2\<lparr>live := live h\<rparr>)"
  by (auto simp: heap_ok_def)

text \<open>
  The branches of \<open>group_write\<close> that lead to an accepted message, and what the two
  allocations gave.
\<close>

lemma group_write_inv:
  assumes dev: "dev_ok d" and mem: "mem_ok h d"
    and run: "group_write_dev env prm h d ubuf len = Done (ret, h', d')"
  shows "dev_ok d' \<and> mem_ok h' d' \<and> no_leak h d h' d'"
proof -
  from mem have heap: "heap_ok h" by (simp add: mem_ok_def)
  let ?n = "write_len prm len"
  note cases = run [unfolded group_write_cases [OF dev heap]]
  have same: "?thesis" if "d' = d" "live h' = live h" "heap_ok h'"
    using that mem_ok_live_eq [OF mem] dev by simp
  obtain r1 h1 where k1: "kmalloc env h = (r1, h1)" by (cases "kmalloc env h") auto
  obtain r2 h2 where k2: "kmalloc env h1 = (r2, h2)" by (cases "kmalloc env h1") auto
  show ?thesis
  proof (cases "len = 0 \<or> r1 = None")
    case True
    with cases k1 heap have "d' = d" "live h' = live h" "heap_ok h'"
      by (auto simp: kmalloc_None split: if_splits)
    then show ?thesis by (rule same)
  next
    case False
    then obtain dat where r1: "r1 = Some dat" and len: "len \<noteq> 0" by auto
    note f1 = kmalloc_Some [OF k1 [unfolded r1] heap]
    have h2: "heap_ok h2" "live h \<subseteq> live h2"
      using f1 kmalloc_None [of env h1 h2] kmalloc_Some [of env h1 _ h2] k2 by (cases r2; auto)+
    note restored = heap_ok_live_back [OF h2]
    show ?thesis
    proof (cases "r2 = None \<or> max_storage_size prm \<le> messages_number d \<or> length ubuf < ?n")
      case True
      with cases k1 k2 r1 len restored have "d' = d" "live h' = live h" "heap_ok h'"
        by (auto split: if_splits option.splits)
      then show ?thesis by (rule same)
    next
      case False
      then obtain msg where r2: "r2 = Some msg" and room: "messages_number d < max_storage_size prm"
        and ub: "?n \<le> length ubuf" by auto
      note f2 = kmalloc_Some [OF k2 [unfolded r2] f1(3)]
      from cases k1 k2 r1 r2 len room ub have slack: "?n < usable_size env ?n"
        and acc: "write_accept env h2 d (new_msg env msg dat ubuf ?n) = Done (ret, h', d')"
        by (auto split: if_splits)
      note m = msg_ok_new [OF ub slack, of msg dat]
      have "live h2 = set (msg_owned (new_msg env msg dat ubuf ?n)) \<union> live h"
        and "distinct (msg_owned (new_msg env msg dat ubuf ?n))"
        and "set (msg_owned (new_msg env msg dat ubuf ?n)) \<inter> live h = {}"
        unfolding m(3) using f1(1,2) f2(1,2) by auto
      from write_accept_inv [OF dev mem m(1) room f2(3) this acc] show ?thesis by simp
    qed
  qed
qed

section \<open>Ioctl\<close>

lemma dev_ok_wait_queue [simp]: "dev_ok (d\<lparr>wait_queue := q\<rparr>) = dev_ok d"
  by (simp add: dev_ok_def armed_def is_flushing_def)

lemma dev_ok_delay [simp]: "dev_ok (d\<lparr>delay := x\<rparr>) = dev_ok d"
  by (simp add: dev_ok_def armed_def is_flushing_def)

lemma dev_ok_set_barrier [simp]: "dev_ok (set_barrier d) = dev_ok d"
  using barrier.other_raise [of d] by (simp add: dev_ok_def armed_def set_barrier_def)

lemma dev_ok_clear_barrier [simp]: "dev_ok (clear_barrier d) = dev_ok d"
  using barrier.other_lower [of d] by (simp add: dev_ok_def armed_def clear_barrier_def)

lemma owned_frame [simp]:
  "owned (d\<lparr>wait_queue := q\<rparr>) = owned d" "owned (d\<lparr>delay := x\<rparr>) = owned d"
  "owned (set_barrier d) = owned d" "owned (clear_barrier d) = owned d"
  by (simp_all add: owned_def set_barrier_def clear_barrier_def)

lemma lists_frame [simp]:
  "message_list (set_barrier d) = message_list d" "message_list (clear_barrier d) = message_list d"
  "pending_list (set_barrier d) = pending_list d" "pending_list (clear_barrier d) = pending_list d"
  "wait_queue (set_barrier d) = wait_queue d" "wait_queue (clear_barrier d) = wait_queue d"
  "delay (set_barrier d) = delay d" "delay (clear_barrier d) = delay d"
  by (simp_all add: set_barrier_def clear_barrier_def)

lemma is_barrier_up_wait_queue [simp]: "is_barrier_up (d\<lparr>wait_queue := q\<rparr>) = is_barrier_up d"
  by (simp add: is_barrier_up_def)

text \<open>The commands have different numbers, so the order of the cases does not matter.\<close>

lemma ioctl_distinct:
  "distinct [IOCTL_INSTALL_GROUP, IOCTL_MAX_MESSAGE_SIZE, IOCTL_SLEEP_ON_BARRIER,
     IOCTL_AWAKE_BARRIER, IOCTL_SET_SEND_DELAY, IOCTL_REVOKE_DELAYED_MESSAGES]"
  by (simp add: ioctl_defs)

lemma ioctl_sleep:
  "group_ioctl_dev env h d tid IOCTL_SLEEP_ON_BARRIER arg =
     Done (Sleeps, h, (set_barrier d)\<lparr>wait_queue := wait_queue d @ [tid]\<rparr>)"
  by (simp add: group_ioctl_dev_def wait_event_barrier_def barrier.raise_visible)

lemma ioctl_awake:
  "group_ioctl_dev env h d tid IOCTL_AWAKE_BARRIER arg =
     Done (Returns 0, h, (if is_barrier_up d = 0 then d else clear_barrier d)\<lparr>wait_queue := []\<rparr>)"
proof -
  have "d\<lparr>wait_queue := []\<rparr> = d" if "wait_queue d = []" for d :: group_dev using that by simp
  then show ?thesis using ioctl_distinct
    by (auto simp: group_ioctl_dev_def waitqueue_active_def wake_up_all_def barrier.test_lower Let_def)
qed

lemma ioctl_set_delay:
  "group_ioctl_dev env h d tid IOCTL_SET_SEND_DELAY arg =
     (if sint arg < 0 then Done (Returns (-1), h, d) else Done (Returns 0, h, raw_set_delay env d arg))"
  using ioctl_distinct by (auto simp: group_ioctl_dev_def)

lemma ioctl_revoke:
  "group_ioctl_dev env h d tid IOCTL_REVOKE_DELAYED_MESSAGES arg =
     obind (fflush_workqueue h d) (\<lambda>(h, d). Done (Returns 0, h, d))"
  using ioctl_distinct by (auto simp: group_ioctl_dev_def)

lemma ioctl_unknown:
  assumes "cmd \<notin> {IOCTL_SLEEP_ON_BARRIER, IOCTL_AWAKE_BARRIER, IOCTL_SET_SEND_DELAY,
      IOCTL_REVOKE_DELAYED_MESSAGES}"
  shows "group_ioctl_dev env h d tid cmd arg = Done (Returns (-1), h, d)"
  using assms by (simp add: group_ioctl_dev_def)

lemmas ioctl_results = ioctl_sleep ioctl_awake ioctl_set_delay ioctl_revoke ioctl_unknown

lemma ioctl_cases [case_names sleep awake set_delay revoke unknown]:
  assumes "cmd = IOCTL_SLEEP_ON_BARRIER \<Longrightarrow> P" and "cmd = IOCTL_AWAKE_BARRIER \<Longrightarrow> P"
    and "cmd = IOCTL_SET_SEND_DELAY \<Longrightarrow> P" and "cmd = IOCTL_REVOKE_DELAYED_MESSAGES \<Longrightarrow> P"
    and "cmd \<notin> {IOCTL_SLEEP_ON_BARRIER, IOCTL_AWAKE_BARRIER, IOCTL_SET_SEND_DELAY,
      IOCTL_REVOKE_DELAYED_MESSAGES} \<Longrightarrow> P"
  shows P
  using assms by blast

lemma mem_ok_frame: "owned d' = owned d \<Longrightarrow> mem_ok h d \<Longrightarrow> mem_ok h d' \<and> no_leak h d h d'"
  by (simp add: mem_ok_def no_leak_def)

lemma group_ioctl_inv:
  assumes "dev_ok d" and "mem_ok h d" and "group_ioctl_dev env h d tid cmd arg = Done (r, h', d')"
  shows "dev_ok d' \<and> mem_ok h' d' \<and> no_leak h d h' d'"
proof (cases cmd rule: ioctl_cases)
  case sleep
  with assms mem_ok_frame [of "(set_barrier d)\<lparr>wait_queue := wait_queue d @ [tid]\<rparr>" d h]
  show ?thesis by (auto simp: ioctl_sleep)
next
  case awake
  with assms have "h' = h" "d' = (if is_barrier_up d = 0 then d else clear_barrier d)\<lparr>wait_queue := []\<rparr>"
    by (auto simp: ioctl_awake)
  with assms(1,2) mem_ok_frame [of d' d h] show ?thesis by simp
next
  case set_delay
  with assms mem_ok_frame [of "raw_set_delay env d arg" d h] mem_ok_frame [of d d h] show ?thesis
    by (auto simp: ioctl_set_delay raw_set_delay_def split: if_splits)
next
  case revoke
  with assms have "fflush_workqueue h d = Done (h', d')" by (auto simp: ioctl_revoke obind_eq_Done)
  with fflush_workqueue_inv [OF assms(1,2)] show ?thesis by blast
next
  case unknown
  with assms mem_ok_frame [of d d h] show ?thesis by (simp add: ioctl_unknown)
qed

lemma group_ioctl_total:
  assumes "dev_ok d" and "mem_ok h d"
  shows "\<exists>r h' d'. group_ioctl_dev env h d tid cmd arg = Done (r, h', d')"
  by (cases cmd rule: ioctl_cases)
    (simp_all add: ioctl_results fflush_workqueue_ok [OF assms])

lemma group_read_total:
  assumes "dev_ok d" and "mem_ok h d"
  shows "\<exists>ret ubuf' h' d'. group_read_dev h d ubuf len = Done (ret, ubuf', h', d')"
  using assms by (cases "msgs d = []") (simp_all add: group_read_empty group_read_ok)

end
