(* ===== verification/Event_System.thy ===== *)
theory Event_System
  imports TSM_Prelude
begin

text \<open>
  Systems that are driven by events: a system call, an expired timer, a changed parameter.
  An event may fail; a run is a sequence of events none of which failed, together with
  the answers they gave. The locale \<open>event_system\<close> lifts an invariant of single events
  to runs.
\<close>

fun run_events :: "('s \<Rightarrow> 'e \<Rightarrow> ('o \<times> 's) outcome) \<Rightarrow> 's \<Rightarrow> 'e list \<Rightarrow>
    (('s \<times> 'e \<times> 'o) list \<times> 's) outcome" where
  "run_events exec s [] = Done ([], s)"
| "run_events exec s (e # es) =
     obind (exec s e) (\<lambda>(ob, t).
     obind (run_events exec t es) (\<lambda>(tr, u). Done ((s, e, ob) # tr, u)))"

lemma run_events_Cons_Done:
  "run_events exec s (e # es) = Done (tr, u) \<longleftrightarrow>
     (\<exists>ob t tr'. exec s e = Done (ob, t) \<and> run_events exec t es = Done (tr', u) \<and> tr = (s, e, ob) # tr')"
  by (auto simp: obind_eq_Done)

lemma run_events_append:
  "run_events exec s (es @ fs) =
     obind (run_events exec s es) (\<lambda>(tr, t).
     obind (run_events exec t fs) (\<lambda>(tr', u). Done (tr @ tr', u)))"
proof (induction es arbitrary: s)
  case Nil
  show ?case by (cases "run_events exec s fs") auto
next
  case (Cons e es)
  then show ?case
    by (cases "exec s e") (auto simp: obind_assoc case_prod_beta)
qed

locale event_system =
  fixes exec :: "'s \<Rightarrow> 'e \<Rightarrow> ('o \<times> 's) outcome"
    and inv :: "'s \<Rightarrow> bool"
  assumes exec_inv: "inv s \<Longrightarrow> exec s e = Done (ob, s') \<Longrightarrow> inv s'"
begin

lemma run_inv:
  assumes "inv s" and "run_events exec s es = Done (tr, t)"
  shows "inv t"
  using assms
proof (induction es arbitrary: s tr)
  case (Cons e es)
  then show ?case unfolding run_events_Cons_Done using exec_inv by blast
qed simp

lemma trace_inv:
  assumes "inv s" and "run_events exec s es = Done (tr, t)" and "(u, e, ob) \<in> set tr"
  shows "inv u"
  using assms
proof (induction es arbitrary: s tr)
  case (Cons f fs)
  then obtain ob' s' tr' where "exec s f = Done (ob', s')" and "run_events exec s' fs = Done (tr', t)"
    and "tr = (s, f, ob') # tr'"
    unfolding run_events_Cons_Done by blast
  with Cons show ?case by (auto dest: exec_inv)
qed simp

end

text \<open>
  A system whose abstraction follows the operation that an event stands for in a state with an
  answer; the abstract system is a function on abstract states.
\<close>

locale simulation = event_system exec inv
  for exec :: "'s \<Rightarrow> 'e \<Rightarrow> ('o \<times> 's) outcome" and inv :: "'s \<Rightarrow> bool" +
  fixes abs :: "'s \<Rightarrow> 'a"
    and astep :: "'a \<Rightarrow> 'x \<Rightarrow> 'a"
    and op_of :: "'s \<Rightarrow> 'e \<Rightarrow> 'o \<Rightarrow> 'x"
  assumes exec_abs: "inv s \<Longrightarrow> exec s e = Done (ob, s') \<Longrightarrow> abs s' = astep (abs s) (op_of s e ob)"
begin

abbreviation ops :: "('s \<times> 'e \<times> 'o) list \<Rightarrow> 'x list" where
  "ops tr \<equiv> map (\<lambda>(s, e, ob). op_of s e ob) tr"

lemma run_simulates:
  assumes "inv s" and "run_events exec s es = Done (tr, t)"
  shows "abs t = foldl astep (abs s) (ops tr)"
  using assms
proof (induction es arbitrary: s tr)
  case (Cons e es)
  then obtain ob u tr' where step: "exec s e = Done (ob, u)"
    and run: "run_events exec u es = Done (tr', t)" and tr: "tr = (s, e, ob) # tr'"
    unfolding run_events_Cons_Done by blast
  from Cons.IH [OF exec_inv [OF Cons.prems(1) step] run] exec_abs [OF Cons.prems(1) step]
  show ?case by (simp add: tr)
qed simp

end

text \<open>A quantity that no event decreases.\<close>

locale monotone_system = event_system exec inv
  for exec :: "'s \<Rightarrow> 'e \<Rightarrow> ('o \<times> 's) outcome" and inv :: "'s \<Rightarrow> bool" +
  fixes quantity :: "'s \<Rightarrow> nat"
  assumes exec_mono: "inv s \<Longrightarrow> exec s e = Done (ob, s') \<Longrightarrow> quantity s \<le> quantity s'"
begin

lemma run_mono:
  assumes "inv s" and "run_events exec s es = Done (tr, t)"
  shows "quantity s \<le> quantity t"
  using assms
proof (induction es arbitrary: s tr)
  case (Cons e es)
  then obtain ob u tr' where "exec s e = Done (ob, u)" and "run_events exec u es = Done (tr', t)"
    unfolding run_events_Cons_Done by blast
  with Cons exec_inv exec_mono show ?case by (meson order_trans)
qed simp

end

end
