(* ===== verification/Mailbox.thy ===== *)
theory Mailbox
  imports Event_System
begin

text \<open>
  The abstract specification of what a group device does with messages: a queue of messages
  that readers can get, a queue of messages whose publication is delayed, and one operation
  for everything that can move a message. The laws a mailbox obeys are proved here once;
  the locale \<open>mailbox_impl\<close> says what an implementation has to provide to inherit them.
\<close>

section \<open>Specification\<close>

record 'm mailbox =
  avail :: "'m list"   \<comment> \<open>messages a reader can get, next one first\<close>
  held :: "'m list"    \<comment> \<open>delayed messages, oldest first\<close>

datatype 'm mb_op =
    Post 'm      \<comment> \<open>a message is stored and available\<close>
  | Hold 'm      \<comment> \<open>a message is stored and delayed\<close>
  | Release      \<comment> \<open>the oldest delayed message becomes available\<close>
  | Flush        \<comment> \<open>all delayed messages become available, before the others\<close>
  | Fetch        \<comment> \<open>the next available message is removed\<close>
  | Idle

fun mb_step :: "'m mailbox \<Rightarrow> 'm mb_op \<Rightarrow> 'm mailbox" where
  "mb_step b (Post m) = b\<lparr>avail := avail b @ [m]\<rparr>"
| "mb_step b (Hold m) = b\<lparr>held := held b @ [m]\<rparr>"
| "mb_step b Release = (case held b of [] \<Rightarrow> b | m # ms \<Rightarrow> b\<lparr>avail := avail b @ [m], held := ms\<rparr>)"
| "mb_step b Flush = b\<lparr>avail := held b @ avail b, held := []\<rparr>"
| "mb_step b Fetch = b\<lparr>avail := tl (avail b)\<rparr>"
| "mb_step b Idle = b"

fun mb_run :: "'m mailbox \<Rightarrow> 'm mb_op list \<Rightarrow> 'm mailbox" where
  "mb_run b [] = b"
| "mb_run b (x # xs) = mb_run (mb_step b x) xs"

text \<open>The messages an operation stores, makes available at the end of the queue, or removes.\<close>

fun op_in :: "'m mb_op \<Rightarrow> 'm list" where
  "op_in (Post m) = [m]"
| "op_in (Hold m) = [m]"
| "op_in x = []"

fun op_entered :: "'m mailbox \<Rightarrow> 'm mb_op \<Rightarrow> 'm list" where
  "op_entered b (Post m) = [m]"
| "op_entered b Release = take 1 (held b)"
| "op_entered b x = []"

fun op_out :: "'m mailbox \<Rightarrow> 'm mb_op \<Rightarrow> 'm list" where
  "op_out b Fetch = take 1 (avail b)"
| "op_out b x = []"

fun mb_in :: "'m mb_op list \<Rightarrow> 'm list" where
  "mb_in [] = []"
| "mb_in (x # xs) = op_in x @ mb_in xs"

fun mb_entered :: "'m mailbox \<Rightarrow> 'm mb_op list \<Rightarrow> 'm list" where
  "mb_entered b [] = []"
| "mb_entered b (x # xs) = op_entered b x @ mb_entered (mb_step b x) xs"

fun mb_out :: "'m mailbox \<Rightarrow> 'm mb_op list \<Rightarrow> 'm list" where
  "mb_out b [] = []"
| "mb_out b (x # xs) = op_out b x @ mb_out (mb_step b x) xs"

fun mb_held_in :: "'m mb_op list \<Rightarrow> 'm list" where
  "mb_held_in [] = []"
| "mb_held_in (Hold m # xs) = m # mb_held_in xs"
| "mb_held_in (_ # xs) = mb_held_in xs"

fun mb_released :: "'m mailbox \<Rightarrow> 'm mb_op list \<Rightarrow> 'm list" where
  "mb_released b [] = []"
| "mb_released b (x # xs) =
     (case x of Release \<Rightarrow> take 1 (held b) | Flush \<Rightarrow> held b | _ \<Rightarrow> []) @ mb_released (mb_step b x) xs"

section \<open>Laws\<close>

text \<open>Nothing is lost and nothing is duplicated: what came in is what went out or is still there.\<close>

lemma mb_conservation:
  "mset (mb_out b xs) + mset (avail (mb_run b xs)) + mset (held (mb_run b xs))
   = mset (avail b) + mset (held b) + mset (mb_in xs)"
proof (induction xs arbitrary: b)
  case Nil
  then show ?case by simp
next
  case (Cons x xs)
  have "mset (op_out b x) + mset (avail (mb_step b x)) + mset (held (mb_step b x))
      = mset (avail b) + mset (held b) + mset (op_in x)"
    by (cases x; cases "avail b"; cases "held b") (auto simp: ac_simps)
  with Cons.IH [of "mb_step b x"] show ?case by (simp add: ac_simps)
qed

text \<open>
  Without a flush, messages are fetched in the order in which they became available.
\<close>

lemma mb_fifo:
  assumes "Flush \<notin> set xs"
  shows "mb_out b xs @ avail (mb_run b xs) = avail b @ mb_entered b xs"
  using assms
proof (induction xs arbitrary: b)
  case Nil
  then show ?case by simp
next
  case (Cons x xs)
  have "op_out b x @ avail (mb_step b x) = avail b @ op_entered b x"
    using Cons.prems by (cases x; cases "avail b"; cases "held b") auto
  with Cons show ?case by simp
qed

text \<open>
  Delayed messages become available in the order in which they were stored, whatever
  releases them.
\<close>

lemma mb_held_fifo: "mb_released b xs @ held (mb_run b xs) = held b @ mb_held_in xs"
proof (induction xs arbitrary: b)
  case Nil
  then show ?case by simp
next
  case (Cons x xs)
  show ?case
    using Cons.IH [of "mb_step b x"] by (cases x; cases "held b") auto
qed

text \<open>While nothing is or gets delayed, messages are fetched in the order they were stored.\<close>

lemma mb_fifo_undelayed:
  assumes "held b = []" and "\<And>m. Hold m \<notin> set xs"
  shows "mb_out b xs @ avail (mb_run b xs) = avail b @ mb_in xs \<and> held (mb_run b xs) = []"
  using assms
proof (induction xs arbitrary: b)
  case Nil
  then show ?case by simp
next
  case (Cons x xs)
  have step: "held (mb_step b x) = []" "op_out b x @ avail (mb_step b x) = avail b @ op_in x"
    using Cons.prems by (cases x; cases "avail b"; auto)+
  have "\<And>m. Hold m \<notin> set xs" using Cons.prems(2) by auto
  from Cons.IH [OF step(1) this] step(2) show ?case by simp
qed

lemma mb_run_foldl: "mb_run b xs = foldl mb_step b xs"
  by (induction xs arbitrary: b) auto

lemma mb_run_append: "mb_run b (xs @ ys) = mb_run (mb_run b xs) ys"
  by (induction xs arbitrary: b) auto

section \<open>Implementations\<close>

text \<open>
  An implementation runs an event in a state and may fail. Its abstraction follows the
  mailbox operation that the event stands for in that state with that answer.
\<close>

locale mailbox_impl = simulation exec inv abs mb_step op_of
  for exec :: "'s \<Rightarrow> 'e \<Rightarrow> ('o \<times> 's) outcome" and inv :: "'s \<Rightarrow> bool"
    and abs :: "'s \<Rightarrow> 'm mailbox" and op_of :: "'s \<Rightarrow> 'e \<Rightarrow> 'o \<Rightarrow> 'm mb_op"
begin

lemma run_refines:
  assumes "inv s" and "run_events exec s es = Done (tr, t)"
  shows "abs t = mb_run (abs s) (ops tr)"
  using run_simulates [OF assms] by (simp add: mb_run_foldl)

lemma run_conservation:
  assumes "inv s" and "run_events exec s es = Done (tr, t)"
  shows "mset (mb_out (abs s) (ops tr)) + mset (avail (abs t)) + mset (held (abs t))
       = mset (avail (abs s)) + mset (held (abs s)) + mset (mb_in (ops tr))"
  using run_refines [OF assms] mb_conservation [of "abs s" "ops tr"] by simp

lemma run_fifo:
  assumes "inv s" and "run_events exec s es = Done (tr, t)" and "Flush \<notin> set (ops tr)"
  shows "mb_out (abs s) (ops tr) @ avail (abs t) = avail (abs s) @ mb_entered (abs s) (ops tr)"
  using run_refines [OF assms(1,2)] mb_fifo [OF assms(3), of "abs s"] by simp

lemma run_held_fifo:
  assumes "inv s" and "run_events exec s es = Done (tr, t)"
  shows "mb_released (abs s) (ops tr) @ held (abs t) = held (abs s) @ mb_held_in (ops tr)"
  using run_refines [OF assms] mb_held_fifo [of "abs s" "ops tr"] by simp

end

end
