(* ===== verification/Group_Machine.thy ===== *)
theory Group_Machine
  imports Group_Fops_Laws Mailbox
begin

text \<open>
  A group device at work: the system calls on it, its timers and the module parameters as
  events in any order, its invariant over all runs, and the proof that it implements the
  mailbox of \<open>Mailbox\<close>.
\<close>

section \<open>Events\<close>

record gsys =
  heap :: kheap
  dev :: group_dev
  params :: module_params

datatype event =
    EvWrite "u8 list" nat         \<comment> \<open>\<open>write(fd, buf, length)\<close>, with the bytes readable at \<open>buf\<close>\<close>
  | EvRead "u8 list" nat          \<comment> \<open>\<open>read(fd, buf, length)\<close>, with the bytes writable at \<open>buf\<close>\<close>
  | EvIoctl nat u32 u64           \<comment> \<open>\<open>ioctl(fd, cmd, arg)\<close> by a thread\<close>
  | EvFlush                       \<comment> \<open>\<open>flush\<close>, on every \<open>close(fd)\<close>\<close>
  | EvTimer addr                  \<comment> \<open>the timer of a work expires\<close>
  | EvParams module_params        \<comment> \<open>the parameters are changed through \<open>/sys\<close>\<close>

datatype answer = AInt int | ARead int "u8 list" | ASys sysret | ANone

definition gd_exec :: "('x) kernel_env_scheme \<Rightarrow> gsys \<Rightarrow> event \<Rightarrow> (answer \<times> gsys) outcome" where
  "gd_exec env s e = (case e of
      EvWrite ubuf len \<Rightarrow>
        obind (group_write_dev env (params s) (heap s) (dev s) ubuf len)
          (\<lambda>(r, h, d). Done (AInt r, s\<lparr>heap := h, dev := d\<rparr>))
    | EvRead ubuf len \<Rightarrow>
        obind (group_read_dev (heap s) (dev s) ubuf len)
          (\<lambda>(r, ubuf, h, d). Done (ARead r ubuf, s\<lparr>heap := h, dev := d\<rparr>))
    | EvIoctl tid cmd arg \<Rightarrow>
        obind (group_ioctl_dev env (heap s) (dev s) tid cmd arg)
          (\<lambda>(r, h, d). Done (ASys r, s\<lparr>heap := h, dev := d\<rparr>))
    | EvFlush \<Rightarrow>
        (let (r, h, d) = group_flush (heap s) (dev s) in Done (AInt r, s\<lparr>heap := h, dev := d\<rparr>))
    | EvTimer a \<Rightarrow>
        obind (timer_expires (heap s) a (dev s)) (\<lambda>(h, d). Done (ANone, s\<lparr>heap := h, dev := d\<rparr>))
    | EvParams p \<Rightarrow> Done (ANone, s\<lparr>params := p\<rparr>))"

definition gsys_ok :: "gsys \<Rightarrow> bool" where
  "gsys_ok s \<longleftrightarrow> dev_ok (dev s) \<and> mem_ok (heap s) (dev s)"

abbreviation gd_run :: "('x) kernel_env_scheme \<Rightarrow> gsys \<Rightarrow> event list \<Rightarrow>
    ((gsys \<times> event \<times> answer) list \<times> gsys) outcome" where
  "gd_run env \<equiv> run_events (gd_exec env)"

section \<open>The device as a mailbox\<close>

definition gd_abs :: "gsys \<Rightarrow> (u8 list) mailbox" where
  "gd_abs s = \<lparr>avail = map content (rev (msgs (dev s))), held = map content (rev (pendings (dev s)))\<rparr>"

text \<open>
  The mailbox operation an event stands for. A write was accepted if it returned a positive
  number of bytes.
\<close>

definition op_of :: "gsys \<Rightarrow> event \<Rightarrow> answer \<Rightarrow> (u8 list) mb_op" where
  "op_of s e ob = (case e of
      EvWrite ubuf len \<Rightarrow> (case ob of
        AInt r \<Rightarrow> if 0 < r
          then (if delay (dev s) = 0 then Post (take (nat r) ubuf) else Hold (take (nat r) ubuf))
          else Idle
      | _ \<Rightarrow> Idle)
    | EvRead ubuf len \<Rightarrow> Fetch
    | EvIoctl tid cmd arg \<Rightarrow> if cmd = IOCTL_REVOKE_DELAYED_MESSAGES then Flush else Idle
    | EvTimer a \<Rightarrow> if a \<in> work_addr ` set (armed (dev s)) then Release else Idle
    | _ \<Rightarrow> Idle)"

text \<open>
  Documented behaviour of the allocator that the correspondence rests on: a request for no
  bytes gives an object with no usable byte (\<open>ZERO_SIZE_PTR\<close>).
\<close>

definition zero_size_ptr :: "('x) kernel_env_scheme \<Rightarrow> bool" where
  "zero_size_ptr env \<longleftrightarrow> usable_size env 0 = 0"

text \<open>What a run shows from outside: the messages accepted by \<open>write\<close>, and the messages that \<open>read\<close> took off the device.\<close>

definition accepted :: "(gsys \<times> event \<times> answer) list \<Rightarrow> u8 list list" where
  "accepted tr = concat (map (\<lambda>(s, e, ob). case (e, ob) of
      (EvWrite ubuf len, AInt r) \<Rightarrow> if 0 < r then [take (nat r) ubuf] else []
    | _ \<Rightarrow> []) tr)"

definition fetched :: "(gsys \<times> event \<times> answer) list \<Rightarrow> u8 list list" where
  "fetched tr = concat (map (\<lambda>(s, e, ob). case e of
      EvRead ubuf len \<Rightarrow> take 1 (avail (gd_abs s))
    | _ \<Rightarrow> []) tr)"

text \<open>The messages that became available one by one: undelayed writes and expired timers.\<close>

definition made_available :: "(gsys \<times> event \<times> answer) list \<Rightarrow> u8 list list" where
  "made_available tr = concat (map (\<lambda>(s, e, ob). case e of
      EvWrite ubuf len \<Rightarrow> (case ob of
        AInt r \<Rightarrow> if 0 < r \<and> delay (dev s) = 0 then [take (nat r) ubuf] else [] | _ \<Rightarrow> [])
    | EvTimer a \<Rightarrow> if a \<in> work_addr ` set (armed (dev s)) then take 1 (held (gd_abs s)) else []
    | _ \<Rightarrow> []) tr)"

text \<open>The messages accepted with a delay, and the messages that stopped being delayed.\<close>

definition accepted_delayed :: "(gsys \<times> event \<times> answer) list \<Rightarrow> u8 list list" where
  "accepted_delayed tr = concat (map (\<lambda>(s, e, ob). case (e, ob) of
      (EvWrite ubuf len, AInt r) \<Rightarrow> if 0 < r \<and> delay (dev s) \<noteq> 0 then [take (nat r) ubuf] else []
    | _ \<Rightarrow> []) tr)"

fun is_revoke :: "event \<Rightarrow> bool" where
  "is_revoke (EvIoctl tid cmd arg) = (cmd = IOCTL_REVOKE_DELAYED_MESSAGES)"
| "is_revoke e = False"

fun is_set_delay :: "event \<Rightarrow> bool" where
  "is_set_delay (EvIoctl tid cmd arg) = (cmd = IOCTL_SET_SEND_DELAY)"
| "is_set_delay e = False"

definition published :: "(gsys \<times> event \<times> answer) list \<Rightarrow> u8 list list" where
  "published tr = concat (map (\<lambda>(s, e, ob). case e of
      EvTimer a \<Rightarrow> if a \<in> work_addr ` set (armed (dev s)) then take 1 (held (gd_abs s)) else []
    | EvIoctl tid cmd arg \<Rightarrow> if cmd = IOCTL_REVOKE_DELAYED_MESSAGES then held (gd_abs s) else []
    | _ \<Rightarrow> []) tr)"

section \<open>Effect of each operation on the mailbox\<close>

lemma map_content_last: "xs \<noteq> [] \<Longrightarrow> map content (rev xs) = content (last xs) # map content (rev (butlast xs))"
  by (cases xs rule: rev_cases) auto

lemma abs_read:
  assumes "gsys_ok s" and "gd_exec env s (EvRead ubuf len) = Done (ob, s')"
  shows "gd_abs s' = mb_step (gd_abs s) Fetch"
proof (cases "msgs (dev s) = []")
  case True
  with assms show ?thesis by (auto simp: gsys_ok_def gd_exec_def group_read_empty gd_abs_def)
next
  case False
  from assms(1) have "dev_ok (dev s)" "mem_ok (heap s) (dev s)" by (simp_all add: gsys_ok_def)
  note read = group_read_ok [OF this False, of ubuf len]
  from assms(1) have "message_list (dev s) \<noteq> None" by (simp add: gsys_ok_def dev_ok_def)
  then have "msgs (taken (dev s)) = butlast (msgs (dev s))" "pendings (taken (dev s)) = pendings (dev s)"
    by (simp_all add: taken_def upd_msgs_def)
  with assms(2) read False show ?thesis
    by (auto simp: gd_exec_def gd_abs_def map_content_last split: if_splits)
qed

lemma msgs_upd_works [simp]: "message_list (upd_works ws d) = message_list d" "pending_list (upd_works ws d) = pending_list d"
  by (simp_all add: upd_works_def)

lemma abs_publish:
  assumes "dev_ok d" and "mem_ok h d"
  shows "map content (rev (msgs (publish d))) = map content (rev (msgs d)) @ take 1 (map content (rev (pendings d)))"
    and "map content (rev (pendings (publish d))) = tl (map content (rev (pendings d)))"
proof -
  from assms(1) have "message_list d \<noteq> None" "pending_list d \<noteq> None" by (simp_all add: dev_ok_def)
  then show "map content (rev (msgs (publish d))) = map content (rev (msgs d)) @ take 1 (map content (rev (pendings d)))"
    and "map content (rev (pendings (publish d))) = tl (map content (rev (pendings d)))"
    using map_content_last [of "pendings d"]
    by (simp_all add: publish_eq [OF assms(2)] upd_defs)
qed

lemma abs_timer:
  assumes "gsys_ok s" and "gd_exec env s (EvTimer a) = Done (ob, s')"
  shows "gd_abs s' = mb_step (gd_abs s) (if a \<in> work_addr ` set (armed (dev s)) then Release else Idle)"
proof (cases "a \<in> work_addr ` set (armed (dev s))")
  case False
  with assms show ?thesis by (auto simp: gd_exec_def timer_expires_stale gd_abs_def)
next
  case True
  from assms(1) have ok: "dev_ok (dev s)" "mem_ok (heap s) (dev s)" by (simp_all add: gsys_ok_def)
  from True ok(1) obtain w where w: "w \<in> set (works (dev s))" "a = work_addr w" by (auto simp: dev_ok_def)
  have "dev s' = upd_works (list_del work_addr a (works (dev s))) (publish (dev s))"
    using assms(2) timer_expires_ok [OF ok w(1)] w(2) by (auto simp: gd_exec_def)
  with abs_publish [OF ok] True show ?thesis
    by (cases "map content (rev (pendings (dev s)))") (auto simp: gd_abs_def)
qed

lemma abs_flush:
  assumes "gsys_ok s" and "fflush_workqueue (heap s) (dev s) = Done (h', d')"
  shows "map content (rev (msgs d')) = map content (rev (pendings (dev s))) @ map content (rev (msgs (dev s)))"
    and "pendings d' = []"
proof -
  from assms(1) have ok: "dev_ok (dev s)" "mem_ok (heap s) (dev s)" by (simp_all add: gsys_ok_def)
  from ok(1) have "message_list (dev s) \<noteq> None" "pending_list (dev s) \<noteq> None" by (simp_all add: dev_ok_def)
  then show "map content (rev (msgs d')) = map content (rev (pendings (dev s))) @ map content (rev (msgs (dev s)))"
    and "pendings d' = []"
    using assms(2) fflush_workqueue_ok [OF ok] by (auto simp: splice_pending_def upd_msgs_def upd_pend_def)
qed

lemma abs_ioctl:
  assumes "gsys_ok s" and "gd_exec env s (EvIoctl tid cmd arg) = Done (ob, s')"
  shows "gd_abs s' = mb_step (gd_abs s) (if cmd = IOCTL_REVOKE_DELAYED_MESSAGES then Flush else Idle)"
proof (cases "cmd = IOCTL_REVOKE_DELAYED_MESSAGES")
  case True
  with assms(2) obtain h' d' where "fflush_workqueue (heap s) (dev s) = Done (h', d')"
    and "s' = s\<lparr>heap := h', dev := d'\<rparr>"
    by (auto simp: gd_exec_def ioctl_revoke obind_eq_Done)
  with abs_flush [OF assms(1)] True show ?thesis by (simp add: gd_abs_def)
next
  case False
  then show ?thesis using assms(2)
    by (cases cmd rule: ioctl_cases)
      (auto simp: gd_exec_def ioctl_results gd_abs_def raw_set_delay_def split: if_splits)
qed

text \<open>A write that returns was refused and changed nothing, or stored its bytes.\<close>

lemma group_write_Done_cases:
  assumes dev: "dev_ok d" and heap: "heap_ok h" and doc: "zero_size_ptr env"
    and run: "group_write_dev env prm h d ubuf len = Done (ret, h', d')"
  obtains (refused) "ret \<le> 0" and "d' = d"
  | (stored) m where "ret = int (write_len prm len)" and "0 < ret" and "write_len prm len \<le> length ubuf"
      and "messages_number d < max_storage_size prm"
      and "content m = take (write_len prm len) ubuf" and "msg_ok m"
      and "msgs d' = (if delay d = 0 then m # msgs d else msgs d)"
      and "pendings d' = (if delay d = 0 then pendings d else m # pendings d)"
proof -
  let ?n = "write_len prm len"
  note cs = run [unfolded group_write_cases [OF dev heap]]
  show thesis
  proof (cases "\<exists>h2 msg dat. write_accept env h2 d (new_msg env msg dat ubuf ?n) = Done (ret, h', d')
      \<and> messages_number d < max_storage_size prm \<and> ?n \<le> length ubuf \<and> ?n < usable_size env ?n")
    case False
    with cs have "ret \<le> 0 \<and> d' = d"
      by (auto split: if_splits option.splits prod.splits simp: not_less not_le)
    with refused show thesis by blast
  next
    case True
    then obtain h2 msg dat where acc: "write_accept env h2 d (new_msg env msg dat ubuf ?n) = Done (ret, h', d')"
      and room: "messages_number d < max_storage_size prm" and ub: "?n \<le> length ubuf"
      and slack: "?n < usable_size env ?n" by blast
    let ?m = "new_msg env msg dat ubuf ?n"
    note m = msg_ok_new [OF ub slack, of msg dat]
    note st = stored_inv [OF dev m(1) room]
    from slack doc have pos: "0 < ?n" by (cases ?n) (auto simp: zero_size_ptr_def)
    have "message_list d' = message_list (stored ?m d) \<and> pending_list d' = pending_list (stored ?m d)
        \<and> ret = int ?n"
      using acc st(1) m(4)
      by (auto simp: write_accept_stored obind_eq_Done add_delayed_work_ok
          split: if_splits option.splits prod.splits)
    with st(3,4) m pos ub room show thesis by (intro stored [of ?m]) auto
  qed
qed

lemma abs_write:
  assumes "gsys_ok s" and "zero_size_ptr env" and "gd_exec env s (EvWrite ubuf len) = Done (ob, s')"
  shows "gd_abs s' = mb_step (gd_abs s) (op_of s (EvWrite ubuf len) ob)"
proof -
  from assms(3) obtain r h' d' where
    run: "group_write_dev env (params s) (heap s) (dev s) ubuf len = Done (r, h', d')"
    and ob: "ob = AInt r" and s': "s' = s\<lparr>heap := h', dev := d'\<rparr>"
    by (auto simp: gd_exec_def obind_eq_Done)
  from assms(1) have ok: "dev_ok (dev s)" "heap_ok (heap s)" by (simp_all add: gsys_ok_def mem_ok_def)
  from ok assms(2) run show ?thesis
    by (cases rule: group_write_Done_cases) (auto simp: ob s' op_of_def gd_abs_def)
qed

section \<open>The device implements the mailbox\<close>

lemma gd_exec_inv:
  assumes "gsys_ok s" and "gd_exec env s e = Done (ob, s')"
  shows "gsys_ok s'"
proof -
  from assms(1) have ok: "dev_ok (dev s)" "mem_ok (heap s) (dev s)" by (simp_all add: gsys_ok_def)
  show ?thesis
  proof (cases e)
    case (EvWrite ubuf len)
    with assms(2) obtain r h' d' where
      "group_write_dev env (params s) (heap s) (dev s) ubuf len = Done (r, h', d')"
      and "s' = s\<lparr>heap := h', dev := d'\<rparr>" by (auto simp: gd_exec_def obind_eq_Done)
    with group_write_inv [OF ok] show ?thesis unfolding gsys_ok_def by fastforce
  next
    case (EvRead ubuf len)
    with assms(2) obtain r ubuf' h' d' where
      "group_read_dev (heap s) (dev s) ubuf len = Done (r, ubuf', h', d')"
      and "s' = s\<lparr>heap := h', dev := d'\<rparr>" by (auto simp: gd_exec_def obind_eq_Done)
    with group_read_inv [OF ok] show ?thesis unfolding gsys_ok_def by fastforce
  next
    case (EvIoctl tid cmd arg)
    with assms(2) obtain r h' d' where
      "group_ioctl_dev env (heap s) (dev s) tid cmd arg = Done (r, h', d')"
      and "s' = s\<lparr>heap := h', dev := d'\<rparr>" by (auto simp: gd_exec_def obind_eq_Done)
    with group_ioctl_inv [OF ok] show ?thesis unfolding gsys_ok_def by fastforce
  next
    case (EvTimer a)
    with assms(2) obtain h' d' where "timer_expires (heap s) a (dev s) = Done (h', d')"
      and "s' = s\<lparr>heap := h', dev := d'\<rparr>" by (auto simp: gd_exec_def obind_eq_Done)
    with timer_expires_inv [OF ok] show ?thesis unfolding gsys_ok_def by fastforce
  qed (use assms in \<open>auto simp: gd_exec_def group_flush_def gsys_ok_def\<close>)
qed

lemma gd_exec_abs:
  assumes "gsys_ok s" and "zero_size_ptr env" and "gd_exec env s e = Done (ob, s')"
  shows "gd_abs s' = mb_step (gd_abs s) (op_of s e ob)"
proof (cases e)
  case (EvWrite ubuf len)
  with assms show ?thesis by (simp add: abs_write)
next
  case (EvRead ubuf len)
  with assms abs_read [of s env ubuf len] show ?thesis by (simp add: op_of_def)
next
  case (EvIoctl tid cmd arg)
  with assms(3) have "gd_exec env s (EvIoctl tid cmd arg) = Done (ob, s')" by simp
  from abs_ioctl [OF assms(1) this] EvIoctl show ?thesis unfolding op_of_def by simp
next
  case (EvTimer a)
  with assms(3) have "gd_exec env s (EvTimer a) = Done (ob, s')" by simp
  from abs_timer [OF assms(1) this] EvTimer show ?thesis unfolding op_of_def by simp
qed (use assms(3) in \<open>auto simp: op_of_def gd_exec_def group_flush_def gd_abs_def\<close>)

interpretation gd_sys: event_system "gd_exec env" gsys_ok for env :: "'x kernel_env_scheme"
  by unfold_locales (rule gd_exec_inv)

interpretation gd_mbox: mailbox_impl "gd_exec env" "\<lambda>s. zero_size_ptr env \<and> gsys_ok s" gd_abs op_of
  for env :: "'x kernel_env_scheme"
  by unfold_locales (auto dest: gd_exec_inv gd_exec_abs)

abbreviation gd_ops :: "(gsys \<times> event \<times> answer) list \<Rightarrow> (u8 list) mb_op list" where
  "gd_ops tr \<equiv> map (\<lambda>(s, e, ob). op_of s e ob) tr"

lemma accepted_ops: "accepted tr = mb_in (gd_ops tr)"
  by (induction tr) (auto simp: accepted_def op_of_def split: event.splits answer.splits)

lemma accepted_delayed_ops: "accepted_delayed tr = mb_held_in (gd_ops tr)"
  by (induction tr) (auto simp: accepted_delayed_def op_of_def split: event.splits answer.splits)

text \<open>What is seen from outside is what the mailbox does.\<close>

lemma observed_ops:
  assumes "zero_size_ptr env" and "gsys_ok s" and "gd_run env s es = Done (tr, t)"
  shows "fetched tr = mb_out (gd_abs s) (gd_ops tr)
       \<and> made_available tr = mb_entered (gd_abs s) (gd_ops tr)
       \<and> published tr = mb_released (gd_abs s) (gd_ops tr)"
  using assms
proof (induction es arbitrary: s tr)
  case Nil
  then show ?case by (simp add: fetched_def made_available_def published_def)
next
  case (Cons e es)
  then obtain ob u tr' where step: "gd_exec env s e = Done (ob, u)"
    and run: "gd_run env u es = Done (tr', t)" and tr: "tr = (s, e, ob) # tr'"
    unfolding run_events_Cons_Done by blast
  note IH = Cons.IH [OF Cons.prems(1) gd_exec_inv [OF Cons.prems(2) step] run,
      unfolded gd_exec_abs [OF Cons.prems(2,1) step]]
  have "fetched tr = op_out (gd_abs s) (op_of s e ob) @ fetched tr'"
    by (cases e) (auto simp: tr fetched_def op_of_def split: answer.splits)
  moreover have "made_available tr = op_entered (gd_abs s) (op_of s e ob) @ made_available tr'"
    by (cases e) (auto simp: tr made_available_def op_of_def split: answer.splits)
  moreover have "published tr = (case op_of s e ob of Release \<Rightarrow> take 1 (held (gd_abs s))
      | Flush \<Rightarrow> held (gd_abs s) | _ \<Rightarrow> []) @ published tr'"
    by (cases e) (auto simp: tr published_def op_of_def split: answer.splits)
  ultimately show ?case using IH by (simp add: tr)
qed

lemma gd_trace_events: "gd_run env s es = Done (tr, t) \<Longrightarrow> map (\<lambda>(s, e, ob). e) tr = es"
  by (induction es arbitrary: s tr) (auto simp: obind_eq_Done)

lemma op_of_not_Flush:
  assumes "gd_run env s es = Done (tr, t)" and "list_all (\<lambda>e. \<not> is_revoke e) es"
  shows "Flush \<notin> set (gd_ops tr)"
proof -
  have "op_of u e ob \<noteq> Flush" if "(u, e, ob) \<in> set tr" for u e ob
  proof -
    from assms(2) that have "\<not> is_revoke e"
      unfolding gd_trace_events [OF assms(1), symmetric] by (auto simp: list_all_iff)
    then show ?thesis by (cases e) (auto simp: op_of_def split: answer.splits)
  qed
  then show ?thesis by force
qed

text \<open>Only \<open>SET_SEND_DELAY\<close> changes the delay.\<close>

lemma add_delayed_work_delay: "add_delayed_work env h d = Done (h', d') \<Longrightarrow> delay d' = delay d"
  by (auto simp: add_delayed_work_def obind_eq_Done Let_def split: option.splits prod.splits)

lemma gd_exec_delay:
  assumes "gsys_ok s" and "gd_exec env s e = Done (ob, s')" and "\<not> is_set_delay e"
  shows "delay (dev s') = delay (dev s)"
proof -
  from assms(1) have ok: "dev_ok (dev s)" "mem_ok (heap s) (dev s)" by (simp_all add: gsys_ok_def)
  then have heap: "heap_ok (heap s)" by (simp add: mem_ok_def)
  show ?thesis
  proof (cases e)
    case (EvWrite ubuf len)
    then show ?thesis using assms(2)
      by (auto simp: gd_exec_def obind_eq_Done group_write_cases [OF ok(1) heap] write_accept_stored
          dest!: add_delayed_work_delay split: if_splits option.splits prod.splits)
  next
    case (EvRead ubuf len)
    then show ?thesis using assms(2) group_read_empty [OF ok(1)] group_read_ok [OF ok]
      by (cases "msgs (dev s) = []") (auto simp: gd_exec_def taken_def upd_msgs_def split: if_splits)
  next
    case (EvIoctl tid cmd arg)
    then show ?thesis using assms(2,3)
      by (cases cmd rule: ioctl_cases)
        (auto simp: gd_exec_def ioctl_results fflush_workqueue_ok [OF ok] upd_works_def)
  next
    case (EvTimer a)
    show ?thesis
    proof (cases "a \<in> work_addr ` set (armed (dev s))")
      case True
      then obtain w where "w \<in> set (works (dev s))" "a = work_addr w" using ok(1) by (auto simp: dev_ok_def)
      with timer_expires_ok [OF ok] EvTimer assms(2) show ?thesis
        by (auto simp: gd_exec_def upd_works_def)
    qed (use EvTimer assms(2) in \<open>auto simp: gd_exec_def timer_expires_stale\<close>)
  qed (use assms(2) in \<open>auto simp: gd_exec_def group_flush_def\<close>)
qed

lemma undelayed_no_Hold:
  assumes "gsys_ok s" and "gd_run env s es = Done (tr, t)" and "list_all (\<lambda>e. \<not> is_set_delay e) es"
    and "delay (dev s) = 0"
  shows "Hold m \<notin> set (gd_ops tr)"
  using assms
proof (induction es arbitrary: s tr)
  case (Cons e es)
  then obtain ob u tr' where step: "gd_exec env s e = Done (ob, u)"
    and run: "gd_run env u es = Done (tr', t)" and tr: "tr = (s, e, ob) # tr'"
    unfolding run_events_Cons_Done by blast
  from gd_exec_delay [OF Cons.prems(1) step] Cons.prems(3,4) have "delay (dev u) = 0" by simp
  with Cons.IH [OF gd_exec_inv [OF Cons.prems(1) step] run] Cons.prems(3)
  have "Hold m \<notin> set (gd_ops tr')" by simp
  with Cons.prems(4) show ?case
    by (auto simp: tr op_of_def split: event.splits answer.splits if_splits)
qed simp

end
