(* ===== verification/Group_Delivery.thy ===== *)
theory Group_Delivery
  imports Group_Machine
begin

text \<open>
  What reaches the readers of a group device: when the buffers of the readers are large
  enough, a read hands out the whole message that it takes off the device, so the laws of
  the mailbox hold of the bytes that readers see. Also here: how many messages a device can
  store, and that every delayed message has a timer.
\<close>

section \<open>Delivered messages\<close>

text \<open>The messages that successful reads returned to user space.\<close>

definition delivered :: "(gsys \<times> event \<times> answer) list \<Rightarrow> u8 list list" where
  "delivered tr = concat (map (\<lambda>(s, e, ob). case (e, ob) of
      (EvRead ubuf len, ARead r ubuf') \<Rightarrow> if 0 < r then [take (nat r) ubuf'] else []
    | _ \<Rightarrow> []) tr)"

text \<open>Writers send at most \<open>B\<close> bytes and readers offer room for \<open>B\<close> bytes.\<close>

fun fits :: "nat \<Rightarrow> event \<Rightarrow> bool" where
  "fits B (EvWrite ubuf len) = (len \<le> B)"
| "fits B (EvRead ubuf len) = (B \<le> len \<and> B \<le> length ubuf)"
| "fits B e = True"

definition sized :: "nat \<Rightarrow> u8 list mailbox \<Rightarrow> bool" where
  "sized B b \<longleftrightarrow> (\<forall>m \<in> set (avail b) \<union> set (held b). 0 < length m \<and> length m \<le> B)"

lemma sized_step:
  assumes "sized B b" and "\<forall>m \<in> set (op_in x). 0 < length m \<and> length m \<le> B"
  shows "sized B (mb_step b x)"
  using assms by (cases x; cases "avail b"; cases "held b") (auto simp: sized_def)

lemma msg_ok_length: "msg_ok m \<Longrightarrow> length (content m) = data_size m"
  by (auto simp: msg_ok_def content_def split: option.splits)

lemma write_op_sized:
  assumes "gsys_ok s" and "zero_size_ptr env" and "gd_exec env s (EvWrite ubuf len) = Done (ob, s')"
    and "len \<le> B"
  shows "\<forall>m \<in> set (op_in (op_of s (EvWrite ubuf len) ob)). 0 < length m \<and> length m \<le> B"
proof -
  from assms(3) obtain r h' d' where
    run: "group_write_dev env (params s) (heap s) (dev s) ubuf len = Done (r, h', d')" and ob: "ob = AInt r"
    by (auto simp: gd_exec_def obind_eq_Done)
  from assms(1) have ok: "dev_ok (dev s)" "heap_ok (heap s)" by (simp_all add: gsys_ok_def mem_ok_def)
  from ok assms(2) run show ?thesis
    using assms(4) by (cases rule: group_write_Done_cases) (auto simp: ob op_of_def write_len_def)
qed

lemma exec_sized:
  assumes "gsys_ok s" and "zero_size_ptr env" and "gd_exec env s e = Done (ob, s')"
    and "fits B e" and "sized B (gd_abs s)"
  shows "sized B (gd_abs s')"
proof -
  have "\<forall>m \<in> set (op_in (op_of s e ob)). 0 < length m \<and> length m \<le> B"
  proof (cases e)
    case (EvWrite ubuf len)
    with assms write_op_sized [of s env ubuf len ob s' B] show ?thesis by simp
  qed (auto simp: op_of_def split: if_splits)
  with assms(5) show ?thesis unfolding gd_exec_abs [OF assms(1-3)] by (rule sized_step)
qed

lemma read_delivers:
  assumes "gsys_ok s" and "gd_exec env s (EvRead ubuf len) = Done (ob, s')"
    and "sized B (gd_abs s)" and "B \<le> len" and "B \<le> length ubuf"
  shows "delivered [(s, EvRead ubuf len, ob)] = take 1 (avail (gd_abs s))"
proof (cases "msgs (dev s) = []")
  case True
  with assms(1,2) show ?thesis
    by (auto simp: gsys_ok_def gd_exec_def group_read_empty gd_abs_def delivered_def)
next
  case False
  let ?m = "last (msgs (dev s))"
  from assms(1) have ok: "dev_ok (dev s)" "mem_ok (heap s) (dev s)" by (simp_all add: gsys_ok_def)
  have sz: "length (content ?m) = data_size ?m" by (rule msg_ok_length [OF last_msg_facts(1) [OF ok False]])
  have av: "avail (gd_abs s) = content ?m # map content (rev (butlast (msgs (dev s))))"
    using False by (simp add: gd_abs_def map_content_last)
  with assms(3) have "0 < length (content ?m)" "length (content ?m) \<le> B" by (auto simp: sized_def)
  with assms(4,5) sz have "min len (data_size ?m) = data_size ?m" "data_size ?m \<le> length ubuf" "0 < data_size ?m"
    by simp_all
  with assms(2) group_read_ok [OF ok False, of ubuf len] sz have
    "ob = ARead (int (data_size ?m)) (content ?m @ drop (data_size ?m) ubuf)"
    by (auto simp: gd_exec_def)
  with av sz \<open>0 < data_size ?m\<close> show ?thesis by (simp add: delivered_def)
qed

lemma delivered_fetched:
  assumes "zero_size_ptr env" and "gsys_ok s" and "gd_run env s es = Done (tr, t)"
    and "list_all (fits B) es" and "sized B (gd_abs s)"
  shows "delivered tr = fetched tr"
  using assms
proof (induction es arbitrary: s tr)
  case Nil
  then show ?case by (simp add: delivered_def fetched_def)
next
  case (Cons e es)
  then obtain ob u tr' where step: "gd_exec env s e = Done (ob, u)"
    and run: "gd_run env u es = Done (tr', t)" and tr: "tr = (s, e, ob) # tr'"
    unfolding run_events_Cons_Done by blast
  from Cons.prems have fit: "fits B e" "list_all (fits B) es" by simp_all
  note IH = Cons.IH [OF Cons.prems(1) gd_exec_inv [OF Cons.prems(2) step] run fit(2)
      exec_sized [OF Cons.prems(2,1) step fit(1) Cons.prems(5)]]
  have "delivered [(s, e, ob)] = fetched [(s, e, ob)]"
  proof (cases e)
    case (EvRead ubuf len)
    with read_delivers [OF Cons.prems(2) step [unfolded EvRead] Cons.prems(5)] fit(1)
    show ?thesis by (simp add: fetched_def)
  qed (auto simp: delivered_def fetched_def)
  with IH show ?case by (simp add: tr delivered_def fetched_def)
qed

section \<open>Storage\<close>

fun is_params :: "event \<Rightarrow> bool" where
  "is_params (EvParams p) = True"
| "is_params e = False"

lemma length_abs:
  "gsys_ok s \<Longrightarrow> unat (messages_number (dev s)) = length (avail (gd_abs s)) + length (held (gd_abs s))"
  by (simp add: gsys_ok_def dev_ok_def gd_abs_def)

lemma exec_params: "gd_exec env s e = Done (ob, s') \<Longrightarrow> \<not> is_params e \<Longrightarrow> params s' = params s"
  by (cases e) (auto simp: gd_exec_def obind_eq_Done group_flush_def)

lemma exec_storage:
  assumes "gsys_ok s" and "zero_size_ptr env" and "gd_exec env s e = Done (ob, s')"
    and "messages_number (dev s) \<le> max_storage_size (params s)"
  shows "messages_number (dev s') \<le> max_storage_size (params s)"
proof -
  have le: ?thesis if "length (avail (gd_abs s')) + length (held (gd_abs s'))
      \<le> length (avail (gd_abs s)) + length (held (gd_abs s))"
    using that length_abs [OF assms(1)] length_abs [OF gd_exec_inv [OF assms(1,3)]] assms(4)
    by (simp add: word_le_nat_alt)
  note abs = gd_exec_abs [OF assms(1-3)]
  show ?thesis
  proof (cases "op_in (op_of s e ob) = []")
    case True
    then show ?thesis
      by (intro le, unfold abs, cases "op_of s e ob"; cases "held (gd_abs s)") auto
  next
    case False
    then obtain ubuf len r where e: "e = EvWrite ubuf len" and ob: "ob = AInt r" and r: "0 < r"
      by (auto simp: op_of_def split: event.splits answer.splits if_splits)
    with assms(3) obtain h' d' where
      run: "group_write_dev env (params s) (heap s) (dev s) ubuf len = Done (r, h', d')"
      by (auto simp: gd_exec_def obind_eq_Done)
    from assms(1) have ok: "dev_ok (dev s)" "heap_ok (heap s)" by (simp_all add: gsys_ok_def mem_ok_def)
    from ok assms(2) run have room: "messages_number (dev s) < max_storage_size (params s)"
      using r by (cases rule: group_write_Done_cases) auto
    have "length (avail (gd_abs s')) + length (held (gd_abs s'))
        = Suc (length (avail (gd_abs s)) + length (held (gd_abs s)))"
      using False by (unfold abs, cases "op_of s e ob") auto
    then show ?thesis
      using room length_abs [OF assms(1)] length_abs [OF gd_exec_inv [OF assms(1,3)]]
      by (simp add: word_le_nat_alt word_less_nat_alt)
  qed
qed

lemma run_storage:
  assumes "gsys_ok s" and "zero_size_ptr env" and "gd_run env s es = Done (tr, t)"
    and "list_all (\<lambda>e. \<not> is_params e) es" and "messages_number (dev s) \<le> max_storage_size (params s)"
  shows "params t = params s \<and> messages_number (dev t) \<le> max_storage_size (params s)"
  using assms
proof (induction es arbitrary: s tr)
  case (Cons e es)
  then obtain ob u tr' where step: "gd_exec env s e = Done (ob, u)"
    and run: "gd_run env u es = Done (tr', t)" and tr: "tr = (s, e, ob) # tr'"
    unfolding run_events_Cons_Done by blast
  from Cons.prems(4) exec_params [OF step] have prm: "params u = params s" by simp
  with Cons.IH [OF gd_exec_inv [OF Cons.prems(1) step] Cons.prems(2) run] Cons.prems(4)
    exec_storage [OF Cons.prems(1,2) step Cons.prems(5)]
  show ?case by simp
qed simp

section \<open>Timers\<close>

text \<open>The device has at least as many armed works as delayed messages.\<close>

definition covered :: "group_dev \<Rightarrow> bool" where
  "covered d \<longleftrightarrow> delay_wq d \<noteq> None \<and> length (pendings d) \<le> length (works d)"

lemma timers_publish:
  assumes "gsys_ok s" and "length (pendings (dev s)) \<le> length (works (dev s))"
    and "mset as = mset (map work_addr (works (dev s)))"
  shows "\<exists>tr t. gd_run env s (map EvTimer as) = Done (tr, t) \<and> works (dev t) = []
     \<and> gd_abs t = \<lparr>avail = avail (gd_abs s) @ held (gd_abs s), held = []\<rparr>"
  using assms
proof (induction as arbitrary: s)
  case Nil
  then show ?case by (simp add: gd_abs_def)
next
  case (Cons a as)
  from Cons.prems(1) have ok: "dev_ok (dev s)" "mem_ok (heap s) (dev s)" by (simp_all add: gsys_ok_def)
  from Cons.prems(3) have "a \<in> set_mset (mset (map work_addr (works (dev s))))"
    by (metis union_single_eq_member mset.simps(2))
  then obtain w where w: "w \<in> set (works (dev s))" and a: "a = work_addr w" by auto
  let ?ws = "list_del work_addr a (works (dev s))"
  let ?u = "s\<lparr>heap := (heap s)\<lparr>live := live (heap s) - {a}\<rparr>, dev := upd_works ?ws (publish (dev s))\<rparr>"
  have step: "gd_exec env s (EvTimer a) = Done (ANone, ?u)"
    using timer_expires_ok [OF ok w] by (simp add: gd_exec_def a)
  note inv = gd_exec_inv [OF Cons.prems(1) step]
  from ok(1) have nn: "delay_list (dev s) \<noteq> None" by (simp add: dev_ok_def)
  then have ws: "works (dev ?u) = ?ws" by (simp add: upd_works_def)
  have aw: "a \<in> work_addr ` set (works (dev s))" using w a by simp
  from ok(1) have arm: "armed (dev s) = works (dev s)" by (simp add: dev_ok_def)
  have abs: "gd_abs ?u = mb_step (gd_abs s) Release"
    using abs_timer [OF Cons.prems(1) step] aw arm by simp
  have "length (held (gd_abs ?u)) = length (held (gd_abs s)) - 1"
    unfolding abs by (cases "held (gd_abs s)") auto
  then have "length (pendings (dev ?u)) = length (pendings (dev s)) - 1" by (simp add: gd_abs_def)
  with Cons.prems(2) length_list_del [OF aw] have "length (pendings (dev ?u)) \<le> length (works (dev ?u))"
    unfolding ws by simp
  moreover have "mset as = mset (map work_addr (works (dev ?u)))"
    using Cons.prems(3) mset_map_list_del [OF aw] unfolding ws by (metis add_mset_add_mset_same_iff mset.simps(2))
  ultimately obtain tr t where run: "gd_run env ?u (map EvTimer as) = Done (tr, t)" and "works (dev t) = []"
    and "gd_abs t = \<lparr>avail = avail (gd_abs ?u) @ held (gd_abs ?u), held = []\<rparr>"
    using Cons.IH [OF inv] by blast
  moreover have "avail (gd_abs ?u) @ held (gd_abs ?u) = avail (gd_abs s) @ held (gd_abs s)"
    unfolding abs by (cases "held (gd_abs s)") auto
  ultimately show ?case using step by simp
qed

text \<open>An allocator that never fails gives every delayed message a work.\<close>

lemma pendings_simps [simp]:
  "pendings (upd_works ws d) = pendings d" "msgs (upd_works ws d) = msgs d"
  by (simp_all add: upd_works_def)

lemma works_upd_works [simp]: "delay_list d \<noteq> None \<Longrightarrow> works (upd_works ws d) = ws"
  by (simp add: upd_works_def)

lemma covered_stored:
  assumes "dev_ok d" and "covered d" and "msg_ok m" and "messages_number d < mx" and "\<forall>k. alloc_ok env k"
    and "write_accept env h d m = Done (ret, h', d')"
  shows "covered d'"
proof -
  note st = stored_inv [OF assms(1,3,4)]
  from assms(2) have wq: "delay_wq d \<noteq> None" by (simp add: covered_def)
  show ?thesis
  proof (cases "delay d = 0")
    case True
    with assms(6) have "d' = stored m d" by (simp add: write_accept_stored)
    with True assms(2) st(4) show ?thesis by (simp add: covered_def)
  next
    case False
    from st(1) have "delay_list (stored m d) \<noteq> None" by (simp add: dev_ok_def)
    with False assms(2,5,6) st(4) wq show ?thesis
      by (auto simp: write_accept_stored add_delayed_work_ok [OF st(1)] kmalloc_def covered_def upd_works_def)
  qed
qed

lemma exec_covered:
  assumes "gsys_ok s" and "covered (dev s)" and "\<forall>k. alloc_ok env k" and "gd_exec env s e = Done (ob, s')"
  shows "covered (dev s')"
proof -
  from assms(1) have ok: "dev_ok (dev s)" "mem_ok (heap s) (dev s)" by (simp_all add: gsys_ok_def)
  then have heap: "heap_ok (heap s)" by (simp add: mem_ok_def)
  from ok(1) have nn: "delay_list (dev s) \<noteq> None" "pending_list (dev s) \<noteq> None" by (simp_all add: dev_ok_def)
  show ?thesis
  proof (cases e)
    case (EvWrite ubuf len)
    let ?n = "write_len (params s) len"
    from EvWrite assms(4) obtain r h' d' where
      run: "group_write_dev env (params s) (heap s) (dev s) ubuf len = Done (r, h', d')" and s': "dev s' = d'"
      by (auto simp: gd_exec_def obind_eq_Done)
    from run [unfolded group_write_cases [OF ok(1) heap]] have "d' = dev s \<or>
      (\<exists>h2 msg dat. write_accept env h2 (dev s) (new_msg env msg dat ubuf ?n) = Done (r, h', d')
        \<and> messages_number (dev s) < max_storage_size (params s) \<and> ?n \<le> length ubuf \<and> ?n < usable_size env ?n)"
      by (auto split: if_splits option.splits prod.splits simp: not_le not_less)
    with covered_stored [OF ok(1) assms(2) msg_ok_new(1) _ assms(3)] assms(2) show ?thesis
      unfolding s' by blast
  next
    case (EvRead ubuf len)
    have "pendings (taken d) = pendings d" "works (taken d) = works d" "delay_wq (taken d) = delay_wq d" for d
      by (simp_all add: taken_def upd_msgs_def)
    with EvRead assms(2,4) group_read_empty [OF ok(1)] group_read_ok [OF ok] show ?thesis
      by (cases "msgs (dev s) = []") (auto simp: gd_exec_def covered_def split: if_splits)
  next
    case (EvIoctl tid cmd arg)
    have "covered (upd_works [] (splice_pending (dev s)))"
      using nn assms(2) by (simp add: covered_def upd_works_def splice_pending_def upd_pend_def upd_msgs_def)
    with EvIoctl assms(2,4) show ?thesis
      by (cases cmd rule: ioctl_cases)
        (auto simp: gd_exec_def ioctl_results fflush_workqueue_ok [OF ok] covered_def raw_set_delay_def
          set_barrier_def clear_barrier_def split: if_splits)
  next
    case (EvTimer a)
    show ?thesis
    proof (cases "a \<in> work_addr ` set (works (dev s))")
      case True
      then obtain w where w: "w \<in> set (works (dev s))" "a = work_addr w" by auto
      with EvTimer assms(4) timer_expires_ok [OF ok w(1)]
      have s': "dev s' = upd_works (list_del work_addr a (works (dev s))) (publish (dev s))"
        by (auto simp: gd_exec_def)
      have "length (pendings (publish (dev s))) = length (pendings (dev s)) - 1"
        using nn by (auto simp: publish_eq [OF ok(2)] upd_defs)
      moreover have "length (pendings (dev s)) - 1 \<le> length (list_del work_addr a (works (dev s)))"
        using assms(2) length_list_del [OF True] by (simp add: covered_def) linarith
      ultimately show ?thesis using nn assms(2)
        unfolding s' by (simp add: covered_def upd_works_def)
    next
      case False
      with ok(1) have "a \<notin> work_addr ` set (armed (dev s))" by (simp add: dev_ok_def)
      with EvTimer assms(2,4) show ?thesis by (auto simp: gd_exec_def timer_expires_stale)
    qed
  qed (use assms(2,4) in \<open>auto simp: gd_exec_def group_flush_def\<close>)
qed

interpretation gd_timers: event_system "gd_exec env"
  "\<lambda>s. (\<forall>k. alloc_ok env k) \<and> gsys_ok s \<and> covered (dev s)" for env :: "'x kernel_env_scheme"
  by unfold_locales (auto dest: gd_exec_inv exec_covered)

section \<open>Safety and memory\<close>

lemma group_write_outcome:
  assumes "dev_ok d" and "mem_ok h d"
  shows "(\<exists>r h' d'. group_write_dev env prm h d ubuf len = Done (r, h', d'))
     \<or> group_write_dev env prm h d ubuf len = Fault OutOfBounds
       \<and> usable_size env (write_len prm len) \<le> write_len prm len"
proof -
  let ?n = "write_len prm len"
  from assms(2) have heap: "heap_ok h" by (simp add: mem_ok_def)
  have "\<exists>h' d'. write_accept env h2 d (new_msg env msg dat ubuf ?n) = Done (int ?n, h', d')"
    if "?n \<le> length ubuf" "?n < usable_size env ?n" "messages_number d < max_storage_size prm" for h2 msg dat
    using write_accept_total [OF assms(1) msg_ok_new(1) [OF that(1,2)] that(3)] msg_ok_new(4) [OF that(1,2)]
    by metis
  then show ?thesis
    unfolding group_write_cases [OF assms(1) heap]
    by (auto split: option.splits prod.splits simp: not_le not_less) blast
qed

lemma gd_exec_outcome:
  assumes "gsys_ok s"
  shows "(\<exists>ob s'. gd_exec env s e = Done (ob, s')) \<or>
    (\<exists>ubuf len. e = EvWrite ubuf len \<and> gd_exec env s e = Fault OutOfBounds
      \<and> usable_size env (write_len (params s) len) \<le> write_len (params s) len)"
proof -
  from assms have ok: "dev_ok (dev s)" "mem_ok (heap s) (dev s)" by (simp_all add: gsys_ok_def)
  show ?thesis
  proof (cases e)
    case (EvWrite ubuf len)
    with group_write_outcome [OF ok, of env "params s" ubuf len] show ?thesis by (auto simp: gd_exec_def)
  next
    case (EvRead ubuf len)
    with group_read_total [OF ok, of ubuf len] show ?thesis by (auto simp: gd_exec_def)
  next
    case (EvIoctl tid cmd arg)
    with group_ioctl_total [OF ok, of env tid cmd arg] show ?thesis by (auto simp: gd_exec_def)
  next
    case (EvTimer a)
    with timer_expires_total [OF ok, of a] show ?thesis by (auto simp: gd_exec_def)
  qed (auto simp: gd_exec_def group_flush_def)
qed

text \<open>The message size limit is positive, and stays so.\<close>

fun sane_params :: "event \<Rightarrow> bool" where
  "sane_params (EvParams p) = (0 < max_message_size p)"
| "sane_params e = True"

lemma write_len_pos: "0 < max_message_size p \<Longrightarrow> len \<noteq> 0 \<Longrightarrow> 0 < write_len p len"
  by (simp add: write_len_def word_less_nat_alt)

lemma write_zero_refused: "group_write_dev env prm h d ubuf 0 = Done (-1, h, d)"
  by (simp add: group_write_dev_def)

lemma gd_run_total:
  assumes "gsys_ok s" and "\<forall>n. 0 < n \<longrightarrow> n < usable_size env n"
    and "0 < max_message_size (params s)" and "list_all sane_params es"
  shows "\<exists>tr t. gd_run env s es = Done (tr, t)"
  using assms
proof (induction es arbitrary: s)
  case (Cons e es)
  have "\<exists>ob u. gd_exec env s e = Done (ob, u)"
  proof (cases "\<exists>ubuf. e = EvWrite ubuf 0")
    case True
    then show ?thesis by (auto simp: gd_exec_def write_zero_refused)
  next
    case False
    then show ?thesis
      using gd_exec_outcome [OF Cons.prems(1), of env e] Cons.prems(2,3) write_len_pos
      by (metis not_le)
  qed
  then obtain ob u where step: "gd_exec env s e = Done (ob, u)" by blast
  have "0 < max_message_size (params u)"
  proof (cases "is_params e")
    case True
    with Cons.prems(4) step show ?thesis by (cases e) (auto simp: gd_exec_def)
  next
    case False
    with exec_params [OF step] Cons.prems(3) show ?thesis by simp
  qed
  with Cons.IH [OF gd_exec_inv [OF Cons.prems(1) step] Cons.prems(2)] Cons.prems(4) step
  show ?case by auto
qed simp

text \<open>A read that could not copy its message out.\<close>

fun read_faulted :: "answer \<Rightarrow> bool" where
  "read_faulted (ARead r ubuf) = (r < 0)"
| "read_faulted ob = False"

definition unowned :: "gsys \<Rightarrow> addr set" where
  "unowned s = live (heap s) - set (owned (dev s))"

lemma exec_no_leak:
  assumes "gsys_ok s" and "gd_exec env s e = Done (ob, s')" and "\<not> read_faulted ob"
  shows "unowned s' = unowned s"
proof -
  from assms(1) have ok: "dev_ok (dev s)" "mem_ok (heap s) (dev s)" by (simp_all add: gsys_ok_def)
  have eq: ?thesis if "no_leak (heap s) (dev s) (heap s') (dev s')"
    using that by (simp add: no_leak_def unowned_def)
  show ?thesis
  proof (cases e)
    case (EvWrite ubuf len)
    with assms(2) show ?thesis
      by (intro eq) (auto simp: gd_exec_def obind_eq_Done dest: group_write_inv [OF ok])
  next
    case (EvRead ubuf len)
    with assms(2,3) show ?thesis
      by (intro eq) (auto simp: gd_exec_def obind_eq_Done dest: group_read_inv [OF ok])
  next
    case (EvIoctl tid cmd arg)
    with assms(2) show ?thesis
      by (intro eq) (auto simp: gd_exec_def obind_eq_Done dest: group_ioctl_inv [OF ok])
  next
    case (EvTimer a)
    with assms(2) show ?thesis
      by (intro eq) (auto simp: gd_exec_def obind_eq_Done dest: timer_expires_inv [OF ok])
  qed (use assms(2) in \<open>auto simp: gd_exec_def group_flush_def unowned_def\<close>)
qed

lemma run_no_leak:
  assumes "gsys_ok s" and "gd_run env s es = Done (tr, t)" and "list_all (\<lambda>(u, e, ob). \<not> read_faulted ob) tr"
  shows "unowned t = unowned s"
  using assms
proof (induction es arbitrary: s tr)
  case (Cons e es)
  then obtain ob u tr' where step: "gd_exec env s e = Done (ob, u)"
    and run: "gd_run env u es = Done (tr', t)" and tr: "tr = (s, e, ob) # tr'"
    unfolding run_events_Cons_Done by blast
  with Cons.IH [OF gd_exec_inv [OF Cons.prems(1) step] run] exec_no_leak [OF Cons.prems(1) step]
    Cons.prems(3) show ?case by simp
qed simp

section \<open>A write and a read\<close>

text \<open>An undelayed write for which the kernel has memory.\<close>

lemma write_plain:
  assumes "dev_ok d" and "mem_ok h d" and "len \<noteq> 0" and "\<forall>k. alloc_ok env k" and "delay d = 0"
    and "messages_number d < max_storage_size prm" and "write_len prm len \<le> length ubuf"
    and "write_len prm len < usable_size env (write_len prm len)"
  shows "\<exists>h' d'. group_write_dev env prm h d ubuf len = Done (int (write_len prm len), h', d')"
proof -
  from assms(2) have heap: "heap_ok h" by (simp add: mem_ok_def)
  from assms(6) have room: "\<not> max_storage_size prm \<le> messages_number d" by (simp add: linorder_not_le)
  from assms(3,4,7,8) write_accept_total [OF assms(1) msg_ok_new(1) [OF assms(7,8)] assms(6)]
    msg_ok_new(4) [OF assms(7,8)]
  show ?thesis by (simp add: group_write_cases [OF assms(1) heap] kmalloc_def room linorder_not_le)
qed

text \<open>What was written is read back, and the device is as before.\<close>

lemma write_then_read:
  assumes "dev_ok d" and "mem_ok h d" and "msgs d = []" and "delay d = 0"
    and "group_write_dev env prm h d ubuf len = Done (r, h', d')" and "0 < r"
    and "nat r \<le> len'" and "nat r \<le> length buf"
  shows "\<exists>h''. group_read_dev h' d' buf len' = Done (r, take (nat r) ubuf @ drop (nat r) buf, h'', d)
    \<and> live h'' = live h"
proof -
  from assms(2) have heap: "heap_ok h" by (simp add: mem_ok_def)
  let ?n = "write_len prm len"
  from assms(5) [unfolded group_write_cases [OF assms(1) heap]] assms(4,6)
  obtain msg dat h1 h2 where k1: "kmalloc env h = (Some dat, h1)" and k2: "kmalloc env h1 = (Some msg, h2)"
    and room: "messages_number d < max_storage_size prm" and ub: "?n \<le> length ubuf"
    and slack: "?n < usable_size env ?n"
    and acc: "write_accept env h2 d (new_msg env msg dat ubuf ?n) = Done (r, h', d')"
    by (auto split: if_splits option.splits prod.splits simp: not_le not_less)
  let ?m = "new_msg env msg dat ubuf ?n"
  note m = msg_ok_new [OF ub slack, of msg dat]
  note st = stored_inv [OF assms(1) m(1) room]
  from acc assms(4) m(4) have d': "d' = stored ?m d" and h': "h' = h2" and r: "r = int ?n"
    by (simp_all add: write_accept_stored)
  from group_write_inv [OF assms(1,2,5)] have ok: "dev_ok d'" "mem_ok h' d'" by simp_all
  have ms: "msgs d' = [?m]" unfolding d' st(3) using assms(3,4) by simp
  from assms(7,8) r have fit: "min len' ?n = ?n" "?n \<le> length buf" by simp_all
  from kmalloc_Some [OF k1 heap] have f1: "dat \<notin> live h" "live h1 = insert dat (live h)" "heap_ok h1" by simp_all
  from kmalloc_Some [OF k2 f1(3)] have f2: "msg \<notin> live h1" "live h2 = insert msg (live h1)" by simp_all
  have live: "live h' - set (msg_owned ?m) = live h" using f1(1,2) f2 h' m(3) by auto
  have "taken d' = d"
    using assms(3,4) by (auto simp: taken_def d' stored_def upd_msgs_def Let_def set_pointee_def pointee_def
        split: option.splits)
  with group_read_ok [OF ok, of buf len'] ms fit live m(2,4) r show ?thesis by simp
qed

section \<open>Frame\<close>

text \<open>
  What other devices rely on: an event keeps the identity of its device and touches no object
  that the device does not own.
\<close>

lemma exec_unowned_mono:
  assumes "gsys_ok s" and "gd_exec env s e = Done (ob, s')"
  shows "unowned s \<subseteq> unowned s'"
proof (cases "read_faulted ob")
  case False
  with exec_no_leak [OF assms] show ?thesis by simp
next
  case True
  from assms(1) have ok: "dev_ok (dev s)" "mem_ok (heap s) (dev s)" by (simp_all add: gsys_ok_def)
  from True assms(2) obtain ubuf len where e: "e = EvRead ubuf len"
    by (cases e) (auto simp: gd_exec_def obind_eq_Done group_flush_def)
  have ne: "msgs (dev s) \<noteq> []"
    using True assms(2) group_read_empty [OF ok(1)] by (auto simp: e gd_exec_def)
  have sub: "set (owned (taken (dev s))) \<subseteq> set (owned (dev s))"
    using last_msg_facts(4) [OF ok ne] by (metis mset_subset_eqD mset_subset_eq_add_left set_mset_mset subsetI)
  have "heap s' = heap s" "dev s' = taken (dev s)"
    using True assms(2) group_read_ok [OF ok ne, of ubuf len] by (auto simp: e gd_exec_def split: if_splits)
  with sub show ?thesis by (auto simp: unowned_def)
qed

definition identity :: "group_dev \<Rightarrow> u8 \<times> addr \<times> bool" where
  "identity d = (minor d, dev_addr d, delay_wq d = None)"

lemma identity_upd [simp]:
  "identity (upd_works ws d) = identity d" "identity (publish d) = identity d"
  "identity (splice_pending d) = identity d" "identity (taken d) = identity d" "identity (stored m d) = identity d"
  "identity (set_barrier d) = identity d" "identity (clear_barrier d) = identity d"
  "identity (d\<lparr>wait_queue := q\<rparr>) = identity d" "identity (raw_set_delay env d ms) = identity d"
  by (simp_all add: identity_def upd_works_def taken_def upd_msgs_def set_barrier_def clear_barrier_def raw_set_delay_def)

lemma exec_identity:
  assumes "gsys_ok s" and "gd_exec env s e = Done (ob, s')"
  shows "identity (dev s') = identity (dev s)"
proof -
  from assms(1) have ok: "dev_ok (dev s)" "mem_ok (heap s) (dev s)" by (simp_all add: gsys_ok_def)
  then have heap: "heap_ok (heap s)" by (simp add: mem_ok_def)
  show ?thesis
  proof (cases e)
    case (EvWrite ubuf len)
    have "identity d'' = identity d'" if "add_delayed_work env h d' = Done (h'', d'')" for h d' h'' d''
      using that by (auto simp: add_delayed_work_def obind_eq_Done Let_def identity_def split: option.splits prod.splits)
    with EvWrite assms(2) show ?thesis
      by (auto simp: gd_exec_def obind_eq_Done group_write_cases [OF ok(1) heap] write_accept_stored
          split: if_splits option.splits prod.splits)
  next
    case (EvRead ubuf len)
    then show ?thesis using assms(2) group_read_empty [OF ok(1)] group_read_ok [OF ok]
      by (cases "msgs (dev s) = []") (auto simp: gd_exec_def split: if_splits)
  next
    case (EvIoctl tid cmd arg)
    then show ?thesis using assms(2)
      by (cases cmd rule: ioctl_cases)
        (auto simp: gd_exec_def ioctl_results fflush_workqueue_ok [OF ok] split: if_splits)
  next
    case (EvTimer a)
    show ?thesis
    proof (cases "a \<in> work_addr ` set (armed (dev s))")
      case True
      then obtain w where "w \<in> set (works (dev s))" "a = work_addr w" using ok(1) by (auto simp: dev_ok_def)
      with timer_expires_ok [OF ok] EvTimer assms(2) show ?thesis by (auto simp: gd_exec_def)
    qed (use EvTimer assms(2) in \<open>auto simp: gd_exec_def timer_expires_stale\<close>)
  qed (use assms(2) in \<open>auto simp: gd_exec_def group_flush_def\<close>)
qed

end
