(* ===== verification/Example_Device.thy ===== *)
theory Example_Device
  imports Group_Machine
begin

text \<open>
  A concrete kernel and a freshly installed group device in it, on which the theorems about
  devices are applied. The kernel serves a request from the smallest \<open>kmalloc\<close> cache
  that is large enough, as \<open>mm/slab_common.c\<close> documents, and runs at 1000 jiffies a
  second.
\<close>

definition kmalloc_caches :: "nat list" where
  "kmalloc_caches = [8, 16, 32, 64, 96, 128, 192, 256, 512, 1024, 2048, 4096, 8192]"

definition slab_size :: "nat \<Rightarrow> nat" where
  "slab_size n = (if n = 0 then 0 else case find (\<lambda>c. n \<le> c) kmalloc_caches of
      Some c \<Rightarrow> c
    | None \<Rightarrow> (n + 4095) div 4096 * 4096)"

definition ex_env :: kernel_env where
  "ex_env = \<lparr>alloc_ok = (\<lambda>_. True), usable_size = slab_size, msecs_to_jiffies = ucast,
     jiffies_to_msecs = ucast, workqueue_ok = (\<lambda>_. True)\<rparr>"

text \<open>The same kernel when every allocation after the first \<open>k\<close> fails.\<close>

definition poor_env :: "nat \<Rightarrow> kernel_env" where
  "poor_env k = ex_env\<lparr>alloc_ok := (\<lambda>i. i < k)\<rparr>"

definition ex_dev :: group_dev where
  "ex_dev = \<lparr>dev_addr = 1, minor = 7, flags = 0, messages_number = 0,
     message_sem = Some (3, 1), message_list = Some (2, []), delay = 0,
     wq_sem = Some (6, 1), delay_wq = Some [], delay_list = Some (7, []),
     pending_sem = Some (5, 1), pending_list = Some (4, []), wait_queue = []\<rparr>"

definition ex_heap :: kheap where
  "ex_heap = \<lparr>brk = 8, live = {1, 2, 3, 4, 5, 6, 7}\<rparr>"

definition ex_params :: module_params where
  "ex_params = \<lparr>max_message_size = 32, max_storage_size = 64\<rparr>"

definition ex_sys :: gsys where
  "ex_sys = \<lparr>heap = ex_heap, dev = ex_dev, params = ex_params\<rparr>"

definition ex_delay :: "nat \<Rightarrow> event" where
  "ex_delay ms = EvIoctl 1 IOCTL_SET_SEND_DELAY (word_of_nat ms)"

definition ex_revoke :: event where
  "ex_revoke = EvIoctl 1 IOCTL_REVOKE_DELAYED_MESSAGES 0"

fun is_Done :: "'a outcome \<Rightarrow> bool" where
  "is_Done (Done x) = True"
| "is_Done _ = False"

lemma is_Done_iff: "is_Done r \<longleftrightarrow> (\<exists>x. r = Done x)"
  by (cases r) auto

definition holds_after :: "('x) kernel_env_scheme \<Rightarrow> gsys \<Rightarrow> event list \<Rightarrow>
    ((gsys \<times> event \<times> answer) list \<Rightarrow> gsys \<Rightarrow> bool) \<Rightarrow> bool" where
  "holds_after env s es P = (case gd_run env s es of Done (tr, t) \<Rightarrow> P tr t | _ \<Rightarrow> False)"

lemma holds_after_Done: "gd_run env s es = Done (tr, t) \<Longrightarrow> P tr t \<Longrightarrow> holds_after env s es P"
  by (simp add: holds_after_def)

lemmas ex_defs = ex_sys_def ex_dev_def ex_heap_def ex_params_def ex_env_def

lemma zero_size_ex [simp]: "zero_size_ptr ex_env"
  by (simp add: zero_size_ptr_def ex_env_def slab_size_def)

lemma ex_dev_ok [simp]: "dev_ok ex_dev"
  by (simp add: dev_ok_def sem_free_def armed_def ex_dev_def is_flushing_def FLUSHING_BIT_def c_check_bit_eq)

lemma ex_mem_ok [simp]: "mem_ok ex_heap ex_dev"
  by (simp add: mem_ok_def heap_ok_def owned_def ex_heap_def ex_dev_def)

lemma ex_sys_ok [simp]: "gsys_ok ex_sys"
  by (simp add: gsys_ok_def ex_sys_def)

lemma holds_afterI:
  assumes "is_Done (gd_run env s es)" and "\<And>tr t. gd_run env s es = Done (tr, t) \<Longrightarrow> P tr t"
  shows "holds_after env s es P"
  using assms by (auto simp: is_Done_iff holds_after_def)

text \<open>
  A run that uses everything: undelayed and delayed writes, an expired timer, a write that
  is cut short by \<open>max_message_size\<close>, reads, a flush of the work queue.
\<close>

definition ex_events :: "event list" where
  "ex_events = [EvWrite [1, 2, 3] 3, ex_delay 10, EvWrite [4, 5] 2, EvWrite [6] 1,
     EvRead [0, 0, 0, 0] 4, EvFlush, EvTimer 12, EvRead [0, 0, 0, 0] 4, ex_revoke]"

lemma ex_run: "is_Done (gd_run ex_env ex_sys ex_events)"
  by code_simp

end
