(* ===== verification/Group_Properties.thy ===== *)
theory Group_Properties
  imports Group_Delivery Example_Device
begin

text \<open>
  The theorems about one group device, each followed by its application to the concrete
  device of \<open>Example_Device\<close>.
\<close>

section \<open>Messages\<close>

text \<open>C1: Exactly-once delivery. Start from an empty device and run any sequence of writes, reads,
  ioctls, closes and timer expirations. If readers offer room for what writers send, the messages
  handed to readers together with the messages still stored (published or delayed) are, as a
  multiset, exactly the messages accepted by write: none is lost, none is duplicated, none is
  altered.\<close>

theorem delivery_exactly_once:
  assumes "zero_size_ptr env" and "gsys_ok s" and "msgs (dev s) = []" and "pendings (dev s) = []"
    and "gd_run env s es = Done (tr, t)" and "list_all (fits B) es"
  shows "mset (delivered tr) + mset (avail (gd_abs t)) + mset (held (gd_abs t)) = mset (accepted tr)"
proof -
  have empty: "avail (gd_abs s) = []" "held (gd_abs s) = []" using assms(3,4) by (simp_all add: gd_abs_def)
  then have "sized B (gd_abs s)" by (simp add: sized_def)
  from delivered_fetched [OF assms(1,2,5,6) this]
  have "delivered tr = mb_out (gd_abs s) (gd_ops tr)" using observed_ops [OF assms(1,2,5)] by simp
  with gd_mbox.run_conservation [OF conjI [OF assms(1,2)] assms(5)] empty show ?thesis
    by (simp add: accepted_ops)
qed

theorem delivery_exactly_once_witness:
  "holds_after ex_env ex_sys ex_events
     (\<lambda>tr t. mset (delivered tr) + mset (avail (gd_abs t)) + mset (held (gd_abs t)) = mset (accepted tr))"
proof (rule holds_afterI [OF ex_run])
  fix tr t assume run: "gd_run ex_env ex_sys ex_events = Done (tr, t)"
  have "msgs (dev ex_sys) = []" "pendings (dev ex_sys) = []" by (simp_all add: ex_defs)
  moreover have "list_all (fits 4) ex_events" by (simp add: ex_events_def ex_delay_def ex_revoke_def)
  ultimately show "mset (delivered tr) + mset (avail (gd_abs t)) + mset (held (gd_abs t)) = mset (accepted tr)"
    using delivery_exactly_once [OF zero_size_ex ex_sys_ok _ _ run] by blast
qed

text \<open>C2: FIFO order. On an empty device without a delay, and while no delay is set, the messages
  handed to readers followed by the messages still stored are the accepted messages in the order
  in which they were written.\<close>

theorem delivery_fifo:
  assumes "zero_size_ptr env" and "gsys_ok s" and "msgs (dev s) = []" and "pendings (dev s) = []"
    and "gd_run env s es = Done (tr, t)" and "list_all (fits B) es"
    and "delay (dev s) = 0" and "list_all (\<lambda>e. \<not> is_set_delay e) es"
  shows "delivered tr @ avail (gd_abs t) = accepted tr"
proof -
  have empty: "avail (gd_abs s) = []" "held (gd_abs s) = []" using assms(3,4) by (simp_all add: gd_abs_def)
  then have "sized B (gd_abs s)" by (simp add: sized_def)
  from delivered_fetched [OF assms(1,2,5,6) this]
  have "delivered tr = mb_out (gd_abs s) (gd_ops tr)" using observed_ops [OF assms(1,2,5)] by simp
  moreover have "gd_abs t = mb_run (gd_abs s) (gd_ops tr)"
    by (rule gd_mbox.run_refines [OF conjI [OF assms(1,2)] assms(5)])
  ultimately show ?thesis
    using mb_fifo_undelayed [OF empty(2) undelayed_no_Hold [OF assms(2,5,8,7)]] empty
    by (simp add: accepted_ops)
qed

definition ex_plain_events :: "event list" where
  "ex_plain_events = [EvWrite [1, 2] 2, EvWrite [3] 1, EvRead [0, 0] 2, EvWrite [4] 1]"

lemma ex_plain_run: "is_Done (gd_run ex_env ex_sys ex_plain_events)"
  by code_simp

theorem delivery_fifo_witness:
  "holds_after ex_env ex_sys ex_plain_events (\<lambda>tr t. delivered tr @ avail (gd_abs t) = accepted tr)"
proof (rule holds_afterI [OF ex_plain_run])
  fix tr t assume run: "gd_run ex_env ex_sys ex_plain_events = Done (tr, t)"
  have "msgs (dev ex_sys) = []" "pendings (dev ex_sys) = []" "delay (dev ex_sys) = 0"
    by (simp_all add: ex_defs)
  moreover have "list_all (fits 2) ex_plain_events" "list_all (\<lambda>e. \<not> is_set_delay e) ex_plain_events"
    by (simp_all add: ex_plain_events_def)
  ultimately show "delivered tr @ avail (gd_abs t) = accepted tr"
    using delivery_fifo [OF zero_size_ex ex_sys_ok _ _ run] by blast
qed

text \<open>Refinement. In every run of a group device the device behaves as a mailbox with a queue of
  available and a queue of delayed messages: the state it ends in is the one the mailbox reaches
  by the operations the events stand for.\<close>

theorem device_refines_mailbox:
  assumes "zero_size_ptr env" and "gsys_ok s" and "gd_run env s es = Done (tr, t)"
  shows "gd_abs t = mb_run (gd_abs s) (gd_ops tr)"
  by (rule gd_mbox.run_refines [OF conjI [OF assms(1,2)] assms(3)])

theorem device_refines_mailbox_witness:
  "holds_after ex_env ex_sys ex_events (\<lambda>tr t. gd_abs t = mb_run (gd_abs ex_sys) (gd_ops tr))"
  by (rule holds_afterI [OF ex_run], rule device_refines_mailbox [OF zero_size_ex ex_sys_ok])

definition ex_timer_events :: "event list" where
  "ex_timer_events = [EvWrite [1] 1, ex_delay 10, EvWrite [2] 1, ex_delay 0, EvWrite [3] 1,
     EvTimer 12, EvRead [0] 1, EvRead [0] 1]"

lemma ex_timer_run: "is_Done (gd_run ex_env ex_sys ex_timer_events)"
  by code_simp

lemma ex_delay_revoke [simp]: "is_revoke (ex_delay k) = False" "is_set_delay (ex_delay k)"
  using ioctl_distinct by (simp_all add: ex_delay_def)



text \<open>C21: Liveness of delayed messages. If allocations succeed, then after any run the outstanding
  timers, expiring in any order, publish every delayed message in write order behind the messages
  already available, and no work is left over.\<close>

theorem timers_publish_all:
  assumes "\<forall>k. alloc_ok env k" and "gsys_ok s" and "covered (dev s)" and "gd_run env s es = Done (tr, t)"
    and "mset as = mset (map work_addr (works (dev t)))"
  shows "\<exists>tr' u. gd_run env t (map EvTimer as) = Done (tr', u) \<and> works (dev u) = []
     \<and> avail (gd_abs u) = avail (gd_abs t) @ held (gd_abs t) \<and> held (gd_abs u) = []"
proof -
  have "gsys_ok t" "covered (dev t)"
    using gd_timers.run_inv [of env, OF _ assms(4)] assms(1-3) by blast+
  with timers_publish [OF _ _ assms(5), of env] show ?thesis by (fastforce simp: covered_def)
qed

definition ex_late_events :: "event list" where
  "ex_late_events = [ex_delay 10, EvWrite [1] 1, EvWrite [2] 1]"

lemma ex_late_run:
  "holds_after ex_env ex_sys ex_late_events
     (\<lambda>tr t. map work_addr (works (dev t)) = [13, 10] \<and> gd_abs t = \<lparr>avail = [], held = [[1], [2]]\<rparr>)"
  by code_simp

theorem timers_publish_all_witness:
  "holds_after ex_env ex_sys ex_late_events
     (\<lambda>tr t. \<exists>tr' u. gd_run ex_env t (map EvTimer [10, 13]) = Done (tr', u)
        \<and> works (dev u) = [] \<and> avail (gd_abs u) = [[1], [2]] \<and> held (gd_abs u) = [])"
proof -
  from ex_late_run obtain tr t where run: "gd_run ex_env ex_sys ex_late_events = Done (tr, t)"
    and t: "map work_addr (works (dev t)) = [13, 10]" "gd_abs t = \<lparr>avail = [], held = [[1], [2]]\<rparr>"
    by (auto simp: holds_after_def split: outcome.splits prod.splits)
  have "\<forall>k. alloc_ok ex_env k" by (simp add: ex_env_def)
  moreover have "covered (dev ex_sys)" by (simp add: covered_def ex_defs)
  moreover have "mset [10, 13] = mset (map work_addr (works (dev t)))" unfolding t(1) by simp
  ultimately show ?thesis
    using timers_publish_all [OF _ ex_sys_ok _ run, of "[10, 13]"] t(2)
    by (intro holds_after_Done [OF run]) simp
qed

section \<open>Safety and memory\<close>

text \<open>C23: The only way an event on a well-formed device can go wrong is the terminator that
  group_write stores behind the message: it is out of bounds exactly when the write got that far
  (its allocations succeeded, there is room, the user buffer is readable) and the allocator
  reserved no byte beyond the message. No event ever blocks.\<close>

theorem write_overrun_iff:
  assumes "gsys_ok s" and "\<forall>k. alloc_ok env k"
  shows "gd_exec env s e \<noteq> Block \<and>
    (gd_exec env s e = Fault f \<longleftrightarrow> f = OutOfBounds \<and>
      (\<exists>ubuf len. e = EvWrite ubuf len \<and> len \<noteq> 0 \<and> messages_number (dev s) < max_storage_size (params s)
        \<and> write_len (params s) len \<le> length ubuf
        \<and> usable_size env (write_len (params s) len) \<le> write_len (params s) len))"
proof -
  from assms(1) have ok: "dev_ok (dev s)" "heap_ok (heap s)" by (simp_all add: gsys_ok_def mem_ok_def)
  have "gd_exec env s (EvWrite ubuf len) = Fault OutOfBounds \<longleftrightarrow> len \<noteq> 0
      \<and> messages_number (dev s) < max_storage_size (params s)
      \<and> write_len (params s) len \<le> length ubuf
      \<and> usable_size env (write_len (params s) len) \<le> write_len (params s) len" (is "?fault \<longleftrightarrow> ?hyps")
    for ubuf len
  proof
    assume ?hyps
    then show ?fault using assms(2)
      by (simp add: gd_exec_def group_write_cases [OF ok] kmalloc_def linorder_not_le)
  next
    assume ?fault
    then have "group_write_dev env (params s) (heap s) (dev s) ubuf len = Fault OutOfBounds"
      by (auto simp: gd_exec_def obind_eq_Fault)
    then show ?hyps
      by (auto simp: group_write_cases [OF ok] not_le not_less write_accept_no_fault [OF ok(1) msg_ok_new(1)]
          split: if_splits option.splits prod.splits)
  qed
  with gd_exec_outcome [OF assms(1), of env e] show ?thesis by auto
qed

text \<open>The default parameters with the \<open>kmalloc\<close> caches of a real kernel: any message of 32 bytes or more.\<close>

theorem write_overrun_iff_witness:
  "gd_exec ex_env ex_sys (EvWrite (replicate 40 65) 40) = Fault OutOfBounds"
proof -
  have "\<forall>k. alloc_ok ex_env k" by (simp add: ex_env_def)
  from write_overrun_iff [OF ex_sys_ok this, of "EvWrite (replicate 40 65) 40" OutOfBounds]
  show ?thesis by (simp add: ex_defs write_len_def slab_size_def kmalloc_caches_def)
qed

text \<open>C17: Invariant. Every run keeps a device well formed: its semaphores are free, nothing it needs
  is NULL, it owns distinct live objects, each stored message is zero terminated inside its
  buffer, the armed works are the works on delay_list, and the counter messages_number is the
  number of published plus the number of delayed messages.\<close>

theorem device_invariant:
  assumes "gsys_ok s" and "gd_run env s es = Done (tr, t)"
  shows "gsys_ok t \<and> list_all (\<lambda>(u, e, ob). gsys_ok u) tr
    \<and> unat (messages_number (dev t)) = length (avail (gd_abs t)) + length (held (gd_abs t))"
proof -
  have "gsys_ok t" by (rule gd_sys.run_inv [OF assms])
  moreover have "list_all (\<lambda>(u, e, ob). gsys_ok u) tr"
    using gd_sys.trace_inv [OF assms] by (auto simp: list_all_iff)
  ultimately show ?thesis by (simp add: length_abs)
qed

theorem device_invariant_witness:
  "holds_after ex_env ex_sys ex_events (\<lambda>tr t. gsys_ok t \<and> list_all (\<lambda>(u, e, ob). gsys_ok u) tr
    \<and> unat (messages_number (dev t)) = length (avail (gd_abs t)) + length (held (gd_abs t)))"
  by (rule holds_afterI [OF ex_run], rule device_invariant [OF ex_sys_ok])

text \<open>C18: Storage bound. While the parameters are not changed, a device never stores more than
  max_storage_size messages, published and delayed ones together, and the counter never
  wraps.\<close>

theorem storage_bounded:
  assumes "zero_size_ptr env" and "gsys_ok s" and "gd_run env s es = Done (tr, t)"
    and "list_all (\<lambda>e. \<not> is_params e) es" and "messages_number (dev s) \<le> max_storage_size (params s)"
  shows "length (msgs (dev t)) + length (pendings (dev t)) \<le> unat (max_storage_size (params s))"
  using run_storage [OF assms(2,1,3,4,5)] length_abs [OF gd_sys.run_inv [OF assms(2,3)]]
  by (simp add: gd_abs_def word_le_nat_alt)

theorem storage_bounded_witness:
  "holds_after ex_env ex_sys ex_events
     (\<lambda>tr t. length (msgs (dev t)) + length (pendings (dev t)) \<le> 64)"
proof (rule holds_afterI [OF ex_run])
  fix tr t assume run: "gd_run ex_env ex_sys ex_events = Done (tr, t)"
  have "list_all (\<lambda>e. \<not> is_params e) ex_events" by (simp add: ex_events_def ex_delay_def ex_revoke_def)
  from storage_bounded [OF zero_size_ex ex_sys_ok run this]
  show "length (msgs (dev t)) + length (pendings (dev t)) \<le> 64" by (simp add: ex_defs)
qed

text \<open>Memory. Unless a read fails to copy its message out, a run leaks nothing and frees nothing
  that is not the device's own: the live objects the device does not own are the same before and
  after.\<close>

theorem device_no_leak:
  assumes "gsys_ok s" and "gd_run env s es = Done (tr, t)"
    and "list_all (\<lambda>(u, e, ob). \<not> read_faulted ob) tr"
  shows "live (heap t) - set (owned (dev t)) = live (heap s) - set (owned (dev s))"
  using run_no_leak [OF assms] by (simp add: unowned_def)

lemma ex_run_reads:
  "holds_after ex_env ex_sys ex_events (\<lambda>tr t. list_all (\<lambda>(u, e, ob). \<not> read_faulted ob) tr)"
  by code_simp

theorem device_no_leak_witness:
  "holds_after ex_env ex_sys ex_events (\<lambda>tr t. live (heap t) - set (owned (dev t)) = {})"
proof -
  from ex_run_reads obtain tr t where run: "gd_run ex_env ex_sys ex_events = Done (tr, t)"
    and reads: "list_all (\<lambda>(u, e, ob). \<not> read_faulted ob) tr"
    by (auto simp: holds_after_def split: outcome.splits prod.splits)
  from device_no_leak [OF ex_sys_ok run reads]
  have "live (heap t) - set (owned (dev t)) = {}" by (simp add: ex_defs owned_def)
  with run show ?thesis by (rule holds_after_Done)
qed

text \<open>A read whose copy to user space fails returns -1, and the message is gone all the same: it
  is off the list and uncounted, no later read can get it, and its two objects stay allocated
  without an owner.\<close>

theorem read_fault_loses_message:
  assumes "dev_ok d" and "mem_ok h d" and "msgs d \<noteq> []"
    and "length ubuf < min len (data_size (last (msgs d)))"
  shows "\<exists>ubuf' d'. group_read_dev h d ubuf len = Done (-1, ubuf', h, d')
    \<and> msgs d' = butlast (msgs d) \<and> messages_number d' = messages_number d - 1
    \<and> live h - set (owned d') = (live h - set (owned d)) \<union> set (msg_owned (last (msgs d)))
    \<and> set (msg_owned (last (msgs d))) \<inter> set (owned d') = {}"
proof -
  let ?m = "last (msgs d)"
  have res: "group_read_dev h d ubuf len = Done (-1, take (length ubuf) (content ?m), h, taken d)"
    using group_read_ok [OF assms(1-3), of ubuf len] assms(4) by (simp add: min_le_iff_disj not_le)
  from assms(1) have ml: "message_list d \<noteq> None" by (simp add: dev_ok_def)
  note lm = last_msg_facts [OF assms(1-3)]
  from lm(4) have mset: "mset (owned d) = mset (owned (taken d) @ msg_owned ?m)" by simp
  have sets: "set (owned d) = set (owned (taken d)) \<union> set (msg_owned ?m)"
    using mset_eq_setD [OF mset] by simp
  have "distinct (owned (taken d) @ msg_owned ?m)"
    using mset_eq_imp_distinct_iff [OF mset] assms(2) by (simp add: mem_ok_def)
  then have disj: "set (msg_owned ?m) \<inter> set (owned (taken d)) = {}" by auto
  have leak: "live h - set (owned (taken d)) = (live h - set (owned d)) \<union> set (msg_owned ?m)"
    using sets lm(3) disj by blast
  have "msgs (taken d) = butlast (msgs d)" "messages_number (taken d) = messages_number d - 1"
    using ml by (simp_all add: taken_def upd_msgs_def)
  with res leak disj show ?thesis by (intro exI conjI)
qed

definition ex_full_dev :: group_dev where
  "ex_full_dev = ex_dev\<lparr>messages_number := 1,
     message_list := Some (2, [\<lparr>msg_addr = 9, data_size = 2, data = Some (8, [5, 6, 0, 0])\<rparr>])\<rparr>"

definition ex_full_heap :: kheap where
  "ex_full_heap = \<lparr>brk = 10, live = {1, 2, 3, 4, 5, 6, 7, 8, 9}\<rparr>"

lemma ex_full_ok [simp]: "dev_ok ex_full_dev" "mem_ok ex_full_heap ex_full_dev"
  using ex_dev_ok
  by (auto simp: ex_full_dev_def ex_full_heap_def dev_ok_def mem_ok_def heap_ok_def owned_def msg_owned_def
      ex_dev_def msg_ok_def armed_def is_flushing_def)

theorem read_fault_loses_message_witness:
  "\<exists>ubuf' d'. group_read_dev ex_full_heap ex_full_dev [0] 2 = Done (-1, ubuf', ex_full_heap, d')
    \<and> msgs d' = [] \<and> live ex_full_heap - set (owned d') = {8, 9}"
proof -
  have "msgs ex_full_dev \<noteq> []" "length [0::u8] < min 2 (data_size (last (msgs ex_full_dev)))"
    by (simp_all add: ex_full_dev_def)
  from read_fault_loses_message [OF ex_full_ok this] obtain ubuf' d' where
    "group_read_dev ex_full_heap ex_full_dev [0] 2 = Done (-1, ubuf', ex_full_heap, d')"
    and "msgs d' = butlast (msgs ex_full_dev)"
    and "live ex_full_heap - set (owned d') = (live ex_full_heap - set (owned ex_full_dev))
      \<union> set (msg_owned (last (msgs ex_full_dev)))"
    by blast
  moreover have "(live ex_full_heap - set (owned ex_full_dev)) \<union> set (msg_owned (last (msgs ex_full_dev))) = {8, 9}"
    by (simp add: ex_full_dev_def ex_full_heap_def ex_dev_def owned_def msg_owned_def) blast
  moreover have "butlast (msgs ex_full_dev) = []" by (simp add: ex_full_dev_def)
  ultimately show ?thesis by auto
qed

end
