(* ===== verification/Answers.thy ===== *)
theory Answers
  imports Group_Delivery
begin

text \<open>
  The answers a group device may give to an event: a write and a read return -1 or at most the
  length asked for, a read keeps the size of the user buffer and the bytes behind those it
  wrote, a command returns 0 or -1 or puts its caller to sleep.
\<close>

fun answer_ok :: "event \<Rightarrow> answer \<Rightarrow> bool" where
  "answer_ok (EvWrite ubuf len) (AInt r) \<longleftrightarrow> -1 \<le> r \<and> r \<le> int len"
| "answer_ok (EvRead ubuf len) (ARead r ubuf') \<longleftrightarrow> -1 \<le> r \<and> r \<le> int len
     \<and> length ubuf' = length ubuf \<and> (0 \<le> r \<longrightarrow> drop (nat r) ubuf' = drop (nat r) ubuf)"
| "answer_ok (EvIoctl tid cmd arg) (ASys Sleeps) \<longleftrightarrow> cmd = IOCTL_SLEEP_ON_BARRIER"
| "answer_ok (EvIoctl tid cmd arg) (ASys (Returns r)) \<longleftrightarrow> r = 0 \<or> r = -1"
| "answer_ok EvFlush (AInt r) \<longleftrightarrow> r = 0"
| "answer_ok (EvTimer a) ANone \<longleftrightarrow> True"
| "answer_ok (EvParams p) ANone \<longleftrightarrow> True"
| "answer_ok _ _ \<longleftrightarrow> False"

lemma write_answer:
  assumes "dev_ok d" and "heap_ok h" and "group_write_dev env prm h d ubuf len = Done (r, h', d')"
  shows "-1 \<le> r \<and> r \<le> int len"
proof -
  have "write_len prm len \<le> len" by (simp add: write_len_def)
  with assms(3) show ?thesis
    by (auto simp: group_write_cases [OF assms(1,2)] write_accept_stored new_msg_def obind_eq_Done
        split: if_splits option.splits prod.splits)
qed

lemma read_answer:
  assumes "dev_ok d" and "mem_ok h d" and "group_read_dev h d ubuf len = Done (r, ubuf', h', d')"
  shows "answer_ok (EvRead ubuf len) (ARead r ubuf')"
proof (cases "msgs d = []")
  case True
  with assms show ?thesis by (simp add: group_read_empty)
next
  case False
  have "length (content (last (msgs d))) = data_size (last (msgs d))"
    by (rule msg_ok_length [OF last_msg_facts(1) [OF assms(1,2) False]])
  with assms(3) show ?thesis
    by (auto simp: group_read_ok [OF assms(1,2) False] min_def split: if_splits)
qed

lemma exec_answer:
  assumes "gsys_ok s" and "gd_exec env s e = Done (ob, s')"
  shows "answer_ok e ob"
proof -
  from assms(1) have ok: "dev_ok (dev s)" "mem_ok (heap s) (dev s)" "heap_ok (heap s)"
    by (simp_all add: gsys_ok_def mem_ok_def)
  show ?thesis
  proof (cases e)
    case (EvWrite ubuf len)
    with assms(2) show ?thesis
      by (auto simp: gd_exec_def obind_eq_Done dest: write_answer [OF ok(1,3)])
  next
    case (EvRead ubuf len)
    with assms(2) read_answer [OF ok(1,2)] show ?thesis
      by (auto simp: gd_exec_def obind_eq_Done simp del: answer_ok.simps)
  next
    case (EvIoctl tid cmd arg)
    with assms(2) show ?thesis
      by (cases cmd rule: ioctl_cases)
        (auto simp: gd_exec_def ioctl_results fflush_workqueue_ok [OF ok(1,2)] split: if_splits)
  qed (use assms(2) in \<open>auto simp: gd_exec_def group_flush_def obind_eq_Done\<close>)
qed

lemma run_answers:
  assumes "gsys_ok s" and "gd_run env s es = Done (tr, t)"
  shows "list_all (\<lambda>(u, e, ob). answer_ok e ob) tr"
  using assms
proof (induction es arbitrary: s tr)
  case (Cons e es)
  then obtain ob u tr' where step: "gd_exec env s e = Done (ob, u)" and run: "gd_run env u es = Done (tr', t)"
    and tr: "tr = (s, e, ob) # tr'"
    unfolding run_events_Cons_Done by blast
  from Cons.IH [OF gd_sys.exec_inv [OF Cons.prems(1) step] run] exec_answer [OF Cons.prems(1) step]
  show ?case by (simp add: tr)
qed simp

end
