(* ===== verification/Group_Op_Properties.thy ===== *)
theory Group_Op_Properties
  imports Answers Example_Device
begin

text \<open>
  The theorems about single operations of a group device: what a write stores, what a read
  returns, what the ioctl commands do, and the places where an operation does something else
  than its documentation says.
\<close>

section \<open>Answers\<close>

text \<open>C29: Answers have the type the system calls document. In every run of a device, writes and reads
  return -1 or a number of bytes up to the length asked for, a read keeps the size of the user
  buffer and the bytes behind those it reports, ioctl commands return 0 or -1, and only SLEEP puts
  its caller to sleep.\<close>

theorem answers_typed:
  assumes "gsys_ok s" and "gd_run env s es = Done (tr, t)"
  shows "list_all (\<lambda>(u, e, ob). answer_ok e ob) tr"
  by (rule run_answers [OF assms])

theorem answers_typed_witness:
  "holds_after ex_env ex_sys ex_events (\<lambda>tr t. list_all (\<lambda>(u, e, ob). answer_ok e ob) tr)"
  using ex_run by (rule holds_afterI) (rule answers_typed [OF ex_sys_ok])

section \<open>Write and read\<close>

text \<open>A write is refused, with the device and the set of live objects unchanged, when its length
  is 0 (result -1), when an allocation fails (-1), when the device is full (0) and when the user
  buffer is not readable (-1).\<close>

theorem write_refused:
  assumes "dev_ok d" and "heap_ok h"
    and "len = 0 \<or> \<not> alloc_ok env (brk h) \<or> \<not> alloc_ok env (Suc (brk h))
       \<or> max_storage_size prm \<le> messages_number d \<or> length ubuf < write_len prm len"
  shows "\<exists>h'. live h' = live h \<and> group_write_dev env prm h d ubuf len =
     Done (if len \<noteq> 0 \<and> alloc_ok env (brk h) \<and> alloc_ok env (Suc (brk h))
             \<and> max_storage_size prm \<le> messages_number d then 0 else -1, h', d)"
  using assms(3) by (auto simp: group_write_cases [OF assms(1,2)] kmalloc_def)

theorem write_refused_witness:
  "\<exists>h'. live h' = live ex_heap \<and>
     group_write_dev ex_env \<lparr>max_message_size = 32, max_storage_size = 0\<rparr> ex_heap ex_dev [1, 2] 2 = Done (0, h', ex_dev)"
proof -
  have "heap_ok ex_heap" using ex_mem_ok by (simp add: mem_ok_def)
  from write_refused [OF ex_dev_ok this, of 2 ex_env "\<lparr>max_message_size = 32, max_storage_size = 0\<rparr>" "[1, 2]"]
  show ?thesis by (simp add: ex_env_def)
qed

text \<open>An accepted write stores the first \<open>min(length, max_message_size)\<close> bytes as one message
  and returns their number. Without a delay the message becomes the last available one; with a
  delay it becomes the last delayed one and, if memory allows, a work is queued for it that
  belongs to this device and carries the current delay. The counter goes up by one.\<close>

theorem write_accepted:
  assumes "dev_ok d" and "mem_ok h d" and "len \<noteq> 0" and "alloc_ok env (brk h)" and "alloc_ok env (Suc (brk h))"
    and "messages_number d < max_storage_size prm" and "write_len prm len \<le> length ubuf"
    and "write_len prm len < usable_size env (write_len prm len)"
  shows "\<exists>h' d'. group_write_dev env prm h d ubuf len = Done (int (min len (unat (max_message_size prm))), h', d')
    \<and> messages_number d' = messages_number d + 1
    \<and> map content (msgs d') = (if delay d = 0 then [take (write_len prm len) ubuf] else []) @ map content (msgs d)
    \<and> map content (pendings d') = (if delay d = 0 then [] else [take (write_len prm len) ubuf]) @ map content (pendings d)
    \<and> works d' = (if delay d \<noteq> 0 \<and> delay_wq d \<noteq> None \<and> alloc_ok env (brk h + 2)
        then [\<lparr>work_addr = brk h + 2, work_dev = dev_addr d, work_delay = delay d\<rparr>] else []) @ works d"
proof -
  let ?n = "write_len prm len"
  let ?m = "new_msg env (Suc (brk h)) (brk h) ubuf ?n"
  let ?h = "h\<lparr>brk := brk h + 2, live := insert (Suc (brk h)) (insert (brk h) (live h))\<rparr>"
  from assms(2) have heap: "heap_ok h" by (simp add: mem_ok_def)
  from assms(6) have room: "\<not> max_storage_size prm \<le> messages_number d" by (simp add: linorder_not_le)
  from assms(3-5,7,8) have run: "group_write_dev env prm h d ubuf len = write_accept env ?h d ?m"
    by (simp add: group_write_cases [OF assms(1) heap] kmalloc_def room)
  note m = msg_ok_new [OF assms(7,8), of "Suc (brk h)" "brk h"]
  note st = stored_inv [OF assms(1) m(1) assms(6)]
  from st(1) have dl: "delay_list (stored ?m d) \<noteq> None" by (simp add: dev_ok_def)
  have acc: "\<exists>h' d'. write_accept env ?h d ?m = Done (int ?n, h', d')
      \<and> messages_number d' = messages_number d + 1
      \<and> msgs d' = msgs (stored ?m d) \<and> pendings d' = pendings (stored ?m d)
      \<and> works d' = (if delay d \<noteq> 0 \<and> delay_wq d \<noteq> None \<and> alloc_ok env (brk h + 2)
        then [\<lparr>work_addr = brk h + 2, work_dev = dev_addr d, work_delay = delay d\<rparr>] else []) @ works d"
    using dl by (auto simp: write_accept_stored m(4) add_delayed_work_ok [OF st(1)] kmalloc_def upd_works_def)
  then show ?thesis unfolding run st(3,4) write_len_def [symmetric] by (auto simp: m(2))
qed

theorem write_accepted_witness:
  "\<exists>h' d'. group_write_dev ex_env ex_params ex_heap (ex_dev\<lparr>delay := 5\<rparr>) [1, 2, 3] 3 = Done (3, h', d')
    \<and> messages_number d' = 1 \<and> msgs d' = [] \<and> map content (pendings d') = [[1, 2, 3]]
    \<and> works d' = [\<lparr>work_addr = 10, work_dev = 1, work_delay = 5\<rparr>]"
proof -
  have ok: "dev_ok (ex_dev\<lparr>delay := 5\<rparr>)" "mem_ok ex_heap (ex_dev\<lparr>delay := 5\<rparr>)"
    using ex_dev_ok ex_mem_ok by (simp_all add: mem_ok_def)
  from write_accepted [OF this, of 3 ex_env ex_params "[1, 2, 3]"] show ?thesis
    by (simp add: ex_defs write_len_def slab_size_def kmalloc_caches_def)
qed

text \<open>Reading. On an empty device a read returns 0 and changes nothing. Otherwise it takes the
  oldest published message, copies as much of it as asked for into the user buffer, whose other
  bytes it leaves alone, returns the number of bytes, frees the message and counts it off; a
  message longer than the buffer is cut, and its rest is dropped.\<close>

theorem read_oldest:
  assumes "dev_ok d" and "mem_ok h d" and "msgs d = [] \<or> min len (data_size (last (msgs d))) \<le> length ubuf"
  shows "if msgs d = [] then group_read_dev h d ubuf len = Done (0, ubuf, h, d)
    else \<exists>d' n. n = min len (length (content (last (msgs d))))
      \<and> group_read_dev h d ubuf len = Done (int n, take n (content (last (msgs d))) @ drop n ubuf,
            h\<lparr>live := live h - set (msg_owned (last (msgs d)))\<rparr>, d')
      \<and> msgs d' = butlast (msgs d) \<and> pendings d' = pendings d
      \<and> messages_number d' = messages_number d - 1"
proof (cases "msgs d = []")
  case True
  with group_read_empty [OF assms(1)] show ?thesis by simp
next
  case False
  from assms(1) have "message_list d \<noteq> None" by (simp add: dev_ok_def)
  then have "msgs (taken d) = butlast (msgs d)" "pendings (taken d) = pendings d"
    "messages_number (taken d) = messages_number d - 1"
    by (simp_all add: taken_def upd_msgs_def)
  with False assms(3) msg_ok_length [OF last_msg_facts(1) [OF assms(1,2) False]]
    group_read_ok [OF assms(1,2) False, of ubuf len] show ?thesis by simp
qed

theorem read_oldest_witness:
  "group_read_dev ex_heap ex_dev [9, 9] 2 = Done (0, [9, 9], ex_heap, ex_dev)"
  using read_oldest [OF ex_dev_ok ex_mem_ok, of 2 "[9, 9]"] by (simp add: ex_dev_def)

text \<open>Round trip. Whatever an undelayed write accepts on a device without published messages,
  the next read with a large enough buffer returns, byte for byte; afterwards the device is in
  the state it was in before the write and the heap has the same live objects.\<close>

theorem write_read_roundtrip:
  assumes "dev_ok d" and "mem_ok h d" and "msgs d = []" and "delay d = 0"
    and "group_write_dev env prm h d ubuf len = Done (r, h', d')" and "0 < r"
    and "nat r \<le> len'" and "nat r \<le> length buf"
  shows "\<exists>h''. group_read_dev h' d' buf len' = Done (r, take (nat r) ubuf @ drop (nat r) buf, h'', d)
    \<and> live h'' = live h"
  by (rule write_then_read [OF assms])

theorem write_read_roundtrip_witness:
  "\<exists>h' d' h''. group_write_dev ex_env ex_params ex_heap ex_dev [7, 8, 9] 3 = Done (3, h', d')
     \<and> group_read_dev h' d' [0, 0, 0, 0] 4 = Done (3, [7, 8, 9, 0], h'', ex_dev) \<and> live h'' = live ex_heap"
proof -
  have "case group_write_dev ex_env ex_params ex_heap ex_dev [7, 8, 9] 3 of Done (r, _, _) \<Rightarrow> r = 3 | _ \<Rightarrow> False"
    by code_simp
  then obtain h' d' where run: "group_write_dev ex_env ex_params ex_heap ex_dev [7, 8, 9] 3 = Done (3, h', d')"
    by (auto split: outcome.splits)
  moreover have "msgs ex_dev = []" "delay ex_dev = 0" by (simp_all add: ex_dev_def)
  ultimately show ?thesis
    using write_read_roundtrip [OF ex_dev_ok ex_mem_ok _ _ run, of 4 "[0, 0, 0, 0]"] by simp
qed

section \<open>Delays\<close>

text \<open>C28: Revoking. The command succeeds; all delayed messages become available, in front of the
  messages that were available already and in the order in which they were written; no work is
  left, every work object is freed, and nothing else is.\<close>

theorem revoke_publishes:
  assumes "dev_ok d" and "mem_ok h d"
  shows "\<exists>h' d'. group_ioctl_dev env h d tid IOCTL_REVOKE_DELAYED_MESSAGES arg = Done (Returns 0, h', d')
    \<and> pendings d' = [] \<and> rev (msgs d') = rev (pendings d) @ rev (msgs d)
    \<and> works d' = [] \<and> armed d' = [] \<and> live h' = live h - work_addr ` set (works d)
    \<and> messages_number d' = messages_number d \<and> delay d' = delay d \<and> is_flushing d' = 0"
proof -
  let ?d' = "upd_works [] (splice_pending d)"
  from assms(1) have nn: "message_list d \<noteq> None" "pending_list d \<noteq> None" "delay_list d \<noteq> None"
    and fl: "is_flushing d = 0" by (simp_all add: dev_ok_def)
  have "msgs ?d' = msgs d @ pendings d" "pendings ?d' = []" "works ?d' = []" "armed ?d' = []"
    "messages_number ?d' = messages_number d" "delay ?d' = delay d" "is_flushing ?d' = 0"
    using nn fl by (simp_all add: splice_pending_def upd_defs armed_def is_flushing_def split: option.splits)
  with ioctl_revoke [of env h d tid arg] fflush_workqueue_ok [OF assms] show ?thesis by simp
qed

definition ex_late_dev :: group_dev where
  "ex_late_dev = ex_dev\<lparr>messages_number := 1, delay := 5,
     pending_list := Some (4, [\<lparr>msg_addr = 9, data_size = 2, data = Some (8, [5, 6, 0, 0])\<rparr>]),
     delay_list := Some (7, [\<lparr>work_addr = 10, work_dev = 1, work_delay = 5\<rparr>]),
     delay_wq := Some [\<lparr>work_addr = 10, work_dev = 1, work_delay = 5\<rparr>]\<rparr>"

definition ex_late_heap :: kheap where
  "ex_late_heap = \<lparr>brk = 11, live = {1, 2, 3, 4, 5, 6, 7, 8, 9, 10}\<rparr>"

lemma ex_late_ok [simp]: "dev_ok ex_late_dev" "mem_ok ex_late_heap ex_late_dev"
  using ex_dev_ok
  by (auto simp: ex_late_dev_def ex_late_heap_def dev_ok_def mem_ok_def heap_ok_def owned_def msg_owned_def
      ex_dev_def msg_ok_def armed_def is_flushing_def)

theorem revoke_publishes_witness:
  "\<exists>h' d'. group_ioctl_dev ex_env ex_late_heap ex_late_dev 1 IOCTL_REVOKE_DELAYED_MESSAGES 0 = Done (Returns 0, h', d')
    \<and> map content (msgs d') = [[5, 6]] \<and> pendings d' = [] \<and> 10 \<notin> live h'"
proof -
  from revoke_publishes [OF ex_late_ok, of ex_env 1 0] obtain h' d' where
    run: "group_ioctl_dev ex_env ex_late_heap ex_late_dev 1 IOCTL_REVOKE_DELAYED_MESSAGES 0 = Done (Returns 0, h', d')"
    and pl: "pendings d' = []" and ms: "rev (msgs d') = rev (pendings ex_late_dev) @ rev (msgs ex_late_dev)"
    and lv: "live h' = live ex_late_heap - work_addr ` set (works ex_late_dev)" by (elim exE conjE)
  from ms have "msgs d' = pendings ex_late_dev" by (simp add: ex_late_dev_def ex_dev_def)
  then have cs: "map content (msgs d') = [[5, 6]]" by (simp add: ex_late_dev_def content_def)
  have "10 \<notin> live h'" unfolding lv by (simp add: ex_late_dev_def)
  with run pl cs show ?thesis by (intro exI conjI)
qed

text \<open>Revoking breaks the FIFO order. Message 1 is published first, message 2 is written later
  with a delay and then revoked; a reader gets message 2 before message 1, although the comment
  in _fflush_workqueue and the FIFO policy ask for the opposite.\<close>

theorem revoke_reorders:
  "holds_after ex_env ex_sys
     [EvWrite [1] 1, ex_delay 10, EvWrite [2] 1, ex_revoke, EvRead [0] 1, EvRead [0] 1]
     (\<lambda>tr t. accepted tr = [[1], [2]] \<and> delivered tr = [[2], [1]])"
  by code_simp

text \<open>A delayed write whose work cannot be allocated still reports success, but no timer will
  ever publish its message: it stays delayed with no work for it.\<close>

lemma delayed_without_work:
  "holds_after (poor_env 10) ex_sys [ex_delay 10, EvWrite [2] 1]
     (\<lambda>tr t. accepted tr = [[2]] \<and> held (gd_abs t) = [[2]] \<and> armed (dev t) = [])"
  by code_simp

text \<open>Setting the delay. A negative argument is refused and changes nothing; any other argument
  succeeds and sets the delay of the device to the jiffies of the argument modulo \<open>2 ^ 32\<close>,
  because the upper half is cut off on the way to msecs_to_jiffies; in particular a multiple of
  \<open>2 ^ 32\<close> milliseconds counts as 0. Nothing else of the device changes.\<close>

theorem set_delay_truncates:
  "group_ioctl_dev env h d tid IOCTL_SET_SEND_DELAY arg =
     (if sint arg < 0 then Done (Returns (-1), h, d)
      else Done (Returns 0, h, d\<lparr>delay := msecs_to_jiffies env (word_of_int (uint arg mod 2 ^ 32))\<rparr>))"
proof -
  have "ucast arg = (word_of_int (take_bit 32 (uint arg)) :: u32)"
    by (rule bit_word_eqI) (simp add: bit_simps)
  then have "ucast arg = (word_of_int (uint arg mod 2 ^ 32) :: u32)" unfolding take_bit_eq_mod .
  then show ?thesis by (simp add: ioctl_set_delay raw_set_delay_def)
qed

section \<open>Barrier\<close>

text \<open>The barrier commands. SLEEP raises the barrier and always puts the calling thread into
  the wait queue. AWAKE always succeeds, lowers the barrier and lets the whole queue go, also when
  the barrier is down or nobody sleeps. Neither command touches the flushing flag, which shares a
  byte with the barrier flag, nor any other part of the device.\<close>

lemma barrier_commands:
  "group_ioctl_dev env h d tid IOCTL_SLEEP_ON_BARRIER arg
     = Done (Sleeps, h, d\<lparr>flags := c_set_bit (flags d) BARRIER_BIT, wait_queue := wait_queue d @ [tid]\<rparr>)
   \<and> (\<exists>d'. group_ioctl_dev env h d tid IOCTL_AWAKE_BARRIER arg = Done (Returns 0, h, d')
        \<and> wait_queue d' = [] \<and> is_barrier_up d' = 0 \<and> is_flushing d' = is_flushing d
        \<and> d'\<lparr>flags := flags d, wait_queue := wait_queue d\<rparr> = d)"
proof -
  let ?d' = "(if is_barrier_up d = 0 then d else clear_barrier d)\<lparr>wait_queue := []\<rparr>"
  have "is_barrier_up ?d' = 0" by (simp add: barrier.test_lower)
  moreover have "is_flushing ?d' = is_flushing d"
    using barrier.other_lower [of d] by (simp add: is_flushing_def)
  moreover have "?d'\<lparr>flags := flags d, wait_queue := wait_queue d\<rparr> = d" by (simp add: clear_barrier_def)
  ultimately show ?thesis by (auto simp: ioctl_sleep ioctl_awake set_barrier_def)
qed

end
