(* ===== verification/Format.thy ===== *)
theory Format
  imports TSM_Prelude
begin

text \<open>
  The little of \<open>sprintf\<close> that the program uses: one \<open>%d\<close> in a fixed format string, filled
  with an \<open>int\<close>; and the names of the group devices in the kernel and under
  \<open>/dev/synch\<close>.
\<close>

section \<open>Decimal numbers\<close>

definition digit :: "nat \<Rightarrow> char" where
  "digit n = char_of (48 + n)"

fun dec :: "nat \<Rightarrow> string" where
  "dec n = (if n < 10 then [digit n] else dec (n div 10) @ [digit (n mod 10)])"

declare dec.simps [simp del]

definition dec_int :: "int \<Rightarrow> string" where
  "dec_int i = (if i < 0 then CHR ''-'' # dec (nat (- i)) else dec (nat i))"

text \<open>The value of a digit string, the inverse of printing.\<close>

definition undigit :: "char \<Rightarrow> nat" where
  "undigit c = of_char c - 48"

definition undec :: "string \<Rightarrow> nat" where
  "undec cs = foldl (\<lambda>n c. 10 * n + undigit c) 0 cs"

fun sprintf_d :: "string \<Rightarrow> int \<Rightarrow> string" where
  "sprintf_d [] i = []"
| "sprintf_d [c] i = [c]"
| "sprintf_d (c # c' # cs) i =
     (if c = CHR ''%'' \<and> c' = CHR ''d'' then dec_int i @ cs else c # sprintf_d (c' # cs) i)"

section \<open>Device names\<close>

definition GROUP_FORMAT :: string where
  "GROUP_FORMAT = ''group_dev%d''"

definition GROUP_FORMAT_LENGTH :: nat where
  "GROUP_FORMAT_LENGTH = length GROUP_FORMAT + 3"

definition GROUP_DEV :: string where
  "GROUP_DEV = ''/dev/synch/group_dev%d''"

definition GROUP_DEV_LENGTH :: nat where
  "GROUP_DEV_LENGTH = length GROUP_DEV + 3"

section \<open>Facts\<close>

lemma undigit_digit: "n < 10 \<Longrightarrow> undigit (digit n) = n"
  by (simp add: undigit_def digit_def)

lemma undec_snoc: "undec (cs @ [c]) = 10 * undec cs + undigit c"
  by (simp add: undec_def)

lemma undec_dec: "undec (dec n) = n"
proof (induction n rule: dec.induct)
  case (1 n)
  show ?case
  proof (cases "n < 10")
    case True
    then show ?thesis by (simp add: dec.simps undec_def undigit_digit)
  next
    case False
    with 1 have "undec (dec (n div 10)) = n div 10" by simp
    with False show ?thesis
      by (subst dec.simps) (simp add: undec_snoc undigit_digit)
  qed
qed

lemma dec_inject: "dec m = dec n \<longleftrightarrow> m = n"
  using undec_dec by metis

lemma length_dec_bound: "n < 10 ^ k \<Longrightarrow> 0 < k \<Longrightarrow> length (dec n) \<le> k"
proof (induction n arbitrary: k rule: dec.induct)
  case (1 n)
  show ?case
  proof (cases "n < 10")
    case True
    with 1 show ?thesis by (simp add: dec.simps)
  next
    case False
    with 1 obtain j where k: "k = Suc j" and "j \<noteq> 0" by (cases k; cases "k = 1") auto
    with 1 False have "n div 10 < 10 ^ j" by (simp add: less_mult_imp_div_less)
    with 1 False \<open>j \<noteq> 0\<close> have "length (dec (n div 10)) \<le> j" by simp
    with False k show ?thesis by (subst dec.simps) simp
  qed
qed

lemma sprintf_group_format: "sprintf_d GROUP_FORMAT i = ''group_dev'' @ dec_int i"
  by (simp add: GROUP_FORMAT_def)

lemma sprintf_group_dev: "sprintf_d GROUP_DEV i = ''/dev/synch/group_dev'' @ dec_int i"
  by (simp add: GROUP_DEV_def)

lemma length_dec_u8: "length (dec_int (uint (b :: u8))) \<le> 3"
proof -
  have "unat b < 2 ^ 8" using unsigned_less [of b] by simp
  then show ?thesis using length_dec_bound [of "nat (uint b)" 3] by (simp add: dec_int_def)
qed

lemma dec_int_u8_inject: "dec_int (uint (a :: u8)) = dec_int (uint b) \<longleftrightarrow> a = b"
  by (simp add: dec_int_def dec_inject unsigned_word_eqI word_unat_eq_iff)

lemma group_name_fits: "length (sprintf_d GROUP_FORMAT (uint (b :: u8))) + 1 \<le> GROUP_FORMAT_LENGTH"
  using length_dec_u8 [of b] by (simp add: sprintf_group_format) (simp add: GROUP_FORMAT_LENGTH_def GROUP_FORMAT_def)

lemma group_dev_name_fits: "length (sprintf_d GROUP_DEV (uint (b :: u8))) + 1 \<le> GROUP_DEV_LENGTH"
  using length_dec_u8 [of b] by (simp add: sprintf_group_dev) (simp add: GROUP_DEV_LENGTH_def GROUP_DEV_def)

end
