(* ===== verification/Group_Manager.thy ===== *)
theory Group_Manager
  imports Group_Fops Format
begin

text \<open>
  The registry of group devices (\<open>group_dev_manager.c\<close>): its creation, lookup, the
  installation of a device with its clean-up on failure, and the destruction of one and of
  all devices.
\<close>

section \<open>Data\<close>

record group_devices =
  used :: u16
  major :: u32
  group_devs_list :: "group_dev list ptr"

text \<open>
  What the kernel decides during an installation: the result of \<open>alloc_chrdev_region\<close>
  with the major number it wrote (or the garbage it left there), and what an automatic
  variable contains before its first assignment. The allocation requests so far serve as a
  clock.
\<close>

record mgr_env = kernel_env +
  chrdev_region :: "nat \<Rightarrow> int \<times> u32"
  stack_garbage :: "nat \<Rightarrow> int"

text \<open>
  The globals of the manager, the heap, and the kernel objects that are not on the heap:
  the device nodes, the character device regions and the work queues.
\<close>

record mgr =
  mheap :: kheap
  group_devs :: "group_devices ptr"
  group_dev_class :: bool              \<comment> \<open>was the class created?\<close>
  nodes :: "(u32 \<times> u8) list"
  regions :: "u32 list"
  queues :: "addr list"                \<comment> \<open>work queues, by the device they were created for\<close>

definition GROUP_DEV_COUNT :: nat where
  "GROUP_DEV_COUNT = 256"

text \<open>\<open>group_devs->...\<close>: the global may be NULL, and it may point to freed memory.\<close>

definition deref_devs :: "mgr \<Rightarrow> group_devices outcome" where
  "deref_devs m = (case group_devs m of
      None \<Rightarrow> Fault NullDeref
    | Some (a, g) \<Rightarrow> if a \<in> live (mheap m) then Done g else Fault UseAfterFree)"

definition set_devs :: "group_devices \<Rightarrow> mgr \<Rightarrow> mgr" where
  "set_devs g m = m\<lparr>group_devs := map_option (apsnd (\<lambda>_. g)) (group_devs m)\<rparr>"

section \<open>Creation and lookup\<close>

definition init_group_devs :: "('x) mgr_env_scheme \<Rightarrow> mgr \<Rightarrow> (int \<times> mgr) outcome" where
  "init_group_devs env m =
     (case kmalloc env (mheap m) of
        (None, h) \<Rightarrow> Done (-1, m\<lparr>mheap := h, group_devs := None\<rparr>)
      | (Some a, h) \<Rightarrow>
          let g = \<lparr>used = 0, major = 0, group_devs_list = None\<rparr> in
          (case kmalloc env h of
             (None, h) \<Rightarrow> obind (kfree (Some a) h) (\<lambda>h. Done (-1, m\<lparr>mheap := h, group_devs := Some (a, g)\<rparr>))
           | (Some la, h) \<Rightarrow>
               Done (0, m\<lparr>mheap := h, group_devs := Some (a, g\<lparr>group_devs_list := Some (la, [])\<rparr>)\<rparr>)))"

definition raw_get_group :: "int \<Rightarrow> mgr \<Rightarrow> group_dev option outcome" where
  "raw_get_group desc m =
     obind (deref_devs m) (\<lambda>g. case group_devs_list g of
       None \<Rightarrow> Fault NullDeref
     | Some (la, ds) \<Rightarrow> Done (find (\<lambda>d. uint (minor d) = desc) ds))"

definition get_group :: "int \<Rightarrow> mgr \<Rightarrow> group_dev option outcome" where
  "get_group desc m =
     obind (deref_devs m) (\<lambda>g. case group_devs_list g of
       None \<Rightarrow> Done None
     | Some (la, ds) \<Rightarrow> if list_empty ds then Done None else raw_get_group desc m)"

section \<open>Installation\<close>

text \<open>\<open>kzalloc\<close> of a \<open>struct group_dev\<close>.\<close>

definition blank_dev :: "addr \<Rightarrow> group_dev" where
  "blank_dev a = \<lparr>dev_addr = a, minor = 0, flags = 0, messages_number = 0, message_sem = None,
     message_list = None, delay = 0, wq_sem = None, delay_wq = None, delay_list = None,
     pending_sem = None, pending_list = None, wait_queue = []\<rparr>"

text \<open>The labels at the end of \<open>_install_group\<close>; each falls through to the next.\<close>

datatype install_label =
    Dev_reg_fail | Delayed_list_fail | Wq_sem_fail | Pnd_sem_fail | Pnd_list_fail | Msg_sem_fail
  | Msg_list_fail | Dev_alloc_fail | Dev_name_fail

primrec falls_to :: "install_label \<Rightarrow> install_label option" where
  "falls_to Dev_reg_fail = Some Delayed_list_fail"
| "falls_to Delayed_list_fail = Some Wq_sem_fail"
| "falls_to Wq_sem_fail = Some Pnd_sem_fail"
| "falls_to Pnd_sem_fail = Some Pnd_list_fail"
| "falls_to Pnd_list_fail = Some Msg_sem_fail"
| "falls_to Msg_sem_fail = Some Msg_list_fail"
| "falls_to Msg_list_fail = Some Dev_alloc_fail"
| "falls_to Dev_alloc_fail = Some Dev_name_fail"
| "falls_to Dev_name_fail = None"

primrec label_frees :: "install_label \<Rightarrow> addr \<Rightarrow> group_dev \<Rightarrow> addr option" where
  "label_frees Dev_reg_fail name nd = ptr_addr (delay_list nd)"
| "label_frees Delayed_list_fail name nd = ptr_addr (wq_sem nd)"
| "label_frees Wq_sem_fail name nd = ptr_addr (pending_sem nd)"
| "label_frees Pnd_sem_fail name nd = ptr_addr (pending_list nd)"
| "label_frees Pnd_list_fail name nd = ptr_addr (message_sem nd)"
| "label_frees Msg_sem_fail name nd = ptr_addr (message_list nd)"
| "label_frees Msg_list_fail name nd = Some (dev_addr nd)"
| "label_frees Dev_alloc_fail name nd = Some name"
| "label_frees Dev_name_fail name nd = None"

primrec label_rank :: "install_label \<Rightarrow> nat" where
  "label_rank Dev_reg_fail = 8" | "label_rank Delayed_list_fail = 7" | "label_rank Wq_sem_fail = 6"
| "label_rank Pnd_sem_fail = 5" | "label_rank Pnd_list_fail = 4" | "label_rank Msg_sem_fail = 3"
| "label_rank Msg_list_fail = 2" | "label_rank Dev_alloc_fail = 1" | "label_rank Dev_name_fail = 0"

function install_fail :: "install_label \<Rightarrow> addr \<Rightarrow> group_dev \<Rightarrow> kheap \<Rightarrow> kheap outcome" where
  "install_fail l name nd h =
     obind (kfree (label_frees l name nd) h) (\<lambda>h.
     case falls_to l of None \<Rightarrow> Done h | Some l' \<Rightarrow> install_fail l' name nd h)"
  by pat_completeness auto
termination
proof (relation "measure (\<lambda>(l, name, nd, h). label_rank l)", goal_cases)
  case (2 l name nd h h' l')
  then show ?case by (cases l) auto
qed simp

declare install_fail.simps [simp del]

text \<open>An allocation with its two continuations.\<close>

definition alloc_or ::
  "('x) kernel_env_scheme \<Rightarrow> kheap \<Rightarrow> (kheap \<Rightarrow> 'b) \<Rightarrow> (addr \<Rightarrow> kheap \<Rightarrow> 'b) \<Rightarrow> 'b" where
  "alloc_or env h failed ok = (case kmalloc env h of (None, h) \<Rightarrow> failed h | (Some a, h) \<Rightarrow> ok a h)"

text \<open>
  The part of \<open>_install_group\<close> that allocates the members of the new device, in the order
  of the code, and jumps to the matching label when one allocation fails.
\<close>

definition alloc_members ::
  "('x) kernel_env_scheme \<Rightarrow> group_dev \<Rightarrow> kheap \<Rightarrow>
   (install_label \<times> group_dev \<times> kheap + group_dev \<times> kheap)" where
  "alloc_members env nd h =
     alloc_or env h (\<lambda>h. Inl (Msg_list_fail, nd, h)) (\<lambda>a h. let nd = nd\<lparr>message_list := Some (a, [])\<rparr> in
     alloc_or env h (\<lambda>h. Inl (Msg_sem_fail, nd, h)) (\<lambda>a h. let nd = nd\<lparr>message_sem := Some (a, 1)\<rparr> in
     alloc_or env h (\<lambda>h. Inl (Pnd_list_fail, nd, h)) (\<lambda>a h. let nd = nd\<lparr>pending_list := Some (a, [])\<rparr> in
     alloc_or env h (\<lambda>h. Inl (Pnd_sem_fail, nd, h)) (\<lambda>a h. let nd = nd\<lparr>pending_sem := Some (a, 1)\<rparr> in
     alloc_or env h (\<lambda>h. Inl (Wq_sem_fail, nd, h)) (\<lambda>a h. let nd = nd\<lparr>wq_sem := Some (a, 1)\<rparr> in
     alloc_or env h (\<lambda>h. Inl (Delayed_list_fail, nd, h)) (\<lambda>a h. let nd = nd\<lparr>delay_list := Some (a, [])\<rparr> in
     Inr (nd, h)))))))"

text \<open>
  The rest of \<open>_install_group\<close>: create the work queue, whose result is not looked at; get a
  region the first time; otherwise \<open>err\<close> is read without ever having been assigned.
\<close>

definition install_register ::
  "('x) mgr_env_scheme \<Rightarrow> int \<Rightarrow> addr \<Rightarrow> group_dev \<Rightarrow> mgr \<Rightarrow> (group_dev option \<times> mgr) outcome" where
  "install_register env desc name nd m =
     obind (deref_devs m) (\<lambda>g.
     let (_, nd) = init_workqueue env nd;
         m = m\<lparr>queues := (if delay_wq nd = None then queues m else dev_addr nd # queues m)\<rparr>;
         (err, mj, m) =
           (if major g = 0 then
              let (err, mj) = chrdev_region env (brk (mheap m)) in
              (err, mj, set_devs (g\<lparr>major := mj\<rparr>) m\<lparr>regions := (if err < 0 then regions m else mj # regions m)\<rparr>)
            else (stack_garbage env (brk (mheap m)), major g, m)) in
     if err < 0 then obind (install_fail Dev_reg_fail name nd (mheap m)) (\<lambda>h. Done (None, m\<lparr>mheap := h\<rparr>))
     else
       obind (kfree (Some name) (mheap m)) (\<lambda>h.
       Done (Some (nd\<lparr>minor := word_of_int desc\<rparr>),
             m\<lparr>mheap := h, group_dev_class := True, nodes := (mj, word_of_int desc) # nodes m\<rparr>)))"

definition raw_install_group ::
  "('x) mgr_env_scheme \<Rightarrow> int \<Rightarrow> mgr \<Rightarrow> (group_dev option \<times> mgr) outcome" where
  "raw_install_group env desc m =
     obind (deref_devs m) (\<lambda>_.
     let give_up = (\<lambda>l name nd h. obind (install_fail l name nd h) (\<lambda>h. Done (None, m\<lparr>mheap := h\<rparr>))) in
     alloc_or env (mheap m) (\<lambda>h. Done (None, m\<lparr>mheap := h\<rparr>)) (\<lambda>name h.
     if usable_size env GROUP_FORMAT_LENGTH < length (sprintf_d GROUP_FORMAT desc) + 1 then Fault OutOfBounds
     else alloc_or env h (give_up Dev_alloc_fail name (blank_dev 0)) (\<lambda>a h.
     case alloc_members env (blank_dev a) h of
       Inl (l, nd, h) \<Rightarrow> give_up l name nd h
     | Inr (nd, h) \<Rightarrow> install_register env desc name nd (m\<lparr>mheap := h\<rparr>))))"

definition install_group :: "('x) mgr_env_scheme \<Rightarrow> u8 option \<Rightarrow> mgr \<Rightarrow> (int \<times> mgr) outcome" where
  "install_group env group_desc m =
     (case group_desc of
        None \<Rightarrow> Done (-1, m)
      | Some desc \<Rightarrow>
          if GROUP_DEV_COUNT \<le> unat desc then Done (-1, m)
          else
            obind (if group_devs m = None then init_group_devs env m else Done (0, m)) (\<lambda>(_, m).
            obind (get_group (uint desc) m) (\<lambda>gd.
            if gd \<noteq> None then Done (0, m)
            else
              obind (deref_devs m) (\<lambda>g.
              if GROUP_DEV_COUNT < unat (used g) + 1 then Done (-1, m)
              else
                obind (raw_install_group env (uint desc) m) (\<lambda>(gd, m).
                case gd of
                  None \<Rightarrow> Done (-1, m)
                | Some d \<Rightarrow>
                    obind (deref_devs m) (\<lambda>g.
                    case group_devs_list g of
                      None \<Rightarrow> Fault NullDeref
                    | Some (la, ds) \<Rightarrow>
                        Done (0, set_devs (g\<lparr>group_devs_list := Some (la, list_add d ds), used := used g + 1\<rparr>) m)))))))"

section \<open>Destruction\<close>

text \<open>Freeing messages, from the last entry of the list to the first.\<close>

fun free_messages :: "message list \<Rightarrow> kheap \<Rightarrow> kheap outcome" where
  "free_messages [] h = Done h"
| "free_messages (msg # ms) h =
     obind (if data msg = None then Done h else kfree (ptr_addr (data msg)) h) (\<lambda>h.
     obind (kfree (Some (msg_addr msg)) h) (free_messages ms))"

text \<open>
  In the loop over \<open>pending_list\<close> the entry is taken from the list head instead of the
  cursor: \<open>list_entry\<close> of the head is no message, so the first iteration reads and frees
  memory around the head.
\<close>

definition free_pending :: "message list \<Rightarrow> kheap \<Rightarrow> kheap outcome" where
  "free_pending ms h = (if list_empty ms then Done h else Fault OutOfBounds)"

definition free_ptr :: "'a ptr \<Rightarrow> kheap \<Rightarrow> kheap outcome" where
  "free_ptr p h = (if p = None then Done h else kfree (ptr_addr p) h)"

text \<open>Everything in \<open>group_free\<close> after the work queue is gone.\<close>

definition free_members :: "group_dev \<Rightarrow> kheap \<Rightarrow> kheap outcome" where
  "free_members d h =
     obind (free_ptr (wq_sem d) h) (\<lambda>h.
     obind (free_ptr (delay_list d) h) (\<lambda>h.
     obind (free_ptr (pending_sem d) h) (\<lambda>h.
     obind (case pending_list d of None \<Rightarrow> Done h
            | Some (pa, pl) \<Rightarrow> obind (free_pending pl h) (kfree (Some pa))) (\<lambda>h.
     obind (free_ptr (message_sem d) h) (\<lambda>h.
     obind (case message_list d of None \<Rightarrow> Done h
            | Some (ma, ml) \<Rightarrow> obind (free_messages (rev ml) h) (kfree (Some ma))) (\<lambda>h.
     kfree (Some (dev_addr d)) h))))))"

definition group_free :: "group_dev \<Rightarrow> kheap \<Rightarrow> addr list \<Rightarrow> (kheap \<times> addr list) outcome" where
  "group_free d h qs =
     (let d = (if is_barrier_up d \<noteq> 0 then wake_up_all (clear_barrier d) else d) in
      obind (if delay_wq d \<noteq> None
             then obind (fflush_workqueue h d) (\<lambda>(h, d). Done (h, d, remove1 (dev_addr d) qs))
             else Done (h, d, qs)) (\<lambda>(h, d, qs).
      obind (free_members d h) (\<lambda>h. Done (h, qs))))"

text \<open>The traversal of all devices, from the last entry to the first; \<open>n\<close> is \<open>to_free\<close>.\<close>

fun free_devices :: "u32 \<Rightarrow> group_dev list \<Rightarrow> int \<Rightarrow> mgr \<Rightarrow> (int \<times> mgr) outcome" where
  "free_devices mj [] n m = Done (n, m)"
| "free_devices mj (d # ds) n m =
     (let m = m\<lparr>nodes := remove1 (mj, minor d) (nodes m)\<rparr> in
      obind (group_free d (mheap m) (queues m)) (\<lambda>(h, qs).
      free_devices mj ds (n - 1) (m\<lparr>mheap := h, queues := qs\<rparr>)))"

definition group_free_all :: "mgr \<Rightarrow> (int \<times> mgr) outcome" where
  "group_free_all m =
     (if group_devs m = None then Done (0, m)
      else obind (deref_devs m) (\<lambda>g.
        let to_free = int (unat (used g)) in
        case group_devs_list g of
          None \<Rightarrow> Done (to_free, m)
        | Some (la, ds) \<Rightarrow>
            obind (if list_empty ds then Done (to_free, m) else free_devices (major g) (rev ds) to_free m) (\<lambda>(n, m).
            let m = m\<lparr>regions := remove1 (major g) (regions m), group_dev_class := False\<rparr> in
            obind (kfree (Some la) (mheap m)) (\<lambda>h.
            obind (kfree (ptr_addr (group_devs m)) h) (\<lambda>h.
            Done (n, m\<lparr>mheap := h\<rparr>))))))"

end
