(* ===== verification/Group_Manager_Laws.thy ===== *)
theory Group_Manager_Laws
  imports Group_Manager Group_Fops_Laws
begin

text \<open>
  The invariant of the registry and what its operations do under it: an installation adds
  exactly one well-formed device or restores the heap, and a device is destroyed together
  with everything it owns.
\<close>

section \<open>Allocation of a new device\<close>

definition fresh_dev :: "addr \<Rightarrow> addr \<Rightarrow> group_dev" where
  "fresh_dev a b = (blank_dev a)\<lparr>message_list := Some (b, []), message_sem := Some (b + 1, 1),
     pending_list := Some (b + 2, []), pending_sem := Some (b + 3, 1),
     wq_sem := Some (b + 4, 1), delay_list := Some (b + 5, [])\<rparr>"

lemma install_fail_steps:
  "install_fail Dev_reg_fail name nd h =
     obind (kfree (ptr_addr (delay_list nd)) h) (install_fail Delayed_list_fail name nd)"
  "install_fail Delayed_list_fail name nd h =
     obind (kfree (ptr_addr (wq_sem nd)) h) (install_fail Wq_sem_fail name nd)"
  "install_fail Wq_sem_fail name nd h =
     obind (kfree (ptr_addr (pending_sem nd)) h) (install_fail Pnd_sem_fail name nd)"
  "install_fail Pnd_sem_fail name nd h =
     obind (kfree (ptr_addr (pending_list nd)) h) (install_fail Pnd_list_fail name nd)"
  "install_fail Pnd_list_fail name nd h =
     obind (kfree (ptr_addr (message_sem nd)) h) (install_fail Msg_sem_fail name nd)"
  "install_fail Msg_sem_fail name nd h =
     obind (kfree (ptr_addr (message_list nd)) h) (install_fail Msg_list_fail name nd)"
  "install_fail Msg_list_fail name nd h =
     obind (kfree (Some (dev_addr nd)) h) (install_fail Dev_alloc_fail name nd)"
  "install_fail Dev_alloc_fail name nd h = kfree (Some name) h"
  by (subst install_fail.simps, simp add: install_fail.simps [of Dev_name_fail])+

text \<open>
  When the allocation of a member fails, the label it jumps to frees exactly what was
  allocated so far, the new device and its name.
\<close>

lemma notin_live: "heap_ok h \<Longrightarrow> brk h \<le> k \<Longrightarrow> k \<notin> live h"
  by (auto simp: heap_ok_def)

lemma alloc_members_fail:
  assumes "heap_ok h" and "a \<in> live h" and "name \<in> live h" and "a \<noteq> name"
    and "alloc_members env (blank_dev a) h = Inl (l, nd, h')"
  shows "\<exists>h''. install_fail l name nd h' = Done h'' \<and> live h'' = live h - {a, name} \<and> brk h \<le> brk h''
     \<and> (\<exists>i < 6. \<not> alloc_ok env (brk h + i))"
proof -
  have fresh: "brk h + i \<notin> live h" for i using assms(1) by (simp add: notin_live)
  have other: "a \<noteq> brk h + i" "name \<noteq> brk h + i" for i using assms(2,3) fresh by metis+
  note facts = fresh [of 0, simplified] fresh [of 1, simplified] fresh [of 2, simplified]
    fresh [of 3, simplified] fresh [of 4, simplified] other [of 0, simplified] other [of 1, simplified]
    other [of 2, simplified] other [of 3, simplified] other [of 4, simplified]
  have "\<exists>h''. install_fail l name nd h' = Done h'' \<and> live h'' = live h - {a, name} \<and> brk h \<le> brk h''"
    using assms(2-5) facts
    by (auto simp: alloc_members_def alloc_or_def kmalloc_def Let_def install_fail_steps kfree_def
        blank_dev_def ptr_addr_def eval_nat_numeral split: if_splits)
  moreover have "\<exists>i < 6. \<not> alloc_ok env (brk h + i)"
  proof (rule ccontr)
    assume "\<not> ?thesis"
    then have "\<And>i. i < 6 \<Longrightarrow> alloc_ok env (brk h + i)" by blast
    from this [of 0] this [of 1] this [of 2] this [of 3] this [of 4] this [of 5] assms(5) show False
      by (simp add: alloc_members_def alloc_or_def kmalloc_def Let_def eval_nat_numeral)
  qed
  ultimately show ?thesis by blast
qed

lemma alloc_members_ok:
  assumes "alloc_members env (blank_dev a) h = Inr (nd, h')"
  shows "nd = fresh_dev a (brk h) \<and> brk h' = brk h + 6 \<and> live h' = {brk h..<brk h + 6} \<union> live h"
  using assms
  by (auto simp: alloc_members_def alloc_or_def kmalloc_def Let_def fresh_dev_def blank_dev_def eval_nat_numeral
      split: if_splits)

section \<open>The invariant of the registry\<close>

definition devs_of :: "mgr \<Rightarrow> group_dev list" where
  "devs_of m = (case group_devs m of None \<Rightarrow> [] | Some (a, g) \<Rightarrow> pointee (group_devs_list g))"

definition mgr_owned :: "mgr \<Rightarrow> addr list" where
  "mgr_owned m = (case group_devs m of None \<Rightarrow> []
     | Some (a, g) \<Rightarrow> a # ptr_addrs (group_devs_list g) @ concat (map owned (pointee (group_devs_list g))))"

text \<open>
  The devices own distinct live objects, have different minors and are well formed; the
  counter counts them, and the device nodes are theirs.
\<close>

definition mgr_ok :: "mgr \<Rightarrow> bool" where
  "mgr_ok m \<longleftrightarrow> heap_ok (mheap m) \<and> distinct (mgr_owned m) \<and> set (mgr_owned m) \<subseteq> live (mheap m)
     \<and> list_all dev_ok (devs_of m) \<and> distinct (map minor (devs_of m))
     \<and> (case group_devs m of None \<Rightarrow> nodes m = []
        | Some (a, g) \<Rightarrow> group_devs_list g \<noteq> None \<and> unat (used g) = length (devs_of m)
            \<and> nodes m = map (\<lambda>d. (major g, minor d)) (devs_of m) \<and> (devs_of m \<noteq> [] \<longrightarrow> major g \<noteq> 0))"

text \<open>
  Documented behaviour of the kernel: an allocation reserves at least what was asked for, and
  a dynamically allocated major number is not 0.
\<close>

definition grants :: "('x) kernel_env_scheme \<Rightarrow> bool" where
  "grants env \<longleftrightarrow> (\<forall>n. n \<le> usable_size env n)"

definition dynamic_major :: "('x) mgr_env_scheme \<Rightarrow> bool" where
  "dynamic_major env \<longleftrightarrow> (\<forall>k. 0 \<le> fst (chrdev_region env k) \<longrightarrow> snd (chrdev_region env k) \<noteq> 0)"

lemma deref_devs_ok:
  assumes "mgr_ok m" and "group_devs m = Some (a, g)"
  shows "deref_devs m = Done g" and "a \<in> live (mheap m)" and "\<exists>la. group_devs_list g = Some (la, devs_of m)"
proof -
  from assms show live: "a \<in> live (mheap m)" by (auto simp: mgr_ok_def mgr_owned_def)
  with assms(2) show "deref_devs m = Done g" by (simp add: deref_devs_def)
  from assms show "\<exists>la. group_devs_list g = Some (la, devs_of m)"
    by (auto simp: mgr_ok_def devs_of_def)
qed

section \<open>Installation\<close>

definition installed_dev :: "('x) mgr_env_scheme \<Rightarrow> u8 \<Rightarrow> addr \<Rightarrow> addr \<Rightarrow> group_dev" where
  "installed_dev env b x y = (fresh_dev x y)\<lparr>minor := b,
     delay_wq := (if workqueue_ok env x then Some [] else None)\<rparr>"

lemma installed_dev_ok: "dev_ok (installed_dev env b x y)"
  by (simp add: installed_dev_def fresh_dev_def blank_dev_def dev_ok_def sem_free_def armed_def is_flushing_def
      c_check_bit_eq FLUSHING_BIT_def)

lemma owned_installed:
  "owned (installed_dev env b x y) = [x, y + 1, y, y + 4, y + 5, y + 3, y + 2]"
  by (simp add: installed_dev_def fresh_dev_def blank_dev_def owned_def)

lemma installed_views [simp]:
  "minor (installed_dev env b x y) = b" "msgs (installed_dev env b x y) = []"
  "pendings (installed_dev env b x y) = []" "works (installed_dev env b x y) = []"
  "dev_addr (installed_dev env b x y) = x" "delay (installed_dev env b x y) = 0"
  by (simp_all add: installed_dev_def fresh_dev_def blank_dev_def)

text \<open>The error code that \<open>_install_group\<close> tests after it has allocated everything.\<close>

definition reg_err :: "('x) mgr_env_scheme \<Rightarrow> group_devices \<Rightarrow> nat \<Rightarrow> int" where
  "reg_err env g k = (if major g = 0 then fst (chrdev_region env k) else stack_garbage env k)"

definition reg_major :: "('x) mgr_env_scheme \<Rightarrow> group_devices \<Rightarrow> nat \<Rightarrow> u32" where
  "reg_major env g k = (if major g = 0 then snd (chrdev_region env k) else major g)"

definition reg_state :: "('x) mgr_env_scheme \<Rightarrow> group_devices \<Rightarrow> nat \<Rightarrow> addr \<Rightarrow> mgr \<Rightarrow> mgr" where
  "reg_state env g k x m = m\<lparr>
     group_devs := map_option (apsnd (\<lambda>_. g\<lparr>major := reg_major env g k\<rparr>)) (group_devs m),
     regions := (if major g = 0 \<and> 0 \<le> reg_err env g k then reg_major env g k # regions m else regions m),
     queues := (if workqueue_ok env x then x # queues m else queues m)\<rparr>"

lemma install_register_eq:
  fixes m :: mgr
  assumes "deref_devs m = Done g" and "group_devs m = Some (a, g)"
    and "name \<in> live (mheap m)" and "x \<in> live (mheap m)" and "name \<noteq> x" and "name < y" and "x < y"
    and "{y..<y + 6} \<subseteq> live (mheap m)"
  defines "k \<equiv> brk (mheap m)"
  shows "install_register env (uint b) name (fresh_dev x y) m =
     (if reg_err env g k < 0
      then Done (None, (reg_state env g k x m)\<lparr>mheap := (mheap m)\<lparr>live := live (mheap m) - {name, x} - {y..<y + 6}\<rparr>\<rparr>)
      else Done (Some (installed_dev env b x y),
        (reg_state env g k x m)\<lparr>mheap := (mheap m)\<lparr>live := live (mheap m) - {name}\<rparr>,
           group_dev_class := True, nodes := (reg_major env g k, b) # nodes m\<rparr>))"
proof -
  have six: "{y..<y + 6} = {y, y + 1, y + 2, y + 3, y + 4, y + 5}" by auto
  let ?nd = "(fresh_dev x y)\<lparr>delay_wq := (if workqueue_ok env x then Some [] else None)\<rparr>"
  have wq: "init_workqueue env (fresh_dev x y) = (if workqueue_ok env x then 0 else -1, ?nd)"
    by (simp add: init_workqueue_def fresh_dev_def blank_dev_def Let_def)
  have sets: "live (mheap m) - {y + 5} - {y + 4} - {y + 3} - {y + 2} - {y + 1} - {y} - {x} - {name}
      = live (mheap m) - {name, x} - {y..<y + 6}" unfolding six by blast
  have fail: "install_fail Dev_reg_fail name ?nd (mheap m) =
      Done ((mheap m)\<lparr>live := live (mheap m) - {name, x} - {y..<y + 6}\<rparr>)"
    using assms(3-8) sets [symmetric]
    by (simp add: install_fail_steps kfree_def fresh_dev_def blank_dev_def ptr_addr_def six)
  have nd: "?nd\<lparr>minor := b\<rparr> = installed_dev env b x y" "delay_wq ?nd = None \<longleftrightarrow> \<not> workqueue_ok env x"
    "dev_addr ?nd = x" "dev_addr (fresh_dev x y) = x" by (simp_all add: installed_dev_def fresh_dev_def blank_dev_def)
  have name: "kfree (Some name) (mheap m) = Done ((mheap m)\<lparr>live := live (mheap m) - {name}\<rparr>)"
    using assms(3) by (simp add: kfree_def)
  obtain e mj where reg: "chrdev_region env k = (e, mj)" by fastforce
  show ?thesis
  proof (cases "major g = 0")
    case True
    with reg show ?thesis
      by (simp add: install_register_def assms(1,2) wq fail nd name k_def [symmetric] reg_err_def reg_major_def
          reg_state_def set_devs_def Let_def)
  next
    case False
    moreover have "g\<lparr>major := major g\<rparr> = g" by simp
    ultimately show ?thesis
      by (simp add: install_register_def assms(1,2) wq fail nd name k_def [symmetric] reg_err_def reg_major_def
          reg_state_def set_devs_def Let_def)
  qed
qed

text \<open>
  When an installation succeeds: eight allocations, and an error code that is not negative.
  Otherwise the heap is restored.
\<close>

definition install_works :: "('x) mgr_env_scheme \<Rightarrow> group_devices \<Rightarrow> nat \<Rightarrow> bool" where
  "install_works env g n \<longleftrightarrow> (\<forall>i < 8. alloc_ok env (n + i)) \<and> 0 \<le> reg_err env g (n + 8)"

lemma install_works_alloc: "install_works env g n \<Longrightarrow> i < 8 \<Longrightarrow> alloc_ok env (n + i)"
  by (simp add: install_works_def)

lemma eight_shift:
  assumes "\<exists>i < 6. \<not> alloc_ok env (Suc (Suc n) + i)"
  shows "\<not> install_works env g n"
proof -
  from assms obtain i where "i < 6" and bad: "\<not> alloc_ok env (n + (i + 2))" by auto
  then have "i + 2 < 8" by simp
  with bad install_works_alloc [of env g n "i + 2"] show ?thesis by blast
qed

lemma reg_state_views:
  assumes "group_devs m = Some (a, g)"
  shows "group_devs (reg_state env g k x m) = Some (a, g\<lparr>major := reg_major env g k\<rparr>)"
    and "nodes (reg_state env g k x m) = nodes m"
    and "major g \<noteq> 0 \<Longrightarrow> reg_major env g k = major g"
  using assms by (simp_all add: reg_state_def reg_major_def)

lemma raw_install_cases:
  fixes m :: mgr and b :: u8
  assumes ok: "mgr_ok m" and devs: "group_devs m = Some (a, g)" and grants: "grants env"
  defines "k \<equiv> brk (mheap m) + 8" and "x \<equiv> Suc (brk (mheap m))"
  obtains (failed) m' where "raw_install_group env (uint b) m = Done (None, m')"
      and "\<exists>mj. group_devs m' = Some (a, g\<lparr>major := mj\<rparr>) \<and> (major g \<noteq> 0 \<longrightarrow> mj = major g)"
      and "nodes m' = nodes m"
      and "live (mheap m') = live (mheap m)" and "heap_ok (mheap m')"
      and "\<not> install_works env g (brk (mheap m))"
      and "0 \<le> reg_err env g k \<Longrightarrow> queues m' = queues m \<and> regions m' = regions m \<and> group_devs m' = group_devs m"
  | (installed) m' d where
      "raw_install_group env (uint b) m = Done (Some d, m')" and "d = installed_dev env b x (Suc x)"
      and "group_devs m' = Some (a, g\<lparr>major := reg_major env g k\<rparr>)"
      and "nodes m' = (reg_major env g k, b) # nodes m"
      and "queues m' = (if workqueue_ok env x then x # queues m else queues m)"
      and "regions m' = (if major g = 0 then reg_major env g k # regions m else regions m)"
      and "live (mheap m') = set (owned d) \<union> live (mheap m)" and "set (owned d) \<inter> live (mheap m) = {}"
      and "heap_ok (mheap m')" and "0 \<le> reg_err env g k"
proof -
  let ?h = "mheap m" and ?n = "brk (mheap m)"
  from ok have heap: "heap_ok ?h" by (simp add: mgr_ok_def)
  have new: "?n + i \<notin> live ?h" for i using notin_live [OF heap] by simp
  note deref = deref_devs_ok [OF ok devs]
  have name_fits: "\<not> usable_size env GROUP_FORMAT_LENGTH < length (sprintf_d GROUP_FORMAT (uint b)) + 1"
    using grants group_name_fits [of b] by (meson grants_def le_trans not_le)
  have give_up: thesis if "raw_install_group env (uint b) m = Done (None, m\<lparr>mheap := h\<rparr>)"
    "live h = live ?h" "?n \<le> brk h" "\<not> install_works env g ?n" for h
    using that heap devs by (intro failed [of "m\<lparr>mheap := h\<rparr>"]) (auto simp: heap_ok_def intro!: exI [of _ "major g"])
  show thesis
  proof (cases "alloc_ok env ?n \<and> alloc_ok env (Suc ?n)")
    case False
    have "\<not> install_works env g ?n"
      using False install_works_alloc [of env g ?n 0] install_works_alloc [of env g ?n 1] by auto
    moreover have "\<exists>h. raw_install_group env (uint b) m = Done (None, m\<lparr>mheap := h\<rparr>) \<and> live h = live ?h \<and> ?n \<le> brk h"
      using False name_fits new [of 0]
      by (auto simp: raw_install_group_def deref alloc_or_def kmalloc_def Let_def install_fail_steps kfree_def)
    ultimately show thesis using give_up by blast
  next
    case True
    let ?h2 = "?h\<lparr>brk := Suc (Suc ?n), live := insert (Suc ?n) (insert ?n (live ?h))\<rparr>"
    have h2: "heap_ok ?h2" using heap by (auto simp: heap_ok_def)
    have run: "raw_install_group env (uint b) m = (case alloc_members env (blank_dev (Suc ?n)) ?h2 of
        Inl (l, nd, h) \<Rightarrow> obind (install_fail l ?n nd h) (\<lambda>h. Done (None, m\<lparr>mheap := h\<rparr>))
      | Inr (nd, h) \<Rightarrow> install_register env (uint b) ?n nd (m\<lparr>mheap := h\<rparr>))"
      using True name_fits
      by (simp add: raw_install_group_def deref alloc_or_def kmalloc_def Let_def)
    show thesis
    proof (cases "alloc_members env (blank_dev (Suc ?n)) ?h2")
      case (Inl r)
      obtain l nd h where r: "r = (l, nd, h)" by (cases r)
      from alloc_members_fail [OF h2 _ _ _ Inl [unfolded r], of ?n] obtain h' where
        "install_fail l ?n nd h = Done h'" "live h' = live ?h2 - {Suc ?n, ?n}" "brk ?h2 \<le> brk h'"
        and "\<exists>i < 6. \<not> alloc_ok env (Suc (Suc ?n) + i)" by auto
      moreover from this(4) have "\<not> install_works env g ?n" by (rule eight_shift)
      moreover have "live ?h2 - {Suc ?n, ?n} = live ?h" using new [of 0] new [of 1] by auto
      ultimately show thesis using run Inl r by (intro give_up [of h']) auto
    next
      case (Inr r)
      obtain nd h where r: "r = (nd, h)" by (cases r)
      let ?y = "Suc x" and ?m = "m\<lparr>mheap := h\<rparr>"
      from alloc_members_ok [OF Inr [unfolded r]]
      have nd: "nd = fresh_dev x ?y" and h: "brk h = k" "live h = {?y..<?y + 6} \<union> {x, ?n} \<union> live ?h"
        by (simp_all add: x_def k_def)
      have der: "deref_devs ?m = Done g" using deref(2) h devs by (simp add: deref_devs_def)
      have own: "set (owned (installed_dev env b x ?y)) = {x} \<union> {?y..<?y + 6}"
        unfolding owned_installed by auto
      have disj: "({x, ?n} \<union> {?y..<?y + 6}) \<inter> live ?h = {}"
        using heap by (auto simp: heap_ok_def x_def)
      have state: "reg_state env g k x ?m = (reg_state env g k x m)\<lparr>mheap := h\<rparr>" by (simp add: reg_state_def)
      have reg: "install_register env (uint b) ?n nd ?m =
        (if reg_err env g k < 0
         then Done (None, (reg_state env g k x m)\<lparr>mheap := h\<lparr>live := live ?h\<rparr>\<rparr>)
         else Done (Some (installed_dev env b x ?y),
           (reg_state env g k x m)\<lparr>mheap := h\<lparr>live := {x} \<union> {?y..<?y + 6} \<union> live ?h\<rparr>,
             group_dev_class := True, nodes := (reg_major env g k, b) # nodes m\<rparr>))"
      proof -
        have l1: "live h - {?n, x} - {?y..<?y + 6} = live ?h" and l2: "live h - {?n} = {x} \<union> {?y..<?y + 6} \<union> live ?h"
          using h disj by (auto simp: x_def)
        have gd: "group_devs ?m = Some (a, g)" using devs by simp
        have prem: "?n \<in> live (mheap ?m)" "x \<in> live (mheap ?m)" "?n \<noteq> x" "?n < ?y" "x < ?y"
          "{?y..<?y + 6} \<subseteq> live (mheap ?m)" using h by (auto simp: x_def)
        have "brk (mheap ?m) = k" "live (mheap ?m) = live h" "mheap ?m = h" "nodes ?m = nodes m" using h by simp_all
        with install_register_eq [OF der gd prem, of env b] show ?thesis
          unfolding nd by (simp only: l1 l2 state) simp
      qed
      have run': "raw_install_group env (uint b) m = install_register env (uint b) ?n nd ?m"
        unfolding run Inr r by simp
      have "heap_ok h" unfolding heap_ok_def h using heap by (auto simp: heap_ok_def x_def k_def)
      note ho = heap_ok_shrink [OF this]
      show thesis
      proof (cases "reg_err env g k < 0")
        case True
        then have "\<not> install_works env g ?n" by (simp add: install_works_def k_def)
        with True run' reg ho [of "live ?h"] h reg_state_views [OF devs] show thesis
          by (intro failed [of "(reg_state env g k x m)\<lparr>mheap := h\<lparr>live := live ?h\<rparr>\<rparr>"])
            (auto intro!: exI [of _ "reg_major env g k"])
      next
        case False
        with run' reg ho [of "{x} \<union> {?y..<?y + 6} \<union> live ?h"] h own disj reg_state_views [OF devs] show thesis
          by (intro installed [of "installed_dev env b x ?y" "(reg_state env g k x m)\<lparr>mheap := h\<lparr>live := {x} \<union> {?y..<?y + 6} \<union> live ?h\<rparr>,
             group_dev_class := True, nodes := (reg_major env g k, b) # nodes m\<rparr>"]) (auto simp: reg_state_def)
      qed
    qed
  qed
qed

section \<open>Lookup\<close>

text \<open>
  What the rest of the module expects of the list of devices: a lookup finds the entry that
  was added last under a key.
\<close>

locale registry =
  fixes lookup :: "'s \<Rightarrow> 'k \<Rightarrow> 'v option"
    and add :: "'v \<Rightarrow> 's \<Rightarrow> 's"
    and key :: "'v \<Rightarrow> 'k"
    and entries :: "'s \<Rightarrow> 'v list"
  assumes lookup_add: "lookup (add v s) k = (if key v = k then Some v else lookup s k)"
    and lookup_None: "lookup s k = None \<longleftrightarrow> k \<notin> key ` set (entries s)"
    and lookup_key: "lookup s k = Some v \<Longrightarrow> v \<in> set (entries s) \<and> key v = k"
    and entries_add: "entries (add v s) = v # entries s"
begin

lemma lookup_add_other: "key v \<noteq> k \<Longrightarrow> lookup (add v s) k = lookup s k"
  by (simp add: lookup_add)

lemma distinct_add:
  assumes "distinct (map key (entries s))" and "lookup s (key v) = None"
  shows "distinct (map key (entries (add v s)))"
  using assms lookup_None by (simp add: entries_add)

lemma lookup_unique:
  assumes "distinct (map key (entries s))" and "v \<in> set (entries s)"
  shows "lookup s (key v) = Some v"
proof -
  from assms(2) have "lookup s (key v) \<noteq> None" by (simp add: lookup_None)
  then obtain w where w: "lookup s (key v) = Some w" by blast
  from lookup_key [OF this] assms have "w = v" by (auto simp: distinct_map dest: inj_onD)
  with w show ?thesis by simp
qed

end

definition lookup_dev :: "group_dev list \<Rightarrow> u8 \<Rightarrow> group_dev option" where
  "lookup_dev ds b = find (\<lambda>d. minor d = b) ds"

interpretation dev_registry: registry lookup_dev list_add minor "\<lambda>ds. ds"
  by unfold_locales (auto simp: lookup_dev_def list_add_def find_None_iff find_Some_iff)

lemma get_group_ok:
  assumes "mgr_ok m" and "group_devs m \<noteq> None"
  shows "get_group (uint b) m = Done (lookup_dev (devs_of m) b)"
proof -
  from assms(2) obtain a g where g: "group_devs m = Some (a, g)" by auto
  note deref = deref_devs_ok [OF assms(1) g]
  from deref(3) show ?thesis
    by (auto simp: get_group_def raw_get_group_def deref(1) list_empty_def lookup_dev_def
        simp flip: word_uint_eq_iff)
qed

section \<open>The whole installation\<close>

text \<open>Objects on the heap that do not belong to the registry.\<close>

definition foreign :: "mgr \<Rightarrow> addr set" where
  "foreign m = live (mheap m) - set (mgr_owned m)"

text \<open>There is always room for a device that is not installed yet.\<close>

lemma room_for_new:
  assumes "distinct (map minor ds)" and "b \<notin> minor ` set ds"
  shows "length ds < 256"
proof -
  have "length ds = card (minor ` set ds)" using assms(1) by (metis distinct_card length_map set_map)
  also have "\<dots> < card (UNIV :: u8 set)"
    using assms(2) by (intro psubset_card_mono) auto
  finally show ?thesis by (simp add: card_word)
qed

lemma init_group_devs_ok:
  assumes "mgr_ok m" and "group_devs m = None" and "alloc_ok env (brk (mheap m))" and "alloc_ok env (Suc (brk (mheap m)))"
  shows "\<exists>m'. init_group_devs env m = Done (0, m') \<and> mgr_ok m' \<and> group_devs m' \<noteq> None
    \<and> devs_of m' = [] \<and> foreign m' = foreign m \<and> brk (mheap m') = brk (mheap m) + 2"
proof -
  let ?n = "brk (mheap m)"
  let ?m = "m\<lparr>mheap := (mheap m)\<lparr>brk := Suc (Suc ?n), live := insert (Suc ?n) (insert ?n (live (mheap m)))\<rparr>,
     group_devs := Some (?n, \<lparr>used = 0, major = 0, group_devs_list = Some (Suc ?n, [])\<rparr>)\<rparr>"
  from assms(1) have heap: "heap_ok (mheap m)" by (simp add: mgr_ok_def)
  have "init_group_devs env m = Done (0, ?m)"
    using assms(3,4) by (simp add: init_group_devs_def kmalloc_def)
  moreover have "mgr_ok ?m"
    using assms(1,2) heap by (auto simp: mgr_ok_def devs_of_def mgr_owned_def heap_ok_def)
  moreover have "foreign ?m = foreign m"
    using notin_live [OF heap, of ?n] notin_live [OF heap, of "Suc ?n"] assms(2)
    by (auto simp: foreign_def mgr_owned_def)
  ultimately show ?thesis by (intro exI [of _ ?m]) (simp add: devs_of_def)
qed

text \<open>A device is added to a registry in which its minor is not used.\<close>

definition add_dev :: "group_dev \<Rightarrow> mgr \<Rightarrow> mgr" where
  "add_dev d m = (case group_devs m of None \<Rightarrow> m
     | Some (a, g) \<Rightarrow> set_devs (g\<lparr>group_devs_list := Some (the (ptr_addr (group_devs_list g)), list_add d (devs_of m)),
          used := used g + 1\<rparr>) m)"

lemma mgr_owned_split:
  "group_devs m = Some (a, g) \<Longrightarrow> group_devs_list g = Some (la, ds) \<Longrightarrow>
     mgr_owned m = a # la # concat (map owned ds)"
  by (simp add: mgr_owned_def)

lemma add_dev_ok:
  fixes m m' :: mgr
  assumes ok: "mgr_ok m" and devs: "group_devs m = Some (a, g)" and b: "lookup_dev (devs_of m) (minor d) = None"
    and d: "dev_ok d" "distinct (owned d)" "set (owned d) \<inter> live (mheap m) = {}"
    and m': "group_devs m' = Some (a, g\<lparr>major := mj\<rparr>)" "live (mheap m') = set (owned d) \<union> live (mheap m)"
      "heap_ok (mheap m')" "nodes m' = (mj, minor d) # nodes m" "mj \<noteq> 0" "major g \<noteq> 0 \<Longrightarrow> mj = major g"
  shows "mgr_ok (add_dev d m')" and "devs_of (add_dev d m') = d # devs_of m" and "foreign (add_dev d m') = foreign m"
proof -
  from deref_devs_ok(3) [OF ok devs] obtain la where la: "group_devs_list g = Some (la, devs_of m)" by blast
  let ?g = "g\<lparr>major := mj, group_devs_list := Some (la, d # devs_of m), used := used g + 1\<rparr>"
  have devs': "devs_of m' = devs_of m" using m'(1) la by (simp add: devs_of_def)
  have gd: "group_devs (add_dev d m') = Some (a, ?g)"
    and frame: "mheap (add_dev d m') = mheap m'" "nodes (add_dev d m') = nodes m'"
    using m'(1) la by (simp_all add: add_dev_def set_devs_def devs' list_add_def ptr_addr_def)
  show ds: "devs_of (add_dev d m') = d # devs_of m" using gd by (simp add: devs_of_def)
  have own: "mgr_owned m = a # la # concat (map owned (devs_of m))"
    and own': "mgr_owned (add_dev d m') = a # la # owned d @ concat (map owned (devs_of m))"
    using devs la gd by (simp_all add: mgr_owned_def)
  from ok have sub: "set (mgr_owned m) \<subseteq> live (mheap m)" and dist: "distinct (mgr_owned m)"
    and minors: "distinct (map minor (devs_of m))" by (simp_all add: mgr_ok_def)
  from sub d(3) show "foreign (add_dev d m') = foreign m"
    unfolding foreign_def frame m'(2) own own' by auto
  have "minor d \<notin> minor ` set (devs_of m)" using b by (simp add: dev_registry.lookup_None)
  moreover from this have "length (devs_of m) < 256" by (rule room_for_new [OF minors])
  then have "unat (used g + 1) = Suc (length (devs_of m))"
    using ok devs by (simp add: mgr_ok_def unat_word_ariths)
  moreover have "nodes (add_dev d m') = map (\<lambda>d. (mj, minor d)) (d # devs_of m)"
    using ok devs m'(4-6) frame by (cases "devs_of m = []") (auto simp: mgr_ok_def)
  moreover have "set (mgr_owned (add_dev d m')) \<subseteq> live (mheap m')" "distinct (mgr_owned (add_dev d m'))"
    using sub dist d(2,3) unfolding m'(2) own own' by auto
  ultimately show "mgr_ok (add_dev d m')"
    using ok d(1) m'(3,5) gd minors unfolding mgr_ok_def frame ds by simp
qed

text \<open>A failed installation may have changed the major number, of an empty registry only.\<close>

lemma mgr_ok_new_major:
  assumes "mgr_ok m" and "group_devs m = Some (a, g)" and "group_devs m' = Some (a, g\<lparr>major := mj\<rparr>)"
    and "major g \<noteq> 0 \<Longrightarrow> mj = major g" and "nodes m' = nodes m"
    and "live (mheap m') = live (mheap m)" and "heap_ok (mheap m')"
  shows "mgr_ok m' \<and> devs_of m' = devs_of m \<and> foreign m' = foreign m \<and> group_devs m' \<noteq> None"
proof -
  from assms(2,3) have "devs_of m' = devs_of m" "mgr_owned m' = mgr_owned m"
    by (simp_all add: devs_of_def mgr_owned_def)
  moreover from this(1) assms(1-4) have "devs_of m \<noteq> [] \<Longrightarrow> mj = major g" by (auto simp: mgr_ok_def)
  ultimately show ?thesis
    using assms by (cases "devs_of m = []") (auto simp: mgr_ok_def foreign_def)
qed

text \<open>Installing in an existing registry.\<close>

lemma install_group_cases:
  fixes m :: mgr and b :: u8
  assumes ok: "mgr_ok m" and devs: "group_devs m = Some (a, g)" and doc: "grants env" "dynamic_major env"
  obtains (present) d where "install_group env (Some b) m = Done (0, m)"
      and "lookup_dev (devs_of m) b = Some d"
  | (failed) m' where "install_group env (Some b) m = Done (-1, m')" and "lookup_dev (devs_of m) b = None"
      and "mgr_ok m'" and "devs_of m' = devs_of m" and "foreign m' = foreign m"
      and "\<not> install_works env g (brk (mheap m))" and "group_devs m' \<noteq> None"
      and "0 \<le> reg_err env g (brk (mheap m) + 8) \<Longrightarrow>
             queues m' = queues m \<and> regions m' = regions m \<and> group_devs m' = group_devs m"
  | (installed) m' d where "install_group env (Some b) m = Done (0, m')"
      and "lookup_dev (devs_of m) b = None"
      and "d = installed_dev env b (Suc (brk (mheap m))) (Suc (Suc (brk (mheap m))))"
      and "mgr_ok m'" and "devs_of m' = d # devs_of m" and "foreign m' = foreign m"
      and "queues m' = (if delay_wq d = None then queues m else dev_addr d # queues m)"
      and "regions m' = (if major g = 0 then reg_major env g (brk (mheap m) + 8) # regions m else regions m)"
      and "\<exists>g'. group_devs m' = Some (a, g') \<and> major g' = reg_major env g (brk (mheap m) + 8)"
      and "reg_major env g (brk (mheap m) + 8) \<noteq> 0" and "0 \<le> reg_err env g (brk (mheap m) + 8)"
proof -
  let ?k = "brk (mheap m) + 8" and ?x = "Suc (brk (mheap m))"
  note deref = deref_devs_ok [OF ok devs]
  from deref(3) obtain la where la: "group_devs_list g = Some (la, devs_of m)" by blast
  have desc: "\<not> GROUP_DEV_COUNT \<le> unat b"
    using unsigned_less [of b] by (simp add: GROUP_DEV_COUNT_def not_le word_unat_less_256)
  show thesis
  proof (cases "lookup_dev (devs_of m) b")
    case (Some d)
    then have "install_group env (Some b) m = Done (0, m)"
      using get_group_ok [OF ok] devs desc by (simp add: install_group_def)
    from present [OF this Some] show thesis .
  next
    case None
    from ok have minors: "distinct (map minor (devs_of m))" and cnt: "unat (used g) = length (devs_of m)"
      using devs by (simp_all add: mgr_ok_def)
    have "b \<notin> minor ` set (devs_of m)" using None by (simp add: dev_registry.lookup_None)
    then have "length (devs_of m) < 256" by (rule room_for_new [OF minors])
    with cnt have room: "\<not> GROUP_DEV_COUNT < unat (used g) + 1" by (simp add: GROUP_DEV_COUNT_def)
    have run: "install_group env (Some b) m = obind (raw_install_group env (uint b) m) (\<lambda>(gd, m).
        case gd of None \<Rightarrow> Done (-1, m)
        | Some d \<Rightarrow> obind (deref_devs m) (\<lambda>g. case group_devs_list g of None \<Rightarrow> Fault NullDeref
            | Some (la, ds) \<Rightarrow> Done (0, set_devs (g\<lparr>group_devs_list := Some (la, list_add d ds), used := used g + 1\<rparr>) m)))"
      using get_group_ok [OF ok] devs desc None deref(1) room by (simp add: install_group_def)
    show thesis
    proof (cases rule: raw_install_cases [OF ok devs doc(1), where b = b and ?thesis = thesis, case_names fl inst])
      case (fl m')
      from fl(2) mgr_ok_new_major [OF ok devs _ _ fl(3-5)]
      have "mgr_ok m' \<and> devs_of m' = devs_of m \<and> foreign m' = foreign m \<and> group_devs m' \<noteq> None" by blast
      with run fl None show thesis by (intro failed [of m']) auto
    next
      case (inst m' d)
      let ?mj = "reg_major env g ?k"
      note gd = inst(3)
      have nd: "nodes m' = (?mj, minor d) # nodes m" unfolding inst(2,4) by simp
      have mj: "?mj \<noteq> 0" "major g \<noteq> 0 \<Longrightarrow> ?mj = major g"
        using doc(2) inst(10) by (auto simp: reg_major_def reg_err_def dynamic_major_def)
      have d: "dev_ok d" "distinct (owned d)" "lookup_dev (devs_of m) (minor d) = None"
        using None unfolding inst(2) owned_installed by (simp_all add: installed_dev_ok)
      note add = add_dev_ok [OF ok devs d(3,1,2) inst(8) gd inst(7,9) nd mj]
      have "deref_devs m' = Done (g\<lparr>major := ?mj\<rparr>)" using gd deref(2) inst(7) by (simp add: deref_devs_def)
      moreover have "devs_of m' = devs_of m" using gd la by (simp add: devs_of_def)
      ultimately have "install_group env (Some b) m = Done (0, add_dev d m')"
        using run inst(1) la gd by (simp add: add_dev_def ptr_addr_def)
      moreover have "\<exists>g'. group_devs (add_dev d m') = Some (a, g') \<and> major g' = ?mj"
        using gd by (simp add: add_dev_def set_devs_def)
      moreover have "queues (add_dev d m') = queues m'" "regions (add_dev d m') = regions m'"
        using gd by (simp_all add: add_dev_def set_devs_def)
      moreover have "dev_addr d = ?x" "delay_wq d = None \<longleftrightarrow> \<not> workqueue_ok env ?x"
        unfolding inst(2) by (simp_all add: installed_dev_def fresh_dev_def blank_dev_def)
      ultimately show thesis using None inst(2,5,6,10) add mj by (intro installed [of "add_dev d m'" d]) auto
    qed
  qed
qed

end
