(* ===== verification/Tsm_Dev.thy ===== *)
theory Tsm_Dev
  imports Group_Manager_Laws Group_Machine
begin

text \<open>
  The module itself (\<open>tsm.c\<close>): its parameters, the control device through which groups are
  installed, loading and unloading; and the whole module at work, with the control device and
  all group devices sharing one heap.
\<close>

section \<open>State\<close>

definition DEFAULT_MAX_MESSAGE_SIZE :: u32 where "DEFAULT_MAX_MESSAGE_SIZE = 32"

definition DEFAULT_MAX_STORAGE_SIZE :: u32 where "DEFAULT_MAX_STORAGE_SIZE = 64"

definition default_params :: module_params where
  "default_params = \<lparr>max_message_size = DEFAULT_MAX_MESSAGE_SIZE, max_storage_size = DEFAULT_MAX_STORAGE_SIZE\<rparr>"

record tsm_env = mgr_env +
  register_region :: "u32 \<Rightarrow> int"
  tsm_region :: "int \<times> u32"

record tsm =
  tsm_mgr :: mgr
  tsm_params :: module_params
  tsm_major :: u32
  tsm_dev_class :: bool
  tsm_nodes :: "u32 list"
  tsm_regions :: "u32 list"

text \<open>The globals before the module is loaded, on a heap that holds objects of others.\<close>

definition TSM_MAJOR :: u32 where "TSM_MAJOR = 0"

definition boot :: "kheap \<Rightarrow> module_params \<Rightarrow> tsm" where
  "boot h p = \<lparr>tsm_mgr = \<lparr>mheap = h, group_devs = None, group_dev_class = False, nodes = [], regions = [], queues = []\<rparr>,
     tsm_params = p, tsm_major = TSM_MAJOR, tsm_dev_class = False, tsm_nodes = [], tsm_regions = []\<rparr>"

section \<open>Loading and unloading\<close>

definition tsm_init :: "('x) tsm_env_scheme \<Rightarrow> tsm \<Rightarrow> int \<times> tsm" where
  "tsm_init env t =
     (let (ret, mj) = (if tsm_major t \<noteq> 0 then (register_region env (tsm_major t), tsm_major t) else tsm_region env);
          t = t\<lparr>tsm_major := mj\<rparr> in
      if ret < 0 then (-1, t)
      else (0, t\<lparr>tsm_dev_class := True, tsm_nodes := mj # tsm_nodes t, tsm_regions := mj # tsm_regions t\<rparr>))"

definition tsm_exit :: "tsm \<Rightarrow> tsm outcome" where
  "tsm_exit t =
     obind (group_free_all (tsm_mgr t)) (\<lambda>(_, m).
     Done (t\<lparr>tsm_mgr := m, tsm_nodes := remove1 (tsm_major t) (tsm_nodes t), tsm_dev_class := False,
             tsm_regions := remove1 (tsm_major t) (tsm_regions t)\<rparr>))"

section \<open>The control device\<close>

definition tsm_dev_open :: "tsm \<Rightarrow> int \<times> tsm" where
  "tsm_dev_open t = (0, t)"

definition tsm_dev_release :: "tsm \<Rightarrow> int \<times> tsm" where
  "tsm_dev_release t = (0, t)"

text \<open>The bytes of an \<open>unsigned int\<close> in memory.\<close>

definition u32_bytes :: "u32 \<Rightarrow> u8 list" where
  "u32_bytes w = [ucast w, ucast (drop_bit 8 w), ucast (drop_bit 16 w), ucast (drop_bit 24 w)]"

text \<open>
  \<open>ubuf\<close> are the user bytes accessible at the pointer argument; \<open>struct group_t\<close> is one byte.
  For a command that is neither of the two, \<open>ret\<close> is returned without having been assigned.
\<close>

definition tsm_dev_ioctl ::
  "('x) tsm_env_scheme \<Rightarrow> tsm \<Rightarrow> u32 \<Rightarrow> u8 list \<Rightarrow> (int \<times> u8 list \<times> tsm) outcome" where
  "tsm_dev_ioctl env t cmd ubuf =
     (if cmd = IOCTL_INSTALL_GROUP then
        let (left, bytes) = copy_from_user ubuf 1 in
        if left \<noteq> 0 then Done (-1, ubuf, t)
        else obind (install_group env (Some (hd bytes)) (tsm_mgr t)) (\<lambda>(ret, m). Done (ret, ubuf, t\<lparr>tsm_mgr := m\<rparr>))
      else if cmd = IOCTL_MAX_MESSAGE_SIZE then
        let (left, ubuf) = copy_to_user ubuf (u32_bytes (max_message_size (tsm_params t))) in
        if left \<noteq> 0 then Done (-1, ubuf, t) else Done (0, ubuf, t)
      else Done (stack_garbage env (brk (mheap (tsm_mgr t))), ubuf, t))"

section \<open>The module at work\<close>

definition put_dev :: "group_dev \<Rightarrow> mgr \<Rightarrow> mgr" where
  "put_dev d' m = (case group_devs m of None \<Rightarrow> m
     | Some (a, g) \<Rightarrow> set_devs (g\<lparr>group_devs_list :=
         map_option (apsnd (map (\<lambda>d. if minor d = minor d' then d' else d))) (group_devs_list g)\<rparr>) m)"

datatype mevent =
    MTsm u32 "u8 list"          \<comment> \<open>\<open>ioctl\<close> on the control device\<close>
  | MDev u8 event               \<comment> \<open>a system call on an open group device, or one of its timers\<close>
  | MParams module_params       \<comment> \<open>the parameters are changed through \<open>/sys\<close>\<close>

datatype manswer = ATsm int "u8 list" | ADev answer | ANoDev | AUnit

definition mod_exec :: "('x) tsm_env_scheme \<Rightarrow> tsm \<Rightarrow> mevent \<Rightarrow> (manswer \<times> tsm) outcome" where
  "mod_exec env t me = (case me of
      MTsm cmd ubuf \<Rightarrow> obind (tsm_dev_ioctl env t cmd ubuf) (\<lambda>(r, ubuf, t). Done (ATsm r ubuf, t))
    | MDev b e \<Rightarrow> (case lookup_dev (devs_of (tsm_mgr t)) b of
        None \<Rightarrow> Done (ANoDev, t)
      | Some d \<Rightarrow>
          obind (gd_exec env \<lparr>heap = mheap (tsm_mgr t), dev = d, params = tsm_params t\<rparr> e) (\<lambda>(ob, s).
          Done (ADev ob, t\<lparr>tsm_mgr := (put_dev (dev s) (tsm_mgr t))\<lparr>mheap := heap s\<rparr>, tsm_params := params s\<rparr>)))
    | MParams p \<Rightarrow> Done (AUnit, t\<lparr>tsm_params := p\<rparr>))"

abbreviation mod_run :: "('x) tsm_env_scheme \<Rightarrow> tsm \<Rightarrow> mevent list \<Rightarrow>
    ((tsm \<times> mevent \<times> manswer) list \<times> tsm) outcome" where
  "mod_run env \<equiv> run_events (mod_exec env)"

end
