(* ===== verification/Group_Free_Laws.thy ===== *)
theory Group_Free_Laws
  imports Group_Manager_Laws
begin

text \<open>
  Destroying devices: \<open>group_free\<close> releases exactly what a device owns, and
  \<open>group_free_all\<close> leaves nothing of the registry behind.
\<close>

section \<open>One device\<close>

lemma free_messages_ok:
  assumes "list_all msg_ok ms" and "distinct (concat (map msg_owned ms))"
    and "set (concat (map msg_owned ms)) \<subseteq> live h"
  shows "free_messages ms h = Done (h\<lparr>live := live h - set (concat (map msg_owned ms))\<rparr>)"
  using assms
proof (induction ms arbitrary: h)
  case Nil
  then show ?case by simp
next
  case (Cons m ms)
  from Cons.prems(1) obtain a buf where dat: "data m = Some (a, buf)" by (auto simp: msg_ok_def split: option.splits)
  let ?h = "h\<lparr>live := live h - {a} - {msg_addr m}\<rparr>"
  from Cons.prems dat have step: "free_messages (m # ms) h = free_messages ms ?h"
    by (auto simp: kfree_def ptr_addr_def msg_owned_def)
  have "free_messages ms ?h = Done (?h\<lparr>live := live ?h - set (concat (map msg_owned ms))\<rparr>)"
    using Cons.prems dat by (intro Cons.IH) (auto simp: msg_owned_def)
  moreover have "live ?h - set (concat (map msg_owned ms)) = live h - set (concat (map msg_owned (m # ms)))"
    using dat by (auto simp: msg_owned_def)
  ultimately show ?case unfolding step by simp
qed

lemma free_members_ok:
  assumes dev: "dev_ok d" and mem: "mem_ok h d" and empty: "pendings d = []" "works d = []"
  shows "free_members d h = Done (h\<lparr>live := live h - set (owned d)\<rparr>)"
proof -
  from dev empty obtain a1 a2 a3 a4 a5 a6 ml where
    ptrs: "message_sem d = Some (a1, 1)" "message_list d = Some (a2, ml)" "wq_sem d = Some (a3, 1)"
      "delay_list d = Some (a4, [])" "pending_sem d = Some (a5, 1)" "pending_list d = Some (a6, [])"
    by (auto simp: dev_ok_def sem_free_def)
  let ?ms = "concat (map msg_owned ml)"
  from ptrs have own: "owned d = dev_addr d # a1 # a2 # a3 # a4 # a5 # a6 # ?ms" by (simp add: owned_def)
  with mem have dist: "distinct (dev_addr d # a1 # a2 # a3 # a4 # a5 # a6 # ?ms)"
    and sub: "set (dev_addr d # a1 # a2 # a3 # a4 # a5 # a6 # ?ms) \<subseteq> live h" by (simp_all add: mem_ok_def)
  let ?h = "h\<lparr>live := live h - {a3} - {a4} - {a5} - {a6} - {a1}\<rparr>"
  have revs: "set (concat (map msg_owned (rev ml))) = set ?ms" by simp
  have "distinct (concat (map msg_owned (rev ml))) \<longleftrightarrow> distinct ?ms"
    by (rule mset_eq_imp_distinct_iff) (simp add: mset_concat rev_map [symmetric])
  then have "distinct (concat (map msg_owned (rev ml)))" using dist by simp
  moreover have "set (concat (map msg_owned (rev ml))) \<subseteq> live ?h"
    unfolding revs using dist sub by (simp del: set_concat) blast
  moreover have "list_all msg_ok (rev ml)" using dev ptrs by (simp add: dev_ok_def)
  ultimately have msgs: "free_messages (rev ml) ?h = Done (?h\<lparr>live := live ?h - set ?ms\<rparr>)"
    using free_messages_ok [of "rev ml" ?h] revs by simp
  have sets: "live h - {a3} - {a4} - {a5} - {a6} - {a1} - set ?ms - {a2} - {dev_addr d} = live h - set (owned d)"
    unfolding own by auto
  show ?thesis unfolding sets [symmetric] using dist sub ptrs msgs
    by (auto simp add: free_members_def free_ptr_def free_pending_def list_empty_def kfree_def ptr_addr_def)
qed

lemma group_free_ok:
  assumes dev: "dev_ok d" and mem: "mem_ok h d" and wq: "delay_wq d = None \<Longrightarrow> pendings d = []"
  shows "group_free d h qs = Done (h\<lparr>live := live h - set (owned d)\<rparr>,
     if delay_wq d = None then qs else remove1 (dev_addr d) qs)"
proof -
  define e where "e = (if is_barrier_up d \<noteq> 0 then wake_up_all (clear_barrier d) else d)"
  have e: "dev_ok e" "owned e = owned d" "delay_wq e = delay_wq d" "pendings e = pendings d" "dev_addr e = dev_addr d"
    using dev by (auto simp: e_def wake_up_all_def clear_barrier_def dev_ok_clear_barrier [unfolded clear_barrier_def]
        owned_frame(4) [unfolded clear_barrier_def])
  with mem have mem_e: "mem_ok h e" by (simp add: mem_ok_def)
  show ?thesis
  proof (cases "delay_wq d = None")
    case True
    with e(1,3) have "works e = []" by (simp add: dev_ok_def armed_def)
    with True free_members_ok [OF e(1) mem_e] wq e show ?thesis
      by (simp add: group_free_def e_def [symmetric] Let_def)
  next
    case False
    let ?d = "upd_works [] (splice_pending e)" and ?h = "h\<lparr>live := live h - work_addr ` set (works e)\<rparr>"
    note flush = fflush_workqueue_ok [OF e(1) mem_e]
    note inv = fflush_workqueue_inv [OF e(1) mem_e flush]
    from e(1) have nn: "message_list e \<noteq> None" "pending_list e \<noteq> None" "delay_list e \<noteq> None"
      by (simp_all add: dev_ok_def)
    then have empty: "pendings ?d = []" "works ?d = []" "dev_addr ?d = dev_addr e"
      by (simp_all add: splice_pending_def upd_defs)
    from nn have "set (owned e) = set (owned ?d) \<union> work_addr ` set (works e)"
      by (auto simp: owned_def splice_pending_def upd_defs)
    then have sets: "live ?h - set (owned ?d) = live h - set (owned d)" using e(2) by auto
    from False e flush free_members_ok [OF _ _ empty(1,2)] inv empty(3) sets show ?thesis
      by (auto simp add: group_free_def e_def [symmetric] Let_def)
  qed
qed

text \<open>
  A device whose work queue could not be created keeps its delayed messages, and destroying
  it then runs into the loop over \<open>pending_list\<close>.
\<close>

lemma group_free_stuck:
  assumes dev: "dev_ok d" and mem: "mem_ok h d" and wq: "delay_wq d = None" and pend: "pendings d \<noteq> []"
  shows "group_free d h qs = Fault OutOfBounds"
proof -
  define e where "e = (if is_barrier_up d \<noteq> 0 then wake_up_all (clear_barrier d) else d)"
  have e: "wq_sem e = wq_sem d" "delay_list e = delay_list d" "pending_sem e = pending_sem d"
    "pending_list e = pending_list d" "delay_wq e = None"
    using wq by (auto simp: e_def wake_up_all_def clear_barrier_def)
  from dev pend obtain a3 a4 a5 a6 ws pl where
    ptrs: "wq_sem d = Some (a3, 1)" "delay_list d = Some (a4, ws)" "pending_sem d = Some (a5, 1)"
      "pending_list d = Some (a6, pl)" "pl \<noteq> []"
    by (auto simp: dev_ok_def sem_free_def)
  with mem have "a3 \<in> live h" "a4 \<in> live h" "a5 \<in> live h" "distinct [a3, a4, a5]"
    by (auto simp: mem_ok_def owned_def)
  with ptrs e show ?thesis
    by (simp add: group_free_def e_def [symmetric] Let_def free_members_def free_ptr_def free_pending_def
        list_empty_def kfree_def ptr_addr_def)
qed

section \<open>All devices\<close>

lemma free_devices_ok:
  fixes m :: mgr
  assumes "list_all dev_ok ds" and "heap_ok (mheap m)" and "distinct (concat (map owned ds))"
    and "set (concat (map owned ds)) \<subseteq> live (mheap m)"
    and "list_all (\<lambda>d. delay_wq d = None \<longrightarrow> pendings d = []) ds"
  shows "\<exists>m'. free_devices mj ds n m = Done (n - int (length ds), m')
    \<and> mheap m' = (mheap m)\<lparr>live := live (mheap m) - set (concat (map owned ds))\<rparr>
    \<and> group_devs m' = group_devs m \<and> regions m' = regions m
    \<and> nodes m' = foldl (\<lambda>ns d. remove1 (mj, minor d) ns) (nodes m) ds
    \<and> queues m' = foldl (\<lambda>qs d. if delay_wq d = None then qs else remove1 (dev_addr d) qs) (queues m) ds"
  using assms
proof (induction ds arbitrary: n m)
  case Nil
  then show ?case by simp
next
  case (Cons d ds)
  let ?h = "(mheap m)\<lparr>live := live (mheap m) - set (owned d)\<rparr>"
  let ?qs = "if delay_wq d = None then queues m else remove1 (dev_addr d) (queues m)"
  let ?m = "m\<lparr>nodes := remove1 (mj, minor d) (nodes m), mheap := ?h, queues := ?qs\<rparr>"
  from Cons.prems have "mem_ok (mheap m) d" by (auto simp: mem_ok_def)
  then have step: "group_free d (mheap m) (queues m) = Done (?h, ?qs)"
    using Cons.prems group_free_ok [of d "mheap m" "queues m"] by simp
  have sub: "set (concat (map owned ds)) \<subseteq> live (mheap ?m)" and heap: "heap_ok (mheap ?m)"
    using Cons.prems(2-4) by (simp, blast) (use Cons.prems(2) in \<open>auto simp: heap_ok_def\<close>)
  have pre: "list_all dev_ok ds" "distinct (concat (map owned ds))"
    "list_all (\<lambda>d. delay_wq d = None \<longrightarrow> pendings d = []) ds" using Cons.prems by simp_all
  note IH = Cons.IH [OF pre(1) heap pre(2) sub pre(3), of "n - 1"]
  have "live ?h - set (concat (map owned ds)) = live (mheap m) - set (concat (map owned (d # ds)))"
    by auto
  with IH step show ?case by (simp add: Let_def algebra_simps)
qed

lemma mset_foldl_remove1:
  "mset (foldl (\<lambda>ns d. remove1 (f d) ns) ns ds) = mset ns - mset (map f ds)"
  by (induction ds arbitrary: ns) (auto simp: diff_diff_add_mset)

lemma foldl_remove1_all: "foldl (\<lambda>ns d. remove1 (f d) ns) (map f ds) (rev ds) = []"
proof -
  have "mset (foldl (\<lambda>ns d. remove1 (f d) ns) (map f ds) (rev ds)) = {#}"
    by (simp add: mset_foldl_remove1)
  then show ?thesis by (metis mset_zero_iff)
qed

lemma foldl_if_filter:
  "foldl (\<lambda>qs d. if P d then qs else g d qs) qs ds = foldl (\<lambda>qs d. g d qs) qs (filter (\<lambda>d. \<not> P d) ds)"
  by (induction ds arbitrary: qs) auto

text \<open>The work queues that exist are those of the devices that have one.\<close>

definition queues_ok :: "mgr \<Rightarrow> bool" where
  "queues_ok m \<longleftrightarrow> queues m = map dev_addr (filter (\<lambda>d. delay_wq d \<noteq> None) (devs_of m))"

lemma group_free_all_ok:
  assumes ok: "mgr_ok m" and devs: "group_devs m \<noteq> None"
    and wq: "list_all (\<lambda>d. delay_wq d = None \<longrightarrow> pendings d = []) (devs_of m)"
  shows "\<exists>m'. group_free_all m = Done (0, m') \<and> live (mheap m') = foreign m \<and> nodes m' = []
    \<and> regions m' = remove1 (major (snd (the (group_devs m)))) (regions m) \<and> (queues_ok m \<longrightarrow> queues m' = [])"
proof -
  from devs obtain a g where g: "group_devs m = Some (a, g)" by auto
  note deref = deref_devs_ok [OF ok g]
  from deref(3) obtain la where la: "group_devs_list g = Some (la, devs_of m)" by blast
  let ?ds = "devs_of m" and ?own = "concat (map owned (devs_of m))"
  have own: "mgr_owned m = a # la # ?own" using g la by (simp add: mgr_owned_def)
  from ok have heap: "heap_ok (mheap m)" and dist: "distinct (a # la # ?own)" and sub: "set (a # la # ?own) \<subseteq> live (mheap m)"
    and devok: "list_all dev_ok ?ds" and cnt: "unat (used g) = length ?ds"
    and nd: "nodes m = map (\<lambda>d. (major g, minor d)) ?ds"
    using g unfolding own [symmetric] by (simp_all add: mgr_ok_def)
  have sets: "set (concat (map owned (rev ?ds))) = set ?own" by simp
  have "distinct (concat (map owned (rev ?ds))) \<longleftrightarrow> distinct ?own"
    by (rule mset_eq_imp_distinct_iff) (simp add: mset_concat rev_map [symmetric])
  with dist have dist': "distinct (concat (map owned (rev ?ds)))" by simp
  from sub have sub': "set (concat (map owned (rev ?ds))) \<subseteq> live (mheap m)" unfolding sets by auto
  have pre: "list_all dev_ok (rev ?ds)" "list_all (\<lambda>d. delay_wq d = None \<longrightarrow> pendings d = []) (rev ?ds)"
    using devok wq by simp_all
  from free_devices_ok [OF pre(1) heap dist' sub' pre(2), of "major g" "int (length ?ds)"]
  obtain m1 where run: "free_devices (major g) (rev ?ds) (int (length ?ds)) m = Done (int (length ?ds) - int (length (rev ?ds)), m1)"
    and h1: "mheap m1 = (mheap m)\<lparr>live := live (mheap m) - set ?own\<rparr>" and gd1: "group_devs m1 = group_devs m"
    and r1: "regions m1 = regions m"
    and n1: "nodes m1 = foldl (\<lambda>ns d. remove1 (major g, minor d) ns) (nodes m) (rev ?ds)"
    and q1: "queues m1 = foldl (\<lambda>qs d. if delay_wq d = None then qs else remove1 (dev_addr d) qs) (queues m) (rev ?ds)"
    unfolding sets by (elim exE conjE)
  have nil: "nodes m1 = []" unfolding n1 nd by (rule foldl_remove1_all)
  have qnil: "queues m1 = []" if "queues_ok m"
    using that foldl_remove1_all [of dev_addr "filter (\<lambda>d. delay_wq d \<noteq> None) ?ds"]
    unfolding q1 foldl_if_filter queues_ok_def by (simp add: rev_filter)
  have "(if list_empty ?ds then Done (int (length ?ds), m)
      else free_devices (major g) (rev ?ds) (int (length ?ds)) m) = Done (0, m1)"
    using run by (auto simp: list_empty_def)
  then have loop: "(if list_empty ?ds then Done (uint (used g), m)
      else free_devices (major g) (rev ?ds) (uint (used g)) m) = Done (0, m1)"
    unfolding cnt [symmetric] by (simp split: if_splits)
  have la1: "la \<in> live (mheap m1)" and a1: "a \<in> live (mheap m1) - {la}"
    using dist sub unfolding h1 by simp_all
  let ?h = "(mheap m1)\<lparr>live := live (mheap m1) - {la} - {a}\<rparr>"
  have "group_free_all m = Done (0, m1\<lparr>regions := remove1 (major g) (regions m1), group_dev_class := False, mheap := ?h\<rparr>)"
    using la1 a1 gd1 g la by (simp add: group_free_all_def deref(1) Let_def loop kfree_def ptr_addr_def)
  moreover have "live ?h = foreign m" unfolding foreign_def own h1 by auto
  ultimately show ?thesis using nil qnil r1 g by simp
qed

end
