(* ===== verification/Module_Laws.thy ===== *)
theory Module_Laws
  imports Tsm_Dev Group_Delivery Group_Free_Laws
begin

text \<open>
  The whole module: every event keeps the registry and all devices well formed, touches only
  the device it is addressed to, and the devices together behave as a set of mailboxes that
  is extended by installations.
\<close>

section \<open>Storing a device back\<close>

lemma devs_split:
  assumes "distinct (map minor ds)" and "lookup_dev ds b = Some d"
  obtains xs ys where "ds = xs @ d # ys" and "minor d = b"
    and "\<And>d'. minor d' = b \<Longrightarrow> map (\<lambda>c. if minor c = minor d' then d' else c) ds = xs @ d' # ys"
proof -
  from dev_registry.lookup_key [OF assms(2)] obtain xs ys where ds: "ds = xs @ d # ys" and b: "minor d = b"
    by (metis split_list)
  have "map (\<lambda>c. if minor c = minor d' then d' else c) ds = xs @ d' # ys" if "minor d' = b" for d'
  proof -
    have "minor c \<noteq> b" if "c \<in> set xs \<union> set ys" for c using assms(1) that b unfolding ds by (auto simp: rev_image_eqI)
    then have "map (\<lambda>c. if minor c = b then d' else c) xs = xs" "map (\<lambda>c. if minor c = b then d' else c) ys = ys"
      by (auto intro: map_idI)
    then show ?thesis using that b by (simp add: ds)
  qed
  with ds b show thesis using that by blast
qed

lemma device_mem_ok:
  assumes "mgr_ok m" and "lookup_dev (devs_of m) b = Some d"
  shows "dev_ok d" and "mem_ok (mheap m) d" and "minor d = b"
proof -
  from dev_registry.lookup_key [OF assms(2)] have d: "d \<in> set (devs_of m)" and "minor d = b" by simp_all
  then show "minor d = b" by simp
  from assms(1) d show "dev_ok d" by (simp add: mgr_ok_def list_all_iff)
  from d obtain a g where "group_devs m = Some (a, g)" by (cases "group_devs m") (auto simp: devs_of_def)
  then have own: "set (owned d) \<subseteq> set (mgr_owned m)" "distinct (mgr_owned m) \<Longrightarrow> distinct (owned d)"
    using d by (auto simp: mgr_owned_def devs_of_def distinct_concat_iff)
  with assms(1) show "mem_ok (mheap m) d" by (auto simp: mgr_ok_def mem_ok_def)
qed

lemma put_dev_ok:
  fixes m :: mgr
  assumes ok: "mgr_ok m" and look: "lookup_dev (devs_of m) b = Some d"
    and d': "dev_ok d'" "mem_ok h' d'" "identity d' = identity d"
    and frame: "live (mheap m) - set (owned d) \<subseteq> live h' - set (owned d')"
  defines "m' \<equiv> (put_dev d' m)\<lparr>mheap := h'\<rparr>"
  shows "mgr_ok m'" and "\<And>c. lookup_dev (devs_of m') c = (if c = b then Some d' else lookup_dev (devs_of m) c)"
    and "live (mheap m) - set (owned d) = live h' - set (owned d') \<Longrightarrow> foreign m' = foreign m"
    and "map identity (devs_of m') = map identity (devs_of m)"
proof -
  from ok have minors: "distinct (map minor (devs_of m))" by (simp add: mgr_ok_def)
  from devs_split [OF minors look] obtain xs ys where ds: "devs_of m = xs @ d # ys" and b: "minor d = b"
    and repl: "\<And>e. minor e = b \<Longrightarrow> map (\<lambda>c. if minor c = minor e then e else c) (devs_of m) = xs @ e # ys"
    by blast
  from d'(3) b have b': "minor d' = b" by (simp add: identity_def)
  from ds obtain a g where g: "group_devs m = Some (a, g)" by (cases "group_devs m") (auto simp: devs_of_def)
  from deref_devs_ok(3) [OF ok g] obtain la where la: "group_devs_list g = Some (la, devs_of m)" by blast
  have g': "group_devs m' = Some (a, g\<lparr>group_devs_list := Some (la, xs @ d' # ys)\<rparr>)"
    and rest: "nodes m' = nodes m" "mheap m' = h'"
    using g la repl [OF b'] by (simp_all add: m'_def put_dev_def set_devs_def)
  then have ds': "devs_of m' = xs @ d' # ys" by (simp add: devs_of_def)
  let ?o = "concat (map owned xs) @ concat (map owned ys)"
  have own: "mset (mgr_owned m) = mset (a # la # ?o @ owned d)" and own': "mset (mgr_owned m') = mset (a # la # ?o @ owned d')"
    using g g' la ds by (simp_all add: mgr_owned_def)
  note sets = mset_eq_setD [OF own] mset_eq_setD [OF own']
  note dists = mset_eq_imp_distinct_iff [OF own] mset_eq_imp_distinct_iff [OF own']
  from ok have dist: "distinct (a # la # ?o @ owned d)" and sub: "set (a # la # ?o @ owned d) \<subseteq> live (mheap m)"
    unfolding dists(1) [symmetric] sets(1) [symmetric] by (simp_all add: mgr_ok_def)
  have others: "set (a # la # ?o) \<subseteq> live (mheap m) - set (owned d)" using dist sub by auto
  have dist': "distinct (a # la # ?o @ owned d')"
    using dist d'(2) subset_trans [OF others frame] by (auto simp: mem_ok_def)
  have sub': "set (a # la # ?o @ owned d') \<subseteq> live h'"
    using d'(2) subset_trans [OF others frame] by (auto simp: mem_ok_def)
  have "map minor (devs_of m') = map minor (devs_of m)" using b b' by (simp add: ds ds')
  moreover from this have "map (\<lambda>d. (major g, minor d)) (devs_of m') = map (\<lambda>d. (major g, minor d)) (devs_of m)"
    by (metis (no_types, lifting) list.map_comp comp_def map_eq_conv ds ds' b b' map_append list.simps(9))
  ultimately show "mgr_ok m'"
    using ok d'(1,2) g g' dist' sub' minors ds ds'
    unfolding mgr_ok_def rest sets(2) dists(2) by (simp add: mem_ok_def)
  show "lookup_dev (devs_of m') c = (if c = b then Some d' else lookup_dev (devs_of m) c)" for c
  proof -
    have "b \<notin> minor ` set xs" using minors b unfolding ds by auto
    then have "find (\<lambda>d. minor d = b) xs = None" by (auto simp: find_None_iff)
    then show ?thesis using b b' by (auto simp: ds ds' lookup_dev_def find_append split: option.splits)
  qed
  show "foreign m' = foreign m" if eq: "live (mheap m) - set (owned d) = live h' - set (owned d')"
  proof -
    have "foreign m = live (mheap m) - set (owned d) - set (a # la # ?o)" "foreign m' = live h' - set (owned d') - set (a # la # ?o)"
      unfolding foreign_def sets rest by auto
    with eq show ?thesis by simp
  qed
  show "map identity (devs_of m') = map identity (devs_of m)" using d'(3) by (simp add: ds ds')
qed

section \<open>Installations\<close>

lemma init_group_devs_fails:
  assumes "mgr_ok m" and "group_devs m = None" and "\<not> (alloc_ok env (brk (mheap m)) \<and> alloc_ok env (Suc (brk (mheap m))))"
  shows "install_group env (Some b) m = Fault (if alloc_ok env (brk (mheap m)) then UseAfterFree else NullDeref)"
proof -
  have "\<not> GROUP_DEV_COUNT \<le> unat b" by (simp add: GROUP_DEV_COUNT_def not_le word_unat_less_256)
  moreover from assms(1) have "brk (mheap m) \<notin> live (mheap m)" by (simp add: mgr_ok_def notin_live)
  ultimately show ?thesis using assms(2,3)
    by (auto simp: install_group_def init_group_devs_def kmalloc_def kfree_def get_group_def deref_devs_def Let_def)
qed

lemma install_group_init:
  assumes "group_devs m = None" and "init_group_devs env m = Done (0, m0)" and "group_devs m0 \<noteq> None"
  shows "install_group env (Some b) m = install_group env (Some b) m0"
proof -
  have "\<not> GROUP_DEV_COUNT \<le> unat b" by (simp add: GROUP_DEV_COUNT_def not_le word_unat_less_256)
  with assms show ?thesis by (auto simp: install_group_def)
qed

lemma install_step:
  assumes ok: "mgr_ok m" and doc: "grants env" "dynamic_major env" and run: "install_group env (Some b) m = Done (r, m')"
  shows "mgr_ok m' \<and> foreign m' = foreign m \<and> group_devs m' \<noteq> None
    \<and> (r = 0 \<and> lookup_dev (devs_of m') b \<noteq> None \<or> r = -1 \<and> devs_of m' = devs_of m \<and> lookup_dev (devs_of m) b = None)
    \<and> (devs_of m' = devs_of m \<or> lookup_dev (devs_of m) b = None
         \<and> (\<exists>x y. devs_of m' = installed_dev env b x y # devs_of m))"
proof -
  have main: "mgr_ok m' \<and> foreign m' = foreign m0 \<and> group_devs m' \<noteq> None
    \<and> (r = 0 \<and> lookup_dev (devs_of m') b \<noteq> None \<or> r = -1 \<and> devs_of m' = devs_of m0 \<and> lookup_dev (devs_of m0) b = None)
    \<and> (devs_of m' = devs_of m0 \<or> lookup_dev (devs_of m0) b = None
         \<and> (\<exists>x y. devs_of m' = installed_dev env b x y # devs_of m0))"
    if m0: "mgr_ok m0" "group_devs m0 = Some (a, g)" "install_group env (Some b) m0 = Done (r, m')" for m0 a g
  proof (cases rule: install_group_cases [OF m0(1,2) doc, of b, case_names present failed installed])
    case (present d)
    with m0 show ?thesis by simp
  next
    case (failed m1)
    with m0 show ?thesis by simp
  next
    case (installed m1 d)
    have "minor d = b" unfolding installed(3) by simp
    then have "lookup_dev (d # devs_of m0) b = Some d" by (simp add: lookup_dev_def)
    with installed m0(3) show ?thesis by auto
  qed
  show ?thesis
  proof (cases "group_devs m")
    case None
    have alloc: "alloc_ok env (brk (mheap m)) \<and> alloc_ok env (Suc (brk (mheap m)))"
      using init_group_devs_fails [OF ok None] run by force
    from init_group_devs_ok [OF ok None] alloc obtain m0 where init: "init_group_devs env m = Done (0, m0)"
      and m0: "mgr_ok m0" "group_devs m0 \<noteq> None" "devs_of m0 = []" "foreign m0 = foreign m" by blast
    moreover have "devs_of m = []" using None by (simp add: devs_of_def)
    ultimately show ?thesis using main [OF m0(1)] run install_group_init [OF None init m0(2), of b] by force
  next
    case (Some ag)
    with main [OF ok _ run] show ?thesis by (cases ag) simp
  qed
qed

section \<open>Every event\<close>

text \<open>What the kernel is documented to guarantee, for the whole module.\<close>

definition kernel_docs :: "('x) tsm_env_scheme \<Rightarrow> bool" where
  "kernel_docs env \<longleftrightarrow> zero_size_ptr env \<and> grants env \<and> dynamic_major env"

definition dev_sys :: "tsm \<Rightarrow> group_dev \<Rightarrow> gsys" where
  "dev_sys t d = \<lparr>heap = mheap (tsm_mgr t), dev = d, params = tsm_params t\<rparr>"

text \<open>The mailbox of a group: empty as long as the group is not installed.\<close>

definition box_of :: "u8 \<Rightarrow> tsm \<Rightarrow> (u8 list) mailbox" where
  "box_of b t = (case lookup_dev (devs_of (tsm_mgr t)) b of
      None \<Rightarrow> \<lparr>avail = [], held = []\<rparr>
    | Some d \<Rightarrow> gd_abs (dev_sys t d))"

definition op_at :: "u8 \<Rightarrow> tsm \<Rightarrow> mevent \<Rightarrow> manswer \<Rightarrow> (u8 list) mb_op" where
  "op_at b t me ob = (case (me, ob) of
      (MDev c e, ADev ob) \<Rightarrow> if c = b
        then (case lookup_dev (devs_of (tsm_mgr t)) b of None \<Rightarrow> Idle | Some d \<Rightarrow> op_of (dev_sys t d) e ob)
        else Idle
    | _ \<Rightarrow> Idle)"

lemma gd_abs_dev: "dev s = dev s' \<Longrightarrow> gd_abs s = gd_abs s'"
  by (simp add: gd_abs_def)

text \<open>The two ways in which an event acts on the registry.\<close>

lemma mod_exec_cases:
  assumes ok: "mgr_ok (tsm_mgr t)" and run: "mod_exec env t me = Done (ob, t')"
  obtains (same) "tsm_mgr t' = tsm_mgr t" and "\<And>b. op_at b t me ob = Idle" and "\<And>o'. ob \<noteq> ADev o'"
  | (install) b r where "install_group env (Some b) (tsm_mgr t) = Done (r, tsm_mgr t')"
      and "\<And>b. op_at b t me ob = Idle" and "\<And>o'. ob \<noteq> ADev o'"
  | (device) b d e o' s where "me = MDev b e" and "ob = ADev o'" and "lookup_dev (devs_of (tsm_mgr t)) b = Some d"
      and "gsys_ok (dev_sys t d)" and "gd_exec env (dev_sys t d) e = Done (o', s)"
      and "tsm_mgr t' = (put_dev (dev s) (tsm_mgr t))\<lparr>mheap := heap s\<rparr>"
proof (cases me)
  case (MTsm cmd ubuf)
  with run obtain r ubuf' where io: "tsm_dev_ioctl env t cmd ubuf = Done (r, ubuf', t')" and ob: "ob = ATsm r ubuf'"
    by (auto simp: mod_exec_def obind_eq_Done)
  then have "tsm_mgr t' = tsm_mgr t \<or> (\<exists>b r. install_group env (Some b) (tsm_mgr t) = Done (r, tsm_mgr t'))"
    by (auto simp: tsm_dev_ioctl_def obind_eq_Done Let_def split: if_splits prod.splits)
  with MTsm ob show thesis using same install by (auto simp: op_at_def)
next
  case (MDev b e)
  show thesis
  proof (cases "lookup_dev (devs_of (tsm_mgr t)) b")
    case None
    with MDev run show thesis using same by (auto simp: mod_exec_def op_at_def)
  next
    case (Some d)
    then have "gsys_ok (dev_sys t d)" using device_mem_ok [OF ok Some] by (simp add: gsys_ok_def dev_sys_def)
    with MDev Some run show thesis using device [of b e _ d]
      by (auto simp: mod_exec_def obind_eq_Done dev_sys_def [symmetric])
  qed
next
  case (MParams p)
  with run show thesis using same by (auto simp: mod_exec_def op_at_def)
qed

lemma device_event:
  assumes ok: "mgr_ok (tsm_mgr t)" and look: "lookup_dev (devs_of (tsm_mgr t)) b = Some d"
    and sys: "gsys_ok (dev_sys t d)" and run: "gd_exec env (dev_sys t d) e = Done (ob, s)"
  defines "m' \<equiv> (put_dev (dev s) (tsm_mgr t))\<lparr>mheap := heap s\<rparr>"
  shows "mgr_ok m'" and "\<And>c. lookup_dev (devs_of m') c = (if c = b then Some (dev s) else lookup_dev (devs_of (tsm_mgr t)) c)"
    and "\<not> read_faulted ob \<Longrightarrow> foreign m' = foreign (tsm_mgr t)"
    and "map identity (devs_of m') = map identity (devs_of (tsm_mgr t))"
proof -
  from gd_exec_inv [OF sys run] have d': "dev_ok (dev s)" "mem_ok (heap s) (dev s)" by (simp_all add: gsys_ok_def)
  have id: "identity (dev s) = identity d" using exec_identity [OF sys run] by (simp add: dev_sys_def)
  have frame: "live (mheap (tsm_mgr t)) - set (owned d) \<subseteq> live (heap s) - set (owned (dev s))"
    using exec_unowned_mono [OF sys run] by (simp add: unowned_def dev_sys_def)
  note put = put_dev_ok [OF ok look d' id frame]
  show "mgr_ok m'" and "\<And>c. lookup_dev (devs_of m') c = (if c = b then Some (dev s) else lookup_dev (devs_of (tsm_mgr t)) c)"
    and "map identity (devs_of m') = map identity (devs_of (tsm_mgr t))"
    unfolding m'_def using put(1,2,4) by simp_all
  show "foreign m' = foreign (tsm_mgr t)" if "\<not> read_faulted ob"
    unfolding m'_def using put(3) exec_no_leak [OF sys run that] by (simp add: unowned_def dev_sys_def)
qed

lemma mod_exec_inv:
  assumes "kernel_docs env" and "mgr_ok (tsm_mgr t)" and "mod_exec env t me = Done (ob, t')"
  shows "mgr_ok (tsm_mgr t')"
  using assms(2,3)
proof (cases rule: mod_exec_cases)
  case (install b r)
  with assms install_step [of "tsm_mgr t" env b r] show ?thesis by (simp add: kernel_docs_def)
next
  case (device b d e o' s)
  with assms device_event(1) show ?thesis by metis
qed (use assms in simp)

lemma box_of_installed:
  assumes "tsm_mgr t' = m'" and "devs_of m' = devs_of (tsm_mgr t) \<or> lookup_dev (devs_of (tsm_mgr t)) b = None
     \<and> (\<exists>x y. devs_of m' = installed_dev env b x y # devs_of (tsm_mgr t))"
  shows "box_of c t' = box_of c t"
  using assms
  by (cases "b = c") (auto simp: box_of_def lookup_dev_def dev_sys_def gd_abs_def split: option.splits)

lemma mod_exec_box:
  assumes "kernel_docs env" and "mgr_ok (tsm_mgr t)" and "mod_exec env t me = Done (ob, t')"
  shows "box_of b t' = mb_step (box_of b t) (op_at b t me ob)"
  using assms(2,3)
proof (cases rule: mod_exec_cases)
  case same
  then show ?thesis by (simp add: box_of_def dev_sys_def gd_abs_def split: option.splits)
next
  case (install c r)
  with assms install_step [of "tsm_mgr t" env c r "tsm_mgr t'"] box_of_installed [of t' "tsm_mgr t'" t c env b]
  show ?thesis by (simp add: kernel_docs_def)
next
  case (device c d e o' s)
  note ev = device_event(2) [OF assms(2) device(3,4,5)]
  show ?thesis
  proof (cases "c = b")
    case True
    from assms(1) have "zero_size_ptr env" by (simp add: kernel_docs_def)
    from gd_exec_abs [OF device(4) this device(5)] True device ev show ?thesis
      by (simp add: box_of_def op_at_def gd_abs_def dev_sys_def)
  next
    case False
    with device ev show ?thesis by (simp add: box_of_def op_at_def gd_abs_def dev_sys_def split: option.splits)
  qed
qed

interpretation mod_mbox: mailbox_impl "mod_exec env" "\<lambda>t. kernel_docs env \<and> mgr_ok (tsm_mgr t)" "box_of b" "op_at b"
  for env :: "'x tsm_env_scheme" and b :: u8
  by unfold_locales (auto dest: mod_exec_inv mod_exec_box)

lemma mod_exec_count:
  assumes "kernel_docs env" and "mgr_ok (tsm_mgr t)" and "mod_exec env t me = Done (ob, t')"
  shows "length (devs_of (tsm_mgr t)) \<le> length (devs_of (tsm_mgr t'))"
  using assms(2,3)
proof (cases rule: mod_exec_cases)
  case (install b r)
  with assms install_step [of "tsm_mgr t" env b r "tsm_mgr t'"] show ?thesis by (auto simp: kernel_docs_def)
next
  case (device b d e o' s)
  with device_event(4) [OF assms(2) device(3-5)] show ?thesis by (metis length_map order_refl)
qed simp

interpretation mod_count: monotone_system "mod_exec env" "\<lambda>t. kernel_docs env \<and> mgr_ok (tsm_mgr t)"
  "\<lambda>t. length (devs_of (tsm_mgr t))" for env :: "'x tsm_env_scheme"
  by unfold_locales (auto dest: mod_exec_count)

section \<open>Kernel objects outside the heap\<close>

text \<open>A kernel in which registrations succeed and the uninitialised \<open>err\<close> happens not to be negative.\<close>

definition calm :: "('x) tsm_env_scheme \<Rightarrow> bool" where
  "calm env \<longleftrightarrow> (\<forall>a. workqueue_ok env a) \<and> (\<forall>k. 0 \<le> fst (chrdev_region env k)) \<and> (\<forall>k. 0 \<le> stack_garbage env k)"

definition kreg_ok :: "mgr \<Rightarrow> bool" where
  "kreg_ok m \<longleftrightarrow> queues_ok m \<and> list_all (\<lambda>d. delay_wq d \<noteq> None) (devs_of m)
     \<and> regions m = (case group_devs m of None \<Rightarrow> [] | Some (a, g) \<Rightarrow> if major g = 0 then [] else [major g])"

lemma calm_reg_err: "calm env \<Longrightarrow> 0 \<le> reg_err env g k"
  by (simp add: calm_def reg_err_def)

lemma install_kreg:
  assumes ok: "mgr_ok m" and reg: "kreg_ok m" and doc: "grants env" "dynamic_major env" "calm env"
    and run: "install_group env (Some b) m = Done (r, m')"
  shows "kreg_ok m'"
proof -
  have main: "kreg_ok m'" if m0: "mgr_ok m0" "kreg_ok m0" "group_devs m0 = Some (a, g)"
    "install_group env (Some b) m0 = Done (r, m')" for m0 a g
  proof (cases rule: install_group_cases [OF m0(1,3) doc(1,2), of b, case_names present failed installed])
    case (present d)
    with m0 show ?thesis by simp
  next
    case (failed m1)
    with m0 calm_reg_err [OF doc(3)] show ?thesis by (simp add: kreg_ok_def queues_ok_def)
  next
    case (installed m1 d)
    have "delay_wq d \<noteq> None" unfolding installed(3) using doc(3) by (simp add: installed_dev_def calm_def)
    with installed m0 show ?thesis
      by (auto simp: kreg_ok_def queues_ok_def reg_major_def)
  qed
  show ?thesis
  proof (cases "group_devs m")
    case None
    have alloc: "alloc_ok env (brk (mheap m)) \<and> alloc_ok env (Suc (brk (mheap m)))"
      using init_group_devs_fails [OF ok None] run by force
    from init_group_devs_ok [OF ok None] alloc obtain m0 where init: "init_group_devs env m = Done (0, m0)"
      and m0: "mgr_ok m0" "group_devs m0 \<noteq> None" "devs_of m0 = []" by blast
    from alloc init None have "queues m0 = queues m" "regions m0 = regions m"
      and gd: "\<exists>a g. group_devs m0 = Some (a, g) \<and> major g = 0"
      by (auto simp: init_group_devs_def kmalloc_def Let_def)
    with reg None m0(3) have "kreg_ok m0" by (auto simp: kreg_ok_def queues_ok_def devs_of_def)
    with main [OF m0(1)] gd run install_group_init [OF None init m0(2), of b] show ?thesis by force
  next
    case (Some ag)
    with main [OF ok reg _ run] show ?thesis by (cases ag) simp
  qed
qed

lemma put_dev_kreg:
  assumes "map identity (devs_of m') = map identity (devs_of m)" and "kreg_ok m" and "m' = (put_dev d' m)\<lparr>mheap := h\<rparr>"
  shows "kreg_ok m'"
proof -
  have frame: "queues m' = queues m" "regions m' = regions m"
    "(case group_devs m' of None \<Rightarrow> [] | Some (a, g) \<Rightarrow> if major g = 0 then [] else [major g])
     = (case group_devs m of None \<Rightarrow> [] | Some (a, g) \<Rightarrow> if major g = 0 then [] else [major g])"
    unfolding assms(3) by (auto simp: put_dev_def set_devs_def split: option.splits)
  have q: "map dev_addr (filter (\<lambda>d. delay_wq d \<noteq> None) ds)
      = map (fst \<circ> snd) (filter (\<lambda>i. \<not> snd (snd i)) (map identity ds))"
    "list_all (\<lambda>d. delay_wq d \<noteq> None) ds \<longleftrightarrow> list_all (\<lambda>i. \<not> snd (snd i)) (map identity ds)" for ds
    by (induction ds) (auto simp: identity_def)
  show ?thesis using assms(2) unfolding kreg_ok_def queues_ok_def frame q assms(1) .
qed

lemma mod_exec_kreg:
  assumes doc: "kernel_docs env" "calm env" and ok: "mgr_ok (tsm_mgr t)" and reg: "kreg_ok (tsm_mgr t)"
    and run: "mod_exec env t me = Done (ob, t')"
  shows "kreg_ok (tsm_mgr t')"
  using ok run
proof (cases rule: mod_exec_cases)
  case (install b r)
  from doc(1) install_kreg [OF ok reg _ _ doc(2) install(1)] show ?thesis by (simp add: kernel_docs_def)
next
  case (device b d e o' s)
  with put_dev_kreg [OF device_event(4) [OF ok device(3-5)] reg refl] show ?thesis by simp
qed (use reg in simp)

fun mod_faulted :: "manswer \<Rightarrow> bool" where
  "mod_faulted (ADev ob) = read_faulted ob"
| "mod_faulted ob = False"

lemma mod_exec_foreign:
  assumes doc: "kernel_docs env" and ok: "mgr_ok (tsm_mgr t)"
    and run: "mod_exec env t me = Done (ob, t')" and quiet: "\<not> mod_faulted ob"
  shows "foreign (tsm_mgr t') = foreign (tsm_mgr t)"
  using ok run
proof (cases rule: mod_exec_cases)
  case (install b r)
  with doc install_step [OF ok, of env b r "tsm_mgr t'"] show ?thesis by (simp add: kernel_docs_def)
next
  case (device b d e o' s)
  with quiet device_event(3) [OF ok device(3-5)] show ?thesis by simp
qed simp

text \<open>What a run keeps when no read faults.\<close>

interpretation mod_reg: event_system "mod_exec env"
  "\<lambda>t. kernel_docs env \<and> calm env \<and> mgr_ok (tsm_mgr t) \<and> kreg_ok (tsm_mgr t)" for env :: "'x tsm_env_scheme"
  by unfold_locales (auto dest: mod_exec_inv mod_exec_kreg)

lemma mod_run_foreign:
  assumes "kernel_docs env" and "mgr_ok (tsm_mgr s)" and "mod_run env s es = Done (tr, t)"
    and "list_all (\<lambda>(u, e, ob). \<not> mod_faulted ob) tr"
  shows "foreign (tsm_mgr t) = foreign (tsm_mgr s)"
  using assms
proof (induction es arbitrary: s tr)
  case (Cons e es)
  then obtain ob u tr' where step: "mod_exec env s e = Done (ob, u)"
    and run: "mod_run env u es = Done (tr', t)" and tr: "tr = (s, e, ob) # tr'"
    unfolding run_events_Cons_Done by blast
  with Cons.IH [OF Cons.prems(1) mod_exec_inv [OF Cons.prems(1,2) step] run]
    mod_exec_foreign [OF Cons.prems(1,2) step] Cons.prems(4) show ?case by simp
qed simp

section \<open>Isolation\<close>

fun addressed :: "u8 \<Rightarrow> mevent \<Rightarrow> bool" where
  "addressed b (MDev c e) = (c = b)"
| "addressed b me = False"

lemma mod_exec_isolated:
  assumes doc: "kernel_docs env" and ok: "mgr_ok (tsm_mgr t)"
    and run: "mod_exec env t me = Done (ob, t')" and other: "\<not> addressed b me"
    and there: "lookup_dev (devs_of (tsm_mgr t)) b = Some d"
  shows "lookup_dev (devs_of (tsm_mgr t')) b = Some d"
  using ok run
proof (cases rule: mod_exec_cases)
  case (install c r)
  from doc install_step [OF ok _ _ install(1)] there show ?thesis
    by (auto simp: kernel_docs_def lookup_dev_def)
next
  case (device c e' e o' s)
  with other there device_event(2) [OF ok device(3-5)] show ?thesis by auto
qed (use there in simp)

lemma mod_run_isolated:
  assumes "kernel_docs env" and "mgr_ok (tsm_mgr s)" and "mod_run env s es = Done (tr, t)"
    and "list_all (\<lambda>e. \<not> addressed b e) es" and "lookup_dev (devs_of (tsm_mgr s)) b = Some d"
  shows "lookup_dev (devs_of (tsm_mgr t)) b = Some d"
  using assms
proof (induction es arbitrary: s tr)
  case (Cons e es)
  then obtain ob u tr' where step: "mod_exec env s e = Done (ob, u)"
    and run: "mod_run env u es = Done (tr', t)"
    unfolding run_events_Cons_Done by blast
  with Cons.IH [OF Cons.prems(1) mod_exec_inv [OF Cons.prems(1,2) step] run]
    mod_exec_isolated [OF Cons.prems(1,2) step] Cons.prems(4,5) show ?case by simp
qed simp

section \<open>Runs complete\<close>

lemma install_group_total:
  assumes "mgr_ok m" and "grants env" and "dynamic_major env" and "\<forall>k. alloc_ok env k"
  shows "\<exists>r m'. install_group env desc m = Done (r, m')"
proof (cases desc)
  case None
  then show ?thesis by (simp add: install_group_def)
next
  case (Some b)
  have main: "\<exists>r m'. install_group env (Some b) m0 = Done (r, m')"
    if "mgr_ok m0" "group_devs m0 \<noteq> None" for m0
  proof -
    from that(2) obtain a g where "group_devs m0 = Some (a, g)" by auto
    then show ?thesis by (cases rule: install_group_cases [OF that(1) _ assms(2,3), of a g b]) auto
  qed
  show ?thesis
  proof (cases "group_devs m")
    case None
    from init_group_devs_ok [OF assms(1) None] assms(4) obtain m0 where
      "init_group_devs env m = Done (0, m0)" "mgr_ok m0" "group_devs m0 \<noteq> None" by blast
    with install_group_init [OF None] main Some show ?thesis by metis
  qed (use main [OF assms(1)] Some in simp)
qed

lemma install_succeeds:
  assumes "mgr_ok m" and "grants env" and "dynamic_major env" and "\<forall>k. alloc_ok env k"
    and "\<forall>k. 0 \<le> fst (chrdev_region env k)" and "\<forall>k. 0 \<le> stack_garbage env k"
  shows "\<exists>m'. install_group env (Some b) m = Done (0, m') \<and> lookup_dev (devs_of m') b \<noteq> None"
proof -
  have main: "\<exists>m'. install_group env (Some b) m0 = Done (0, m')" if m0: "mgr_ok m0" "group_devs m0 \<noteq> None" for m0
  proof -
    from m0(2) obtain a g where g: "group_devs m0 = Some (a, g)" by auto
    have "install_works env g (brk (mheap m0))" using assms(4-6) by (simp add: install_works_def reg_err_def)
    then show ?thesis by (cases rule: install_group_cases [OF m0(1) g assms(2,3), of b]) auto
  qed
  have "\<exists>m'. install_group env (Some b) m = Done (0, m')"
  proof (cases "group_devs m")
    case None
    from init_group_devs_ok [OF assms(1) None] assms(4) obtain m0 where
      "init_group_devs env m = Done (0, m0)" "mgr_ok m0" "group_devs m0 \<noteq> None" by blast
    with install_group_init [OF None] main show ?thesis by metis
  qed (use main [OF assms(1)] in simp)
  then obtain m' where run: "install_group env (Some b) m = Done (0, m')" by blast
  with install_step [OF assms(1-3) run] show ?thesis by auto
qed

fun mod_sane :: "mevent \<Rightarrow> bool" where
  "mod_sane (MDev b e) = sane_params e"
| "mod_sane (MParams p) = (0 < max_message_size p)"
| "mod_sane me = True"

lemma gd_exec_done:
  assumes "gsys_ok s" and "\<forall>n. 0 < n \<longrightarrow> n < usable_size env n" and "0 < max_message_size (params s)"
    and "sane_params e"
  shows "\<exists>ob u. gd_exec env s e = Done (ob, u) \<and> 0 < max_message_size (params u)"
proof -
  from gd_run_total [OF assms(1-3), of "[e]"] assms(4) obtain ob u where step: "gd_exec env s e = Done (ob, u)"
    by (auto simp: obind_eq_Done)
  have "0 < max_message_size (params u)"
  proof (cases "is_params e")
    case True
    with assms(4) step show ?thesis by (cases e) (auto simp: gd_exec_def)
  next
    case False
    with exec_params [OF step] assms(3) show ?thesis by simp
  qed
  with step show ?thesis by blast
qed

lemma mod_exec_done:
  assumes doc: "kernel_docs env" "\<forall>k. alloc_ok env k" "\<forall>n. 0 < n \<longrightarrow> n < usable_size env n"
    and ok: "mgr_ok (tsm_mgr t)" and size: "0 < max_message_size (tsm_params t)" and sane: "mod_sane me"
  shows "\<exists>ob t'. mod_exec env t me = Done (ob, t') \<and> 0 < max_message_size (tsm_params t')"
proof (cases me)
  case (MTsm cmd ubuf)
  have "\<exists>r m'. install_group env (Some b) (tsm_mgr t) = Done (r, m')" for b
    using doc by (intro install_group_total [OF ok]) (simp_all add: kernel_docs_def)
  then have "\<exists>r ubuf' t'. tsm_dev_ioctl env t cmd ubuf = Done (r, ubuf', t') \<and> tsm_params t' = tsm_params t"
    using size by (fastforce simp: tsm_dev_ioctl_def obind_eq_Done Let_def split: prod.splits)
  with MTsm size show ?thesis by (auto simp: mod_exec_def)
next
  case (MDev b e)
  show ?thesis
  proof (cases "lookup_dev (devs_of (tsm_mgr t)) b")
    case None
    with MDev size show ?thesis by (simp add: mod_exec_def)
  next
    case (Some d)
    have sys: "gsys_ok (dev_sys t d)" using device_mem_ok [OF ok Some] by (simp add: gsys_ok_def dev_sys_def)
    have "0 < max_message_size (params (dev_sys t d))" using size by (simp add: dev_sys_def)
    from gd_exec_done [OF sys doc(3) this, of e] sane MDev obtain ob u where
      "gd_exec env (dev_sys t d) e = Done (ob, u)" "0 < max_message_size (params u)" by auto
    with MDev Some show ?thesis by (simp add: mod_exec_def dev_sys_def)
  qed
next
  case (MParams p)
  with sane show ?thesis by (simp add: mod_exec_def)
qed

lemma mod_run_total:
  assumes "kernel_docs env" and "\<forall>k. alloc_ok env k" and "\<forall>n. 0 < n \<longrightarrow> n < usable_size env n"
    and "mgr_ok (tsm_mgr s)" and "0 < max_message_size (tsm_params s)" and "list_all mod_sane es"
  shows "\<exists>tr t. mod_run env s es = Done (tr, t)"
  using assms
proof (induction es arbitrary: s)
  case (Cons e es)
  then obtain ob u where step: "mod_exec env s e = Done (ob, u)" "0 < max_message_size (tsm_params u)"
    using mod_exec_done [of env s e] by auto
  with Cons.IH [OF Cons.prems(1-3) mod_exec_inv [OF Cons.prems(1,4) step(1)]] Cons.prems(6) show ?case by auto
qed simp

section \<open>The life of the module\<close>

lemma boot_ok:
  assumes "heap_ok h"
  shows "mgr_ok (tsm_mgr (boot h p))" and "kreg_ok (tsm_mgr (boot h p))" and "foreign (tsm_mgr (boot h p)) = live h"
  using assms by (simp_all add: boot_def mgr_ok_def mgr_owned_def devs_of_def kreg_ok_def queues_ok_def foreign_def)

definition control :: "tsm \<Rightarrow> u32 \<times> u32 list \<times> u32 list" where
  "control t = (tsm_major t, tsm_nodes t, tsm_regions t)"

lemma mod_exec_control: "mod_exec env t me = Done (ob, t') \<Longrightarrow> control t' = control t"
  by (auto simp: mod_exec_def tsm_dev_ioctl_def control_def obind_eq_Done Let_def
      split: mevent.splits option.splits if_splits prod.splits)

lemma mod_run_control: "mod_run env s es = Done (tr, t) \<Longrightarrow> control t = control s"
proof (induction es arbitrary: s tr)
  case (Cons e es)
  then show ?case unfolding run_events_Cons_Done by (metis mod_exec_control)
qed simp

text \<open>Unloading frees everything the module allocated and unregisters everything it registered.\<close>

lemma tsm_exit_clean:
  assumes ok: "mgr_ok (tsm_mgr t)" and reg: "kreg_ok (tsm_mgr t)"
    and ctl: "control t = (mj, [mj], [mj])"
  shows "\<exists>u. tsm_exit t = Done u \<and> live (mheap (tsm_mgr u)) = foreign (tsm_mgr t) \<and> nodes (tsm_mgr u) = []
    \<and> regions (tsm_mgr u) = [] \<and> queues (tsm_mgr u) = [] \<and> tsm_nodes u = [] \<and> tsm_regions u = []"
proof (cases "group_devs (tsm_mgr t)")
  case None
  with ok reg have "nodes (tsm_mgr t) = []" "regions (tsm_mgr t) = []" "queues (tsm_mgr t) = []"
    "foreign (tsm_mgr t) = live (mheap (tsm_mgr t))"
    by (simp_all add: mgr_ok_def kreg_ok_def queues_ok_def devs_of_def foreign_def mgr_owned_def)
  with None ctl show ?thesis by (simp add: tsm_exit_def group_free_all_def control_def)
next
  case (Some ag)
  then obtain a g where g: "group_devs (tsm_mgr t) = Some (a, g)" by (cases ag) auto
  have wq: "list_all (\<lambda>d. delay_wq d = None \<longrightarrow> pendings d = []) (devs_of (tsm_mgr t))"
    using reg by (auto simp: kreg_ok_def list_all_iff)
  have "group_devs (tsm_mgr t) \<noteq> None" using g by simp
  from group_free_all_ok [OF ok this wq] obtain m' where
    run: "group_free_all (tsm_mgr t) = Done (0, m')" and lv: "live (mheap m') = foreign (tsm_mgr t)" "nodes m' = []"
    and rg: "regions m' = remove1 (major g) (regions (tsm_mgr t))" and q: "queues_ok (tsm_mgr t) \<longrightarrow> queues m' = []"
    unfolding g by auto
  have "regions m' = []" unfolding rg using reg g by (simp add: kreg_ok_def)
  with run lv q reg ctl show ?thesis by (simp add: tsm_exit_def control_def kreg_ok_def)
qed

text \<open>Only reads can fault.\<close>

fun reading :: "mevent \<Rightarrow> bool" where
  "reading (MDev b (EvRead ubuf len)) = True"
| "reading me = False"

lemma mod_exec_quiet: "mod_exec env t me = Done (ob, t') \<Longrightarrow> \<not> reading me \<Longrightarrow> \<not> mod_faulted ob"
  by (cases me; cases ob; auto simp: mod_exec_def gd_exec_def group_flush_def obind_eq_Done
      split: option.splits event.splits)

lemma mod_run_quiet:
  assumes "mod_run env s es = Done (tr, t)" and "list_all (\<lambda>e. \<not> reading e) es"
  shows "list_all (\<lambda>(u, e, ob). \<not> mod_faulted ob) tr"
  using assms
proof (induction es arbitrary: s tr)
  case (Cons e es)
  then obtain ob u tr' where "mod_exec env s e = Done (ob, u)" "mod_run env u es = Done (tr', t)" "tr = (s, e, ob) # tr'"
    unfolding run_events_Cons_Done by blast
  with Cons mod_exec_quiet show ?case by fastforce
qed simp

end
