(* ===== verification/Install_Race.thy ===== *)
theory Install_Race
  imports Group_Manager_Laws
begin

text \<open>
  Two processes that install groups at the same time. \<open>install_group\<close> takes no lock: the test whether
  the registry exists, the check whether the group exists and its installation are separate
  steps, between which another process may run.
\<close>

text \<open>The first step; a result if the call returns already.\<close>

definition install_begin :: "('x) mgr_env_scheme \<Rightarrow> u8 \<Rightarrow> mgr \<Rightarrow> (int option \<times> mgr) outcome" where
  "install_begin env desc m =
     (if GROUP_DEV_COUNT \<le> unat desc then Done (Some (-1), m)
      else
        obind (if group_devs m = None then init_group_devs env m else Done (0, m)) (\<lambda>(_, m).
        obind (get_group (uint desc) m) (\<lambda>gd.
        if gd \<noteq> None then Done (Some 0, m)
        else
          obind (deref_devs m) (\<lambda>g.
          if GROUP_DEV_COUNT < unat (used g) + 1 then Done (Some (-1), m) else Done (None, m)))))"

text \<open>The second step.\<close>

definition install_finish :: "('x) mgr_env_scheme \<Rightarrow> u8 \<Rightarrow> mgr \<Rightarrow> (int \<times> mgr) outcome" where
  "install_finish env desc m =
     obind (raw_install_group env (uint desc) m) (\<lambda>(gd, m).
     case gd of
       None \<Rightarrow> Done (-1, m)
     | Some d \<Rightarrow>
         obind (deref_devs m) (\<lambda>g.
         case group_devs_list g of
           None \<Rightarrow> Fault NullDeref
         | Some (la, ds) \<Rightarrow>
             Done (0, set_devs (g\<lparr>group_devs_list := Some (la, list_add d ds), used := used g + 1\<rparr>) m)))"

lemma install_group_steps:
  "install_group env (Some b) m = obind (install_begin env b m) (\<lambda>(r, m).
     case r of Some r \<Rightarrow> Done (r, m) | None \<Rightarrow> install_finish env b m)"
  unfolding install_group_def install_begin_def install_finish_def
  by (auto simp: obind_if obind_assoc case_prod_beta Let_def intro!: arg_cong [of _ _ "obind _"] ext split: option.splits)

text \<open>The check finds no group and room for one.\<close>

lemma install_begin_free:
  assumes "mgr_ok m" and "group_devs m = Some (a, g)" and "lookup_dev (devs_of m) b = None"
  shows "install_begin env b m = Done (None, m)"
proof -
  from assms have minors: "distinct (map minor (devs_of m))" and cnt: "unat (used g) = length (devs_of m)"
    by (simp_all add: mgr_ok_def)
  have "b \<notin> minor ` set (devs_of m)" using assms(3) by (simp add: dev_registry.lookup_None)
  then have "length (devs_of m) < 256" by (rule room_for_new [OF minors])
  with cnt deref_devs_ok(1) [OF assms(1,2)] get_group_ok [OF assms(1)] assms(2,3) show ?thesis
    by (simp add: install_begin_def GROUP_DEV_COUNT_def not_le word_unat_less_256)
qed

text \<open>The installation adds a device, whether or not there is one already.\<close>

lemma install_finish_adds:
  fixes m :: mgr
  assumes ok: "mgr_ok m" and devs: "group_devs m = Some (a, g)" and "grants env" and "install_works env g (brk (mheap m))"
  shows "\<exists>m' d. install_finish env b m = Done (0, m') \<and> devs_of m' = d # devs_of m \<and> minor d = b"
proof (cases rule: raw_install_cases [OF ok devs assms(3), where b = b, case_names fl inst])
  case (inst m' d)
  from deref_devs_ok(2,3) [OF ok devs] obtain la where la: "a \<in> live (mheap m)" "group_devs_list g = Some (la, devs_of m)"
    by blast
  let ?g = "g\<lparr>major := reg_major env g (brk (mheap m) + 8)\<rparr>"
  from inst(3,7) la(1) have "deref_devs m' = Done ?g" by (simp add: deref_devs_def)
  with inst(1) la(2) have "install_finish env b m =
      Done (0, set_devs (?g\<lparr>group_devs_list := Some (la, d # devs_of m), used := used g + 1\<rparr>) m')"
    by (simp add: install_finish_def list_add_def)
  moreover have "minor d = b" using inst(2) by simp
  ultimately show ?thesis using inst(3) by (simp add: set_devs_def devs_of_def)
qed (use assms(4) in simp)

section \<open>The registry itself\<close>

text \<open>What follows the test of \<open>group_devs\<close>; \<open>missing\<close> is what the test has found.\<close>

definition install_tested :: "('x) mgr_env_scheme \<Rightarrow> u8 \<Rightarrow> bool \<Rightarrow> mgr \<Rightarrow> (int \<times> mgr) outcome" where
  "install_tested env desc missing m =
     obind (if missing then init_group_devs env m else Done (0, m)) (\<lambda>(_, m).
     obind (get_group (uint desc) m) (\<lambda>gd.
     if gd \<noteq> None then Done (0, m)
     else
       obind (deref_devs m) (\<lambda>g.
       if GROUP_DEV_COUNT < unat (used g) + 1 then Done (-1, m) else install_finish env desc m)))"

lemma install_group_tested: "install_group env (Some b) m = install_tested env b (group_devs m = None) m"
proof -
  have "\<not> GROUP_DEV_COUNT \<le> unat b" using unsigned_less [of b] by (simp add: GROUP_DEV_COUNT_def not_le word_unat_less_256)
  then show ?thesis unfolding install_group_def install_tested_def install_finish_def by simp
qed

lemma install_tested_missing:
  "init_group_devs env m = Done (r, m') \<Longrightarrow> install_tested env b True m = install_tested env b False m'"
  by (simp add: install_tested_def)

text \<open>Device nodes that the registry does not know stay where they are.\<close>

abbreviation (input) with_nodes :: "(u32 \<times> u8) list \<Rightarrow> mgr \<Rightarrow> mgr" where
  "with_nodes ns m \<equiv> m\<lparr>nodes := nodes m @ ns\<rparr>"

lemma deref_devs_nodes [simp]: "deref_devs (m\<lparr>nodes := ns\<rparr>) = deref_devs m"
  by (simp add: deref_devs_def split: option.split)

lemma install_register_nodes:
  fixes m :: mgr
  shows "install_register env desc name nd (with_nodes ns m)
     = obind (install_register env desc name nd m) (\<lambda>(gd, m'). Done (gd, with_nodes ns m'))"
  by (cases "deref_devs m")
    (auto simp: install_register_def set_devs_def Let_def obind_assoc case_prod_beta intro!: arg_cong2 [where f = obind])

lemma heap_nodes: "m\<lparr>nodes := ns, mheap := h\<rparr> = m\<lparr>mheap := h, nodes := ns\<rparr>" for m :: mgr
  by (cases m) simp

lemma raw_install_nodes:
  fixes m :: mgr
  shows "raw_install_group env desc (with_nodes ns m)
     = obind (raw_install_group env desc m) (\<lambda>(gd, m'). Done (gd, with_nodes ns m'))"
proof -
  have reg: "install_register env desc name nd (m\<lparr>mheap := h, nodes := nodes m @ ns\<rparr>)
      = obind (install_register env desc name nd (m\<lparr>mheap := h\<rparr>)) (\<lambda>(gd, m'). Done (gd, with_nodes ns m'))" for name nd h
    using install_register_nodes [where m = "m\<lparr>mheap := h\<rparr>" and ns = ns] by simp
  show ?thesis
    unfolding raw_install_group_def alloc_or_def Let_def
    by (auto simp: obind_assoc heap_nodes reg split: prod.splits option.splits sum.splits)
qed

lemma install_tested_nodes:
  fixes m :: mgr
  shows "install_tested env b False (with_nodes ns m)
     = obind (install_tested env b False m) (\<lambda>(r, m'). Done (r, with_nodes ns m'))"
proof -
  have raw: "raw_get_group desc (m\<lparr>nodes := ns'\<rparr>) = raw_get_group desc m" for desc ns' by (simp add: raw_get_group_def)
  have found: "get_group desc (m\<lparr>nodes := ns'\<rparr>) = get_group desc m" for desc ns'
    unfolding get_group_def raw deref_devs_nodes ..
  have "install_finish env b (with_nodes ns m) = obind (install_finish env b m) (\<lambda>(r, m'). Done (r, with_nodes ns m'))"
  proof (cases "raw_install_group env (uint b) m")
    case (Done x)
    obtain gd m' where x: "x = (gd, m')" by (cases x)
    show ?thesis unfolding install_finish_def raw_install_nodes Done x obind.simps prod.case
      by (cases gd; cases "deref_devs m'") (simp_all add: set_devs_def split: option.splits)
  qed (simp_all add: install_finish_def raw_install_nodes)
  note fin = this
  show ?thesis
  proof (cases "get_group (uint b) m")
    case (Done gd)
    then show ?thesis
      by (cases gd; cases "deref_devs m") (simp_all add: install_tested_def found fin)
  qed (simp_all add: install_tested_def found)
qed

text \<open>
  The first two installations: the second process has found no registry, but makes one only after
  the first process has finished.
\<close>

lemma second_registry:
  assumes ok: "mgr_ok m" and none: "group_devs m = None" and doc: "grants env" "dynamic_major env"
    and works: "\<forall>k. alloc_ok env k" "\<forall>k. 0 \<le> fst (chrdev_region env k)" "\<forall>k. 0 \<le> stack_garbage env k"
  shows "\<exists>m1 d m2 e. install_tested env b True m = Done (0, m1) \<and> devs_of m1 = [d] \<and> minor d = b
    \<and> install_tested env c True m1 = Done (0, m2) \<and> devs_of m2 = [e] \<and> minor e = c \<and> e \<noteq> d
    \<and> set (owned d) \<subseteq> live (mheap m2) - set (mgr_owned m2) \<and> set (nodes m1) \<subseteq> set (nodes m2)"
proof -
  have ok_works: "install_works env g k" for g k using works by (simp add: install_works_def reg_err_def)
  have installs: "\<exists>m' d. install_tested env b' True m0 = Done (0, m') \<and> mgr_ok m' \<and> devs_of m' = [d] \<and> minor d = b'
      \<and> foreign m' = foreign m0 \<and> dev_addr d \<ge> brk (mheap m0)"
    if m0: "mgr_ok m0" "group_devs m0 = None" for m0 b'
  proof -
    from init_group_devs_ok [OF m0] works(1) obtain m1 where
      init: "init_group_devs env m0 = Done (0, m1)" and m1: "mgr_ok m1" "group_devs m1 \<noteq> None" "devs_of m1 = []" "foreign m1 = foreign m0"
        "brk (mheap m1) = brk (mheap m0) + 2" by blast
    from m1(2) obtain a g where g: "group_devs m1 = Some (a, g)" by auto
    have "(group_devs m1 = None) = False" using m1(2) by blast
    then have eq: "install_tested env b' True m0 = install_group env (Some b') m1"
      by (simp only: install_group_tested install_tested_missing [OF init])
    show ?thesis
    proof (cases rule: install_group_cases [OF m1(1) g doc, of b', case_names present failed installed])
      case (present d)
      with m1(3) show ?thesis by (simp add: lookup_dev_def)
    next
      case (failed m')
      with ok_works show ?thesis by simp
    next
      case (installed m' d)
      have "minor d = b'" "dev_addr d \<ge> brk (mheap m0)" using installed(3) m1(5) by simp_all
      with installed eq m1 show ?thesis by auto
    qed
  qed
  from installs [OF ok none] obtain m1 d where
    m1: "install_tested env b True m = Done (0, m1)" "mgr_ok m1" "devs_of m1 = [d]" "minor d = b" by blast
  \<comment> \<open>what the second process sees of the first one's work is only the heap and the node\<close>
  let ?n = "m1\<lparr>group_devs := None, nodes := []\<rparr>"
  have n: "mgr_ok ?n" "group_devs ?n = None" using m1(2) by (auto simp: mgr_ok_def mgr_owned_def devs_of_def)
  from installs [OF n, of c] obtain m2 e where
    m2: "install_tested env c True ?n = Done (0, m2)" "mgr_ok m2" "devs_of m2 = [e]" "minor e = c" and keep: "foreign m2 = foreign ?n"
    and fresh: "dev_addr e \<ge> brk (mheap m1)" by auto
  from init_group_devs_ok [OF n] works(1) obtain m' where init: "init_group_devs env ?n = Done (0, m')" by blast
  have init1: "init_group_devs env m1 = Done (0, m'\<lparr>nodes := nodes m1\<rparr>)" and "nodes m' = []"
    using init works(1) by (auto simp: init_group_devs_def kmalloc_def Let_def)
  then have "install_tested env c True m1 = obind (install_tested env c False m') (\<lambda>(r, m'). Done (r, with_nodes (nodes m1) m'))"
    using install_tested_nodes [of env c m' "nodes m1"] by (simp add: install_tested_missing [OF init1])
  then have second: "install_tested env c True m1 = Done (0, with_nodes (nodes m1) m2)"
    using m2(1) by (simp add: install_tested_missing [OF init])
  have own: "set (owned d) \<subseteq> live (mheap m1)" using m1(2,3) by (auto simp: mgr_ok_def mgr_owned_def devs_of_def split: option.splits)
  then have "set (owned d) \<subseteq> foreign m2" unfolding keep by (simp add: foreign_def mgr_owned_def)
  moreover have "e \<noteq> d"
    using fresh own m1(2) by (auto simp: mgr_ok_def heap_ok_def owned_def)
  ultimately show ?thesis
    using m1 m2 second
    by (intro exI [of _ m1] exI [of _ d] exI [of _ "with_nodes (nodes m1) m2"] exI [of _ e])
      (auto simp: foreign_def mgr_owned_def devs_of_def)
qed

end
