(* ===== verification/Module_Properties.thy ===== *)
theory Module_Properties
  imports Module_Laws Install_Race Example_Device
begin

text \<open>
  The theorems about the registry of groups, the control device and the life of the module,
  with a concrete kernel to apply them to.
\<close>

section \<open>A concrete module\<close>

definition ex_tsm_env :: tsm_env where
  "ex_tsm_env = \<lparr>alloc_ok = (\<lambda>_. True), usable_size = (\<lambda>n. if n = 0 then 0 else Suc n), msecs_to_jiffies = ucast,
     jiffies_to_msecs = ucast, workqueue_ok = (\<lambda>_. True), chrdev_region = (\<lambda>_. (0, 240)),
     stack_garbage = (\<lambda>_. 0), register_region = (\<lambda>_. 0), tsm_region = (0, 241)\<rparr>"

definition ex_mgr :: mgr where
  "ex_mgr = \<lparr>mheap = \<lparr>brk = 0, live = {}\<rparr>, group_devs = None, group_dev_class = False,
     nodes = [], regions = [], queues = []\<rparr>"

definition ex_tsm :: tsm where
  "ex_tsm = \<lparr>tsm_mgr = ex_mgr, tsm_params = default_params, tsm_major = 0, tsm_dev_class = False,
     tsm_nodes = [], tsm_regions = []\<rparr>"

lemma ex_docs [simp]: "kernel_docs ex_tsm_env" "calm ex_tsm_env" "grants ex_tsm_env" "dynamic_major ex_tsm_env"
  "\<forall>k. alloc_ok ex_tsm_env k" "\<forall>n. 0 < n \<longrightarrow> n < usable_size ex_tsm_env n"
  by (simp_all add: kernel_docs_def zero_size_ptr_def grants_def dynamic_major_def calm_def ex_tsm_env_def)

lemma ex_mgr_ok [simp]: "mgr_ok ex_mgr" "kreg_ok ex_mgr" "foreign ex_mgr = {}" "devs_of ex_mgr = []"
  by (simp_all add: mgr_ok_def ex_mgr_def mgr_owned_def devs_of_def heap_ok_def kreg_ok_def queues_ok_def foreign_def)

lemma ex_tsm_mgr [simp]: "tsm_mgr ex_tsm = ex_mgr" "0 < max_message_size (tsm_params ex_tsm)"
  by (simp_all add: ex_tsm_def default_params_def DEFAULT_MAX_MESSAGE_SIZE_def)

definition mod_holds_after :: "('x) tsm_env_scheme \<Rightarrow> tsm \<Rightarrow> mevent list \<Rightarrow>
    ((tsm \<times> mevent \<times> manswer) list \<Rightarrow> tsm \<Rightarrow> bool) \<Rightarrow> bool" where
  "mod_holds_after env s es P = (case mod_run env s es of Done (tr, t) \<Rightarrow> P tr t | _ \<Rightarrow> False)"

lemma ex_holds_afterI:
  assumes "list_all mod_sane es" and "\<And>tr t. mod_run ex_tsm_env ex_tsm es = Done (tr, t) \<Longrightarrow> P tr t"
  shows "mod_holds_after ex_tsm_env ex_tsm es P"
proof -
  have "\<exists>tr t. mod_run ex_tsm_env ex_tsm es = Done (tr, t)"
    using assms(1) by (intro mod_run_total) simp_all
  with assms(2) show ?thesis by (auto simp: mod_holds_after_def)
qed

definition ex_mod_events :: "mevent list" where
  "ex_mod_events = [MTsm IOCTL_INSTALL_GROUP [7], MDev 7 (EvWrite [1, 2] 2), MTsm IOCTL_INSTALL_GROUP [9],
     MDev 9 (EvWrite [3] 1), MTsm IOCTL_INSTALL_GROUP [7], MDev 7 EvFlush]"

lemma ex_mod_sane [simp]: "list_all mod_sane ex_mod_events"
  by (simp add: ex_mod_events_def)

section \<open>Groups\<close>

text \<open>C5: The module is a set of independent mailboxes. In every run of the module, with any number of
  groups being installed and used at the same time on one heap, the group with a given
  descriptor behaves as a mailbox that only the events on its own device operate; installing
  it, or anything done to other groups, leaves its messages alone.\<close>

theorem group_is_mailbox:
  assumes "kernel_docs env" and "mgr_ok (tsm_mgr s)" and "mod_run env s es = Done (tr, t)"
  shows "box_of b t = mb_run (box_of b s) (map (\<lambda>(u, e, ob). op_at b u e ob) tr)"
  by (rule mod_mbox.run_refines [OF conjI [OF assms(1,2)] assms(3)])

theorem group_is_mailbox_witness:
  "mod_holds_after ex_tsm_env ex_tsm ex_mod_events
     (\<lambda>tr t. box_of 7 t = mb_run (box_of 7 ex_tsm) (map (\<lambda>(u, e, ob). op_at 7 u e ob) tr))"
proof (rule ex_holds_afterI)
  fix tr t assume "mod_run ex_tsm_env ex_tsm ex_mod_events = Done (tr, t)"
  with group_is_mailbox [OF ex_docs(1)] show
    "box_of 7 t = mb_run (box_of 7 ex_tsm) (map (\<lambda>(u, e, ob). op_at 7 u e ob) tr)" by simp
qed simp

text \<open>Isolation. A run in which no event is addressed to a group leaves the device of that group
  exactly as it is, whatever happens to the other groups and to the heap they share.\<close>

theorem group_isolation:
  assumes "kernel_docs env" and "mgr_ok (tsm_mgr s)" and "mod_run env s es = Done (tr, t)"
    and "list_all (\<lambda>e. \<not> addressed b e) es" and "lookup_dev (devs_of (tsm_mgr s)) b = Some d"
  shows "lookup_dev (devs_of (tsm_mgr t)) b = Some d"
  by (rule mod_run_isolated [OF assms])

text \<open>The state in which group 7 has just been installed.\<close>

lemma ex_install: "\<exists>m. install_group ex_tsm_env (Some 7) ex_mgr = Done (0, m) \<and> mgr_ok m
    \<and> (\<exists>x y. devs_of m = [installed_dev ex_tsm_env 7 x y])
    \<and> (\<exists>a g. group_devs m = Some (a, g) \<and> major g = 240)"
proof -
  have none: "group_devs ex_mgr = None" by (simp add: ex_mgr_def)
  from init_group_devs_ok [OF ex_mgr_ok(1) none, of ex_tsm_env] obtain m0 where
    init: "init_group_devs ex_tsm_env ex_mgr = Done (0, m0)" and m0: "mgr_ok m0" "group_devs m0 \<noteq> None" "devs_of m0 = []"
    by auto
  from init have maj: "\<exists>a g. group_devs m0 = Some (a, g) \<and> major g = 0"
    by (auto simp: init_group_devs_def kmalloc_def Let_def ex_tsm_env_def)
  then obtain a g where g: "group_devs m0 = Some (a, g)" "major g = 0" by blast
  have works: "install_works ex_tsm_env g (brk (mheap m0))"
    by (simp add: install_works_def calm_reg_err)
  note step = install_group_init [OF none init m0(2), of 7]
  show ?thesis
  proof (cases rule: install_group_cases [OF m0(1) g(1) ex_docs(3,4), of 7, case_names present failed installed])
    case (present d)
    with m0(3) show ?thesis by (simp add: lookup_dev_def)
  next
    case (failed m')
    with works show ?thesis by simp
  next
    case (installed m' d)
    have "reg_major ex_tsm_env g (brk (mheap m0) + 8) = 240" using g(2) by (simp add: reg_major_def ex_tsm_env_def)
    with installed(9) have "\<exists>a g. group_devs m' = Some (a, g) \<and> major g = 240" by auto
    with installed(1,3,4,5) step m0(3) show ?thesis by auto
  qed
qed

theorem group_isolation_witness:
  "\<exists>s d tr t. lookup_dev (devs_of (tsm_mgr s)) 7 = Some d
     \<and> mod_run ex_tsm_env s [MTsm IOCTL_INSTALL_GROUP [9], MDev 9 (EvWrite [3] 1)] = Done (tr, t)
     \<and> lookup_dev (devs_of (tsm_mgr t)) 7 = Some d"
proof -
  from ex_install obtain m x y where m: "mgr_ok m" "devs_of m = [installed_dev ex_tsm_env 7 x y]" by blast
  let ?s = "ex_tsm\<lparr>tsm_mgr := m\<rparr>" and ?es = "[MTsm IOCTL_INSTALL_GROUP [9], MDev 9 (EvWrite [3] 1)]"
  have look: "lookup_dev (devs_of (tsm_mgr ?s)) 7 = Some (installed_dev ex_tsm_env 7 x y)"
    using m(2) by (simp add: lookup_dev_def)
  have "\<exists>tr t. mod_run ex_tsm_env ?s ?es = Done (tr, t)"
    using m(1) ex_tsm_mgr(2) by (intro mod_run_total) (simp_all del: ex_tsm_mgr)
  then obtain tr t where run: "mod_run ex_tsm_env ?s ?es = Done (tr, t)" by blast
  from group_isolation [OF ex_docs(1) _ run, of 7, OF _ _ look] m(1) have
    "lookup_dev (devs_of (tsm_mgr t)) 7 = Some (installed_dev ex_tsm_env 7 x y)" by simp
  with look run show ?thesis by blast
qed

section \<open>Installation\<close>



text \<open>C31: Two installations of one group at the same time. install_group checks whether the group exists
  and installs it in two steps without a lock. A process that finds the group installed does
  nothing more; but when two processes both make the check first, both install, both are told that
  they succeeded, and the registry has two devices with the same descriptor.\<close>

theorem install_race:
  assumes "mgr_ok m" and "grants env" and "dynamic_major env" and "\<forall>k. alloc_ok env k"
    and "\<forall>k. 0 \<le> fst (chrdev_region env k)" and "\<forall>k. 0 \<le> stack_garbage env k"
    and "group_devs m = Some (a, g)" and "lookup_dev (devs_of m) b = None"
  shows "\<exists>m1 m2 d1 d2. install_begin env b m = Done (None, m) \<and> install_finish env b m = Done (0, m1)
    \<and> install_begin env b m1 = Done (Some 0, m1)
    \<and> install_finish env b m1 = Done (0, m2) \<and> devs_of m2 = d2 # d1 # devs_of m \<and> minor d1 = b \<and> minor d2 = b
    \<and> \<not> mgr_ok m2"
proof -
  have works: "install_works env g' k" for g' k using assms(4-6) by (simp add: install_works_def reg_err_def)
  note check = install_begin_free [OF assms(1,7,8), of env]
  have fin: "install_group env (Some b) m = install_finish env b m" by (simp add: install_group_steps check)
  show ?thesis
  proof (cases rule: install_group_cases [OF assms(1,7,2,3), of b, case_names present failed installed])
    case (present d)
    with assms(8) show ?thesis by simp
  next
    case (failed m')
    with works show ?thesis by simp
  next
    case (installed m1 d1)
    from installed(9) obtain g1 where g1: "group_devs m1 = Some (a, g1)" by blast
    from install_finish_adds [OF installed(4) g1 assms(2) works, of b] obtain m2 d2 where
      m2: "install_finish env b m1 = Done (0, m2)" "devs_of m2 = d2 # devs_of m1" "minor d2 = b" by blast
    have d1: "minor d1 = b" using installed(3) by simp
    have "\<not> mgr_ok m2" using m2(2,3) installed(5) d1 by (simp add: mgr_ok_def)
    moreover have "lookup_dev (devs_of m1) b \<noteq> None" using installed(5) d1 by (simp add: lookup_dev_def)
    then have "install_begin env b m1 = Done (Some 0, m1)"
      using get_group_ok [OF installed(4)] g1
      by (simp add: install_begin_def GROUP_DEV_COUNT_def not_le word_unat_less_256)
    moreover have "install_finish env b m = Done (0, m1)" using fin installed(1) by simp
    ultimately show ?thesis using check installed(5) m2 d1 by simp
  qed
qed

theorem install_race_witness:
  "\<exists>m m1 m2. install_begin ex_tsm_env 9 m = Done (None, m) \<and> install_finish ex_tsm_env 9 m = Done (0, m1)
     \<and> install_finish ex_tsm_env 9 m1 = Done (0, m2) \<and> map minor (devs_of m2) = [9, 9, 7]"
proof -
  from ex_install obtain m x y a g where m: "mgr_ok m" "devs_of m = [installed_dev ex_tsm_env 7 x y]"
    and g: "group_devs m = Some (a, g)" by blast
  have env: "\<forall>k. 0 \<le> fst (chrdev_region ex_tsm_env k)" "\<forall>k. 0 \<le> stack_garbage ex_tsm_env k"
    by (simp_all add: ex_tsm_env_def)
  have "lookup_dev (devs_of m) 9 = None" using m(2) by (simp add: lookup_dev_def)
  from install_race [OF m(1) ex_docs(3,4,5) env g this] obtain m1 m2 d1 d2 where
    "install_begin ex_tsm_env 9 m = Done (None, m)" "install_finish ex_tsm_env 9 m = Done (0, m1)"
    "install_finish ex_tsm_env 9 m1 = Done (0, m2)" "devs_of m2 = d2 # d1 # devs_of m" "minor d1 = 9" "minor d2 = 9"
    by blast
  with m(2) show ?thesis by (intro exI [of _ m] exI [of _ m1] exI [of _ m2]) simp
qed

text \<open>C32: The registry is made twice. install_group tests whether the registry exists and makes it without a
  lock. When a second process makes the test before the first installation and goes on after it,
  both are told that they succeeded, but the registry that remains knows only the group of the
  second one: the first group has its device node and its memory, which no part of the module can
  reach any more.\<close>

theorem registry_overwritten:
  assumes "mgr_ok m" and "group_devs m = None" and "grants env" and "dynamic_major env" and "\<forall>k. alloc_ok env k"
    and "\<forall>k. 0 \<le> fst (chrdev_region env k)" and "\<forall>k. 0 \<le> stack_garbage env k" and "b \<noteq> c"
  shows "\<exists>m1 d m2 e. install_group env (Some b) m = Done (0, m1) \<and> devs_of m1 = [d] \<and> minor d = b
    \<and> install_tested env c (group_devs m = None) m1 = Done (0, m2) \<and> devs_of m2 = [e] \<and> minor e = c
    \<and> lookup_dev (devs_of m2) b = None \<and> set (nodes m1) \<subseteq> set (nodes m2)
    \<and> set (owned d) \<subseteq> live (mheap m2) - set (mgr_owned m2)"
proof -
  from second_registry [OF assms(1-7), of b c] obtain m1 d m2 e where
    "install_tested env b True m = Done (0, m1)" "devs_of m1 = [d]" "minor d = b"
    "install_tested env c True m1 = Done (0, m2)" "devs_of m2 = [e]" "minor e = c"
    "set (owned d) \<subseteq> live (mheap m2) - set (mgr_owned m2)" "set (nodes m1) \<subseteq> set (nodes m2)" by blast
  with assms(2,8) show ?thesis
    by (intro exI [of _ m1] exI [of _ d] exI [of _ m2] exI [of _ e]) (simp add: install_group_tested lookup_dev_def)
qed

theorem registry_overwritten_witness:
  "\<exists>m1 m2. install_group ex_tsm_env (Some 7) ex_mgr = Done (0, m1) \<and> install_tested ex_tsm_env 9 True m1 = Done (0, m2)
     \<and> map minor (devs_of m1) = [7] \<and> map minor (devs_of m2) = [9]"
proof -
  have none: "group_devs ex_mgr = None" by (simp add: ex_mgr_def)
  have env: "\<forall>k. 0 \<le> fst (chrdev_region ex_tsm_env k)" "\<forall>k. 0 \<le> stack_garbage ex_tsm_env k"
    by (simp_all add: ex_tsm_env_def)
  from registry_overwritten [OF ex_mgr_ok(1) none ex_docs(3,4,5) env, of 7 9] none show ?thesis by auto
qed



text \<open>The very first installation crashes when the registry cannot be allocated: its result is
  ignored, and the next line dereferences a NULL pointer, or, if only the second allocation
  failed, an object that has just been freed.\<close>

theorem install_init_failure_crashes:
  assumes "mgr_ok m" and "group_devs m = None"
    and "\<not> (alloc_ok env (brk (mheap m)) \<and> alloc_ok env (Suc (brk (mheap m))))"
  shows "install_group env (Some b) m = Fault (if alloc_ok env (brk (mheap m)) then UseAfterFree else NullDeref)"
  by (rule init_group_devs_fails [OF assms])

theorem install_init_failure_crashes_witness:
  "install_group (ex_tsm_env\<lparr>alloc_ok := (\<lambda>k. k = 0)\<rparr>) (Some 3) ex_mgr = Fault UseAfterFree"
  using install_init_failure_crashes [OF ex_mgr_ok(1), of "ex_tsm_env\<lparr>alloc_ok := (\<lambda>k. k = 0)\<rparr>" 3]
  by (simp add: ex_mgr_def)

section \<open>The life of the module\<close>


definition ex_boot :: tsm where
  "ex_boot = snd (tsm_init ex_tsm_env (boot \<lparr>brk = 3, live = {0, 2}\<rparr> default_params))"




section \<open>Destruction\<close>

text \<open>C33: Destroying a device returns and frees exactly the objects the device owns, its stored and
  delayed messages and its works included, unless its work queue could not be created and it has
  delayed messages: then the loop over the pending list uses the list head as a message and
  leaves the bounds of its object.\<close>

theorem group_free_exact:
  assumes "dev_ok d" and "mem_ok h d"
  shows "group_free d h qs = (if delay_wq d = None \<and> pendings d \<noteq> [] then Fault OutOfBounds
     else Done (h\<lparr>live := live h - set (owned d)\<rparr>, if delay_wq d = None then qs else remove1 (dev_addr d) qs))"
  using group_free_ok [OF assms, of qs] group_free_stuck [OF assms, of qs] by auto

definition ex_stuck_dev :: group_dev where
  "ex_stuck_dev = ex_dev\<lparr>delay_wq := None, messages_number := 1,
     pending_list := Some (4, [\<lparr>msg_addr = 9, data_size = 2, data = Some (8, [5, 6, 0, 0])\<rparr>])\<rparr>"

theorem group_free_exact_witness:
  "group_free ex_stuck_dev \<lparr>brk = 10, live = {1, 2, 3, 4, 5, 6, 7, 8, 9}\<rparr> [] = Fault OutOfBounds"
proof -
  have "dev_ok ex_stuck_dev" "mem_ok \<lparr>brk = 10, live = {1, 2, 3, 4, 5, 6, 7, 8, 9}\<rparr> ex_stuck_dev"
    using ex_dev_ok
    by (auto simp: ex_stuck_dev_def dev_ok_def mem_ok_def heap_ok_def owned_def msg_owned_def ex_dev_def
        msg_ok_def armed_def is_flushing_def)
  from group_free_exact [OF this] show ?thesis by (simp add: ex_stuck_dev_def)
qed

section \<open>The control device and device names\<close>

text \<open>The control device hands out the maximal message size in the four bytes of the user buffer
  and leaves the rest of the buffer and the module alone; a command it does not know returns
  whatever the uninitialised result variable contains.\<close>

theorem tsm_ioctl_results:
  assumes "4 \<le> length ubuf"
  shows "tsm_dev_ioctl env t IOCTL_MAX_MESSAGE_SIZE ubuf
      = Done (0, u32_bytes (max_message_size (tsm_params t)) @ drop 4 ubuf, t)
    \<and> (cmd \<notin> {IOCTL_INSTALL_GROUP, IOCTL_MAX_MESSAGE_SIZE} \<longrightarrow>
        tsm_dev_ioctl env t cmd ubuf = Done (stack_garbage env (brk (mheap (tsm_mgr t))), ubuf, t))"
proof -
  have "length (u32_bytes w) = 4" for w by (simp add: u32_bytes_def)
  with assms ioctl_distinct show ?thesis by (auto simp: tsm_dev_ioctl_def copy_to_user_def Let_def)
qed

theorem tsm_ioctl_results_witness:
  "tsm_dev_ioctl ex_tsm_env ex_tsm IOCTL_MAX_MESSAGE_SIZE [1, 2, 3, 4, 5] = Done (0, [32, 0, 0, 0, 5], ex_tsm)"
  using tsm_ioctl_results [of "[1, 2, 3, 4, 5]" ex_tsm_env ex_tsm 0]
  by (simp add: u32_bytes_def ex_tsm_def default_params_def DEFAULT_MAX_MESSAGE_SIZE_def)

text \<open>Device names. The name of every group fits, with its terminator, into the buffers that the
  module and the library allocate for it, and different descriptors have different names.\<close>

lemma group_names:
  fixes b c :: u8
  shows "length (sprintf_d GROUP_FORMAT (uint b)) + 1 \<le> GROUP_FORMAT_LENGTH
    \<and> length (sprintf_d GROUP_DEV (uint b)) + 1 \<le> GROUP_DEV_LENGTH
    \<and> (sprintf_d GROUP_FORMAT (uint b) = sprintf_d GROUP_FORMAT (uint c) \<longleftrightarrow> b = c)
    \<and> (sprintf_d GROUP_DEV (uint b) = sprintf_d GROUP_DEV (uint c) \<longleftrightarrow> b = c)"
  using group_name_fits [of b] group_dev_name_fits [of b]
  by (simp add: sprintf_group_format sprintf_group_dev dec_int_u8_inject)

end
