(* ===== verification/Tsm_Lib.thy ===== *)
theory Tsm_Lib
  imports Group_Fops Format
begin

text \<open>
  The user library (\<open>tsm_lib.c\<close>). It is written against the system calls, which are a
  parameter: the record \<open>os\<close> of functions on a world. A system call may block the calling
  process or crash the kernel, so it has an outcome like any other C code. Output to the
  terminal is left out.
\<close>

section \<open>System calls\<close>

text \<open>The third argument of \<open>ioctl\<close>: absent, a number, or a pointer to user bytes.\<close>

datatype ioctl_arg = No_arg | Num u64 | Buf "u8 list"

record 'w os =
  os_open :: "string \<Rightarrow> 'w \<Rightarrow> (int \<times> 'w) outcome"
  os_close :: "int \<Rightarrow> 'w \<Rightarrow> 'w outcome"
  os_ioctl :: "int \<Rightarrow> u32 \<Rightarrow> ioctl_arg \<Rightarrow> 'w \<Rightarrow> (int \<times> ioctl_arg \<times> 'w) outcome"
  os_write :: "int \<Rightarrow> u8 list \<Rightarrow> nat \<Rightarrow> 'w \<Rightarrow> (int \<times> 'w) outcome"
  os_read :: "int \<Rightarrow> u8 list \<Rightarrow> nat \<Rightarrow> 'w \<Rightarrow> (int \<times> u8 list \<times> 'w) outcome"
  os_malloc :: "nat \<Rightarrow> 'w \<Rightarrow> bool"

text \<open>The state of the library: its copy of the maximal message size, and \<open>errno\<close>.\<close>

record lib =
  lib_max_message_size :: u32
  errno :: int

definition EIO :: int where "EIO = 5"
definition ENOMEM :: int where "ENOMEM = 12"
definition ENODEV :: int where "ENODEV = 19"
definition EINVAL :: int where "EINVAL = 22"
definition ENOSYS :: int where "ENOSYS = 38"

definition TSM_DEV :: string where "TSM_DEV = ''/dev/tsm''"

definition ATTEMPTS :: nat where "ATTEMPTS = 10000"

definition u32_of_bytes :: "u8 list \<Rightarrow> u32" where
  "u32_of_bytes bs = (case bs of
      [a, b, c, d] \<Rightarrow> ucast a OR push_bit 8 (ucast b) OR push_bit 16 (ucast c) OR push_bit 24 (ucast d)
    | _ \<Rightarrow> 0)"

section \<open>Opening a group\<close>

text \<open>
  The loop that waits for the device file. \<open>SLEEP_TIME\<close> is cut to 0 seconds when it is passed
  to \<open>sleep\<close>, so nothing happens between two attempts.
\<close>

primrec await_device :: "('w, 'x) os_scheme \<Rightarrow> string \<Rightarrow> nat \<Rightarrow> 'w \<Rightarrow> (int \<times> 'w) outcome" where
  "await_device os name 0 w = Done (-1, w)"
| "await_device os name (Suc n) w =
     obind (os_open os name w) (\<lambda>(fd, w).
     if 0 \<le> fd then Done (fd, w) else await_device os name n w)"

definition open_group :: "('w, 'x) os_scheme \<Rightarrow> u8 option \<Rightarrow> lib \<Rightarrow> 'w \<Rightarrow> (int \<times> lib \<times> 'w) outcome" where
  "open_group os group_descriptor l w =
     (case group_descriptor of
        None \<Rightarrow> Done (-1, l\<lparr>errno := - EINVAL\<rparr>, w)
      | Some desc \<Rightarrow>
          obind (os_open os TSM_DEV w) (\<lambda>(fd, w).
          if fd < 0 then Done (-1, l\<lparr>errno := - ENODEV\<rparr>, w)
          else
            obind (os_ioctl os fd IOCTL_INSTALL_GROUP (Buf [desc]) w) (\<lambda>(ret, _, w).
            if ret < 0 then obind (os_close os fd w) (\<lambda>w. Done (-1, l\<lparr>errno := - ENOSYS\<rparr>, w))
            else
              obind (if lib_max_message_size l = 0
                     then obind (os_ioctl os fd IOCTL_MAX_MESSAGE_SIZE (Buf (replicate 4 0)) w) (\<lambda>(ret, arg, w).
                       Done (ret, case arg of Buf bs \<Rightarrow> l\<lparr>lib_max_message_size := u32_of_bytes (take 4 bs)\<rparr> | _ \<Rightarrow> l, w))
                     else Done (0, l, w)) (\<lambda>(ret, l, w).
              if ret < 0 then obind (os_close os fd w) (\<lambda>w. Done (-1, l\<lparr>errno := - ENOSYS\<rparr>, w))
              else
                obind (os_close os fd w) (\<lambda>w.
                if \<not> os_malloc os GROUP_DEV_LENGTH w then Done (-1, l\<lparr>errno := - ENOMEM\<rparr>, w)
                else if GROUP_DEV_LENGTH < length (sprintf_d GROUP_DEV (uint desc)) + 1 then Fault OutOfBounds
                else
                  obind (await_device os (sprintf_d GROUP_DEV (uint desc)) ATTEMPTS w) (\<lambda>(ret, w).
                  Done (ret, l, w)))))))"

section \<open>Messages\<close>

definition strlen :: "u8 list \<Rightarrow> nat" where
  "strlen s = length (takeWhile (\<lambda>c. c \<noteq> 0) s)"

text \<open>
  \<open>msg\<close> is the memory readable and writable from the pointer on. The library puts a
  terminator at \<open>msg[max_message_size]\<close> while it measures the message, and puts the byte
  that was there back.
\<close>

definition send_message ::
  "('w, 'x) os_scheme \<Rightarrow> int \<Rightarrow> u8 list option \<Rightarrow> lib \<Rightarrow> 'w \<Rightarrow> (int \<times> u8 list option \<times> lib \<times> 'w) outcome" where
  "send_message os fd msg l w =
     (if fd < 0 then Done (-1, msg, l\<lparr>errno := - EINVAL\<rparr>, w)
      else if lib_max_message_size l = 0 then Done (-1, msg, l\<lparr>errno := - EIO\<rparr>, w)
      else case msg of
        None \<Rightarrow> Done (-1, msg, l\<lparr>errno := - EINVAL\<rparr>, w)
      | Some m \<Rightarrow>
          let k = unat (lib_max_message_size l) in
          if length m \<le> k then Fault OutOfBounds
          else
            let victim = m ! k;
                m = m[k := 0];
                len = strlen m;
                m = m[k := victim] in
            if len = 0 then Done (-1, Some m, l\<lparr>errno := - EINVAL\<rparr>, w)
            else obind (os_write os fd m len w) (\<lambda>(ret, w). Done (ret, Some m, l, w)))"

definition retrieve_message ::
  "('w, 'x) os_scheme \<Rightarrow> int \<Rightarrow> u8 list \<Rightarrow> nat \<Rightarrow> lib \<Rightarrow> 'w \<Rightarrow> (int \<times> u8 list \<times> lib \<times> 'w) outcome" where
  "retrieve_message os fd buf len l w =
     (if fd < 0 then Done (-1, buf, l\<lparr>errno := - EINVAL\<rparr>, w)
      else obind (os_read os fd buf len w) (\<lambda>(ret, buf, w). Done (ret, buf, l, w)))"

section \<open>Control\<close>

definition sleep_on_barrier :: "('w, 'x) os_scheme \<Rightarrow> int \<Rightarrow> lib \<Rightarrow> 'w \<Rightarrow> (int \<times> lib \<times> 'w) outcome" where
  "sleep_on_barrier os fd l w =
     (if fd < 0 then Done (-1, l\<lparr>errno := - EINVAL\<rparr>, w)
      else obind (os_ioctl os fd IOCTL_SLEEP_ON_BARRIER No_arg w) (\<lambda>(ret, _, w). Done (ret, l, w)))"

definition awake_barrier :: "('w, 'x) os_scheme \<Rightarrow> int \<Rightarrow> lib \<Rightarrow> 'w \<Rightarrow> (int \<times> lib \<times> 'w) outcome" where
  "awake_barrier os fd l w =
     (if fd < 0 then Done (-1, l\<lparr>errno := - EINVAL\<rparr>, w)
      else obind (os_ioctl os fd IOCTL_AWAKE_BARRIER No_arg w) (\<lambda>(ret, _, w). Done (ret, l, w)))"

definition set_send_delay :: "('w, 'x) os_scheme \<Rightarrow> int \<Rightarrow> u64 \<Rightarrow> lib \<Rightarrow> 'w \<Rightarrow> (int \<times> lib \<times> 'w) outcome" where
  "set_send_delay os fd ms l w =
     (if fd < 0 then Done (-1, l\<lparr>errno := - EINVAL\<rparr>, w)
      else if sint ms < 0 then Done (-1, l\<lparr>errno := - EINVAL\<rparr>, w)
      else obind (os_ioctl os fd IOCTL_SET_SEND_DELAY (Num ms) w) (\<lambda>(ret, _, w). Done (ret, l, w)))"

definition revoke_delayed_messages :: "('w, 'x) os_scheme \<Rightarrow> int \<Rightarrow> lib \<Rightarrow> 'w \<Rightarrow> (int \<times> lib \<times> 'w) outcome" where
  "revoke_delayed_messages os fd l w =
     (if fd < 0 then Done (-1, l\<lparr>errno := - EINVAL\<rparr>, w)
      else obind (os_ioctl os fd IOCTL_REVOKE_DELAYED_MESSAGES No_arg w) (\<lambda>(ret, _, w). Done (ret, l, w)))"

definition close_group :: "('w, 'x) os_scheme \<Rightarrow> int \<Rightarrow> lib \<Rightarrow> 'w \<Rightarrow> (lib \<times> 'w) outcome" where
  "close_group os fd l w =
     (if fd < 0 then Done (l\<lparr>errno := - EINVAL\<rparr>, w) else obind (os_close os fd w) (\<lambda>w. Done (l, w)))"

section \<open>Facts\<close>

text \<open>What the measuring with a temporary terminator computes, and that it is not visible afterwards.\<close>

lemma strlen_cut:
  assumes "k < length m"
  shows "strlen (m[k := 0]) = strlen (take k m)" and "strlen (take k m) \<le> k"
    and "m[k := 0, k := m ! k] = m"
proof -
  have "m[k := 0] = take k m @ 0 # drop (Suc k) m" using assms by (rule upd_conv_take_nth_drop)
  then show "strlen (m[k := 0]) = strlen (take k m)"
    by (auto simp: strlen_def takeWhile_append takeWhile_eq_all_conv [THEN iffD2])
  have "length (takeWhile P xs) \<le> length xs" for P and xs :: "u8 list" by (rule length_takeWhile_le)
  from this [of "\<lambda>c. c \<noteq> 0" "take k m"] show "strlen (take k m) \<le> k" using assms by (simp add: strlen_def)
qed (simp)

lemma u32_round_trip: "u32_of_bytes [ucast w, ucast (drop_bit 8 w), ucast (drop_bit 16 w), ucast (drop_bit 24 w)] = w"
proof (rule bit_word_eqI)
  fix n assume n: "n < LENGTH(32)"
  then consider "n < 8" | "8 \<le> n" "n < 16" | "16 \<le> n" "n < 24" | "24 \<le> n" by linarith
  then show "bit (u32_of_bytes [ucast w, ucast (drop_bit 8 w), ucast (drop_bit 16 w), ucast (drop_bit 24 w)]) n = bit w n"
    using n by cases (auto simp: u32_of_bytes_def bit_simps)
qed

end
