(* ===== verification/Lib_Module.thy ===== *)
theory Lib_Module
  imports Tsm_Lib Module_Laws
begin

text \<open>
  The library on top of the module: a world with the module and the open files of a process,
  and the system calls dispatched to the file operations of the module.
\<close>

section \<open>Open files\<close>

datatype ofile = Tsm_file | Group_file u8

record world =
  kmod :: tsm
  files :: "ofile list"       \<comment> \<open>by descriptor; closed ones stay in the table\<close>
  closed :: "nat list"

text \<open>\<open>/dev/tsm\<close> always exists; a group file exists when its group is installed (udev makes it).\<close>

definition file_named :: "tsm \<Rightarrow> string \<Rightarrow> ofile option" where
  "file_named t name = (if name = TSM_DEV then Some Tsm_file
     else map_option (\<lambda>d. Group_file (minor d))
       (find (\<lambda>d. sprintf_d GROUP_DEV (uint (minor d)) = name) (devs_of (tsm_mgr t))))"

definition fd_file :: "int \<Rightarrow> world \<Rightarrow> ofile option" where
  "fd_file fd w = (if 0 \<le> fd \<and> nat fd < length (files w) \<and> nat fd \<notin> set (closed w) then Some (files w ! nat fd) else None)"

definition sys_open :: "string \<Rightarrow> world \<Rightarrow> (int \<times> world) outcome" where
  "sys_open name w = (case file_named (kmod w) name of
      None \<Rightarrow> Done (-1, w)
    | Some f \<Rightarrow> Done (int (length (files w)), w\<lparr>files := files w @ [f]\<rparr>))"

definition on_group :: "('x) tsm_env_scheme \<Rightarrow> u8 \<Rightarrow> event \<Rightarrow> world \<Rightarrow> (manswer \<times> world) outcome" where
  "on_group env b e w = obind (mod_exec env (kmod w) (MDev b e)) (\<lambda>(ob, t). Done (ob, w\<lparr>kmod := t\<rparr>))"

definition sys_close :: "('x) tsm_env_scheme \<Rightarrow> int \<Rightarrow> world \<Rightarrow> world outcome" where
  "sys_close env fd w = (case fd_file fd w of
      None \<Rightarrow> Done w
    | Some Tsm_file \<Rightarrow> Done (w\<lparr>closed := nat fd # closed w\<rparr>)
    | Some (Group_file b) \<Rightarrow> obind (on_group env b EvFlush w) (\<lambda>(_, w). Done (w\<lparr>closed := nat fd # closed w\<rparr>)))"

definition sys_write :: "('x) tsm_env_scheme \<Rightarrow> int \<Rightarrow> u8 list \<Rightarrow> nat \<Rightarrow> world \<Rightarrow> (int \<times> world) outcome" where
  "sys_write env fd buf len w = (case fd_file fd w of
      Some (Group_file b) \<Rightarrow> obind (on_group env b (EvWrite buf len) w) (\<lambda>(ob, w).
        Done (case ob of ADev (AInt r) \<Rightarrow> r | _ \<Rightarrow> -1, w))
    | _ \<Rightarrow> Done (-1, w))"

definition sys_read :: "('x) tsm_env_scheme \<Rightarrow> int \<Rightarrow> u8 list \<Rightarrow> nat \<Rightarrow> world \<Rightarrow> (int \<times> u8 list \<times> world) outcome" where
  "sys_read env fd buf len w = (case fd_file fd w of
      Some (Group_file b) \<Rightarrow> obind (on_group env b (EvRead buf len) w) (\<lambda>(ob, w).
        case ob of ADev (ARead r buf') \<Rightarrow> Done (r, buf', w) | _ \<Rightarrow> Done (-1, buf, w))
    | _ \<Rightarrow> Done (-1, buf, w))"

text \<open>A thread that goes to sleep does not return within this sequential world.\<close>

definition sys_ioctl ::
  "('x) tsm_env_scheme \<Rightarrow> int \<Rightarrow> u32 \<Rightarrow> ioctl_arg \<Rightarrow> world \<Rightarrow> (int \<times> ioctl_arg \<times> world) outcome" where
  "sys_ioctl env fd cmd arg w = (case fd_file fd w of
      None \<Rightarrow> Done (-1, arg, w)
    | Some Tsm_file \<Rightarrow> (case arg of
        Buf bs \<Rightarrow> obind (tsm_dev_ioctl env (kmod w) cmd bs) (\<lambda>(r, bs, t). Done (r, Buf bs, w\<lparr>kmod := t\<rparr>))
      | _ \<Rightarrow> Done (-1, arg, w))
    | Some (Group_file b) \<Rightarrow>
        obind (on_group env b (EvIoctl 0 cmd (case arg of Num n \<Rightarrow> n | _ \<Rightarrow> 0)) w) (\<lambda>(ob, w).
        case ob of ADev (ASys (Returns r)) \<Rightarrow> Done (r, arg, w)
        | ADev (ASys Sleeps) \<Rightarrow> Block
        | _ \<Rightarrow> Done (-1, arg, w)))"

definition mod_os :: "('x) tsm_env_scheme \<Rightarrow> world os" where
  "mod_os env = \<lparr>os_open = sys_open, os_close = sys_close env, os_ioctl = sys_ioctl env,
     os_write = sys_write env, os_read = sys_read env, os_malloc = (\<lambda>_ _. True)\<rparr>"

section \<open>Facts\<close>

lemma mod_os_simps [simp]:
  "os_open (mod_os env) = sys_open" "os_close (mod_os env) = sys_close env" "os_ioctl (mod_os env) = sys_ioctl env"
  "os_write (mod_os env) = sys_write env" "os_read (mod_os env) = sys_read env" "os_malloc (mod_os env) n w"
  by (simp_all add: mod_os_def)

lemma group_name_not_tsm: "sprintf_d GROUP_DEV i \<noteq> TSM_DEV"
  by (simp add: sprintf_group_dev TSM_DEV_def)

lemma group_dev_name_inject: "sprintf_d GROUP_DEV (uint (a :: u8)) = sprintf_d GROUP_DEV (uint b) \<longleftrightarrow> a = b"
  by (simp add: sprintf_group_dev dec_int_u8_inject)

lemma file_named_group:
  assumes "lookup_dev (devs_of (tsm_mgr t)) b \<noteq> None"
  shows "file_named t (sprintf_d GROUP_DEV (uint b)) = Some (Group_file b)"
  using assms dev_registry.lookup_key [of "devs_of (tsm_mgr t)" b]
  by (auto simp: file_named_def group_name_not_tsm lookup_dev_def group_dev_name_inject)

lemma fd_file_new [simp]: "set (closed w) \<subseteq> {..<length (files w)} \<Longrightarrow>
   fd_file (int (length (files w))) (w\<lparr>files := files w @ [f]\<rparr>) = Some f"
  by (auto simp: fd_file_def)

definition files_ok :: "world \<Rightarrow> bool" where
  "files_ok w \<longleftrightarrow> set (closed w) \<subseteq> {..<length (files w)}"

text \<open>Opening a group through the library installs it and gives a descriptor of its device.\<close>

lemma await_device_ok:
  assumes "file_named (kmod w) name = Some f" and "0 < n"
  shows "await_device (mod_os env) name n w = Done (int (length (files w)), w\<lparr>files := files w @ [f]\<rparr>)"
  using assms by (cases n) (simp_all add: sys_open_def)

lemma open_group_ok:
  assumes files: "files_ok w" and inst: "install_group env (Some b) (tsm_mgr (kmod w)) = Done (0, m)"
    and there: "lookup_dev (devs_of m) b \<noteq> None"
  defines "k \<equiv> length (files w)"
  shows "\<exists>l'. open_group (mod_os env) (Some b) l w = Done (int (Suc k), l',
      w\<lparr>kmod := (kmod w)\<lparr>tsm_mgr := m\<rparr>, files := files w @ [Tsm_file, Group_file b], closed := k # closed w\<rparr>)
    \<and> lib_max_message_size l' = (if lib_max_message_size l = 0 then max_message_size (tsm_params (kmod w))
         else lib_max_message_size l)"
proof -
  have tsm: "file_named (kmod w) TSM_DEV = Some Tsm_file" by (simp add: file_named_def)
  have io: "tsm_dev_ioctl env (kmod w) IOCTL_INSTALL_GROUP [b] = Done (0, [b], (kmod w)\<lparr>tsm_mgr := m\<rparr>)"
    using inst by (simp add: tsm_dev_ioctl_def copy_from_user_def)
  let ?mx = "u32_bytes (max_message_size (tsm_params (kmod w)))"
  have mx: "tsm_dev_ioctl env t IOCTL_MAX_MESSAGE_SIZE (replicate 4 0)
      = Done (0, u32_bytes (max_message_size (tsm_params t)), t)" for t
    using ioctl_distinct by (auto simp: tsm_dev_ioctl_def copy_to_user_def u32_bytes_def numeral_eq_Suc Let_def)
  have rt: "u32_of_bytes (take 4 ?mx) = max_message_size (tsm_params (kmod w))"
    by (simp add: u32_bytes_def u32_round_trip)
  let ?w1 = "w\<lparr>files := files w @ [Tsm_file]\<rparr>" and ?w2 = "w\<lparr>files := files w @ [Tsm_file], kmod := (kmod w)\<lparr>tsm_mgr := m\<rparr>\<rparr>"
  have fd: "fd_file (int k) ?w1 = Some Tsm_file" "fd_file (int k) ?w2 = Some Tsm_file"
    using files by (auto simp: files_ok_def fd_file_def k_def)
  let ?w3 = "?w2\<lparr>closed := k # closed w\<rparr>"
  have "file_named (kmod ?w3) (sprintf_d GROUP_DEV (uint b)) = Some (Group_file b)"
    using there by (intro file_named_group) simp
  then have last: "await_device (mod_os env) (sprintf_d GROUP_DEV (uint b)) ATTEMPTS ?w3
      = Done (int (Suc k), ?w3\<lparr>files := files w @ [Tsm_file, Group_file b]\<rparr>)"
    by (subst await_device_ok) (simp_all add: ATTEMPTS_def k_def)
  have fits: "\<not> GROUP_DEV_LENGTH < length (sprintf_d GROUP_DEV (uint b)) + 1"
    using group_dev_name_fits [of b] by (simp only: not_less)
  show ?thesis
    using fits last fd
    by (simp add: open_group_def sys_open_def tsm k_def [symmetric] sys_ioctl_def io mx rt sys_close_def)
qed

section \<open>Messages through the library\<close>

lemma on_group_device:
  assumes "lookup_dev (devs_of (tsm_mgr (kmod w))) b = Some d"
    and "gd_exec env (dev_sys (kmod w) d) e = Done (ob, s)" and "params s = tsm_params (kmod w)"
  shows "on_group env b e w = Done (ADev ob,
     w\<lparr>kmod := (kmod w)\<lparr>tsm_mgr := (put_dev (dev s) (tsm_mgr (kmod w)))\<lparr>mheap := heap s\<rparr>\<rparr>\<rparr>)"
  using assms by (simp add: on_group_def mod_exec_def dev_sys_def)

lemma lib_send_retrieve:
  fixes w :: world and l :: lib and m :: "u8 list"
  defines "n \<equiv> strlen (take (unat (lib_max_message_size l)) m)"
  assumes ok: "mgr_ok (tsm_mgr (kmod w))" and fd: "fd_file fd w = Some (Group_file b)"
    and look: "lookup_dev (devs_of (tsm_mgr (kmod w))) b = Some d" and empty: "msgs d = []" and nodelay: "delay d = 0"
    and room: "messages_number d < max_storage_size (tsm_params (kmod w))"
    and env: "\<forall>k. alloc_ok env k" "\<forall>k. 0 < k \<longrightarrow> k < usable_size env k"
    and size: "lib_max_message_size l = max_message_size (tsm_params (kmod w))" "lib_max_message_size l \<noteq> 0"
    and msg: "unat (lib_max_message_size l) < length m" "0 < n" and buf: "n \<le> len" "n \<le> length buf"
  shows "\<exists>w1 w2. send_message (mod_os env) fd (Some m) l w = Done (int n, Some m, l, w1)
    \<and> retrieve_message (mod_os env) fd buf len l w1 = Done (int n, take n m @ drop n buf, l, w2)
    \<and> lookup_dev (devs_of (tsm_mgr (kmod w2))) b = Some d"
proof -
  let ?t = "kmod w" and ?prm = "tsm_params (kmod w)"
  note dm = device_mem_ok [OF ok look]
  have sys: "gsys_ok (dev_sys ?t d)" using dm by (simp add: gsys_ok_def dev_sys_def)
  note cut = strlen_cut [OF msg(1)]
  have nk: "n \<le> unat (max_message_size ?prm)" using cut(2) size(1) by (simp add: n_def)
  then have wl: "write_len ?prm n = n" by (simp add: write_len_def)
  have fd0: "\<not> fd < 0" using fd by (auto simp: fd_file_def split: if_splits)
  have nm: "n \<le> length m" using cut(2) msg(1) by (simp add: n_def)
  from write_plain [OF dm(1,2) _ env(1) nodelay room, of n m] wl msg(2) env(2) nm obtain h' d' where
    wr: "group_write_dev env ?prm (mheap (tsm_mgr ?t)) d m n = Done (int n, h', d')" by auto
  let ?s1 = "(dev_sys ?t d)\<lparr>heap := h', dev := d'\<rparr>"
  have e1: "gd_exec env (dev_sys ?t d) (EvWrite m n) = Done (AInt (int n), ?s1)"
    using wr by (simp add: gd_exec_def dev_sys_def)
  let ?m1 = "(put_dev d' (tsm_mgr ?t))\<lparr>mheap := h'\<rparr>"
  note ev1 = device_event(1,2) [OF ok look sys e1, simplified]
  let ?w1 = "w\<lparr>kmod := ?t\<lparr>tsm_mgr := ?m1\<rparr>\<rparr>"
  have send: "send_message (mod_os env) fd (Some m) l w = Done (int n, Some m, l, ?w1)"
    using fd fd0 size(2) msg cut(1,3) on_group_device [OF look e1]
    by (simp add: send_message_def Let_def sys_write_def n_def dev_sys_def)
  have look1: "lookup_dev (devs_of (tsm_mgr (kmod ?w1))) b = Some d'" using ev1(2) [of b] by simp
  from write_then_read [OF dm(1,2) empty nodelay wr _ _ , of len buf] msg(2) buf obtain h'' where
    rd: "group_read_dev h' d' buf len = Done (int n, take n m @ drop n buf, h'', d)" by auto
  let ?s2 = "(dev_sys (kmod ?w1) d')\<lparr>heap := h'', dev := d\<rparr>"
  have e2: "gd_exec env (dev_sys (kmod ?w1) d') (EvRead buf len) = Done (ARead (int n) (take n m @ drop n buf), ?s2)"
    using rd by (simp add: gd_exec_def dev_sys_def)
  have sys1: "gsys_ok (dev_sys (kmod ?w1) d')"
    using device_mem_ok [OF _ look1] ev1(1) by (simp add: gsys_ok_def dev_sys_def)
  have ok1: "mgr_ok (tsm_mgr (kmod ?w1))" using ev1(1) by simp
  note ev2 = device_event(2) [OF ok1 look1 sys1 e2, of b]
  have fd1: "fd_file fd ?w1 = Some (Group_file b)" using fd by (simp add: fd_file_def split: if_splits)
  have "retrieve_message (mod_os env) fd buf len l ?w1 = Done (int n, take n m @ drop n buf, l,
      ?w1\<lparr>kmod := (kmod ?w1)\<lparr>tsm_mgr := (put_dev d (tsm_mgr (kmod ?w1)))\<lparr>mheap := h''\<rparr>\<rparr>\<rparr>)"
    using fd1 fd0 on_group_device [OF look1 e2]
    by (simp add: retrieve_message_def sys_read_def dev_sys_def)
  moreover have "lookup_dev (devs_of (tsm_mgr (kmod (?w1\<lparr>kmod := (kmod ?w1)\<lparr>tsm_mgr :=
      (put_dev d (tsm_mgr (kmod ?w1)))\<lparr>mheap := h''\<rparr>\<rparr>\<rparr>)))) b = Some d"
    using ev2 by simp
  ultimately show ?thesis using send by blast
qed

end
