(* ===== verification/Lib_Properties.thy ===== *)
theory Lib_Properties
  imports Lib_Module Module_Properties
begin

text \<open>
  The theorems about the user library, by itself and on top of the module.
\<close>

text \<open>Opening a group. On top of the module, with memory and registrations available, opening any
  descriptor succeeds: the group is installed, the result is a fresh file descriptor of its
  device, the file of the control device is closed again, and the library knows the maximal
  message size.\<close>

theorem open_group_installs:
  assumes "mgr_ok (tsm_mgr (kmod w))" and "grants env" and "dynamic_major env" and "\<forall>k. alloc_ok env k"
    and "\<forall>k. 0 \<le> fst (chrdev_region env k)" and "\<forall>k. 0 \<le> stack_garbage env k" and "files_ok w"
    and "lib_max_message_size l = 0"
  shows "\<exists>fd l' w'. open_group (mod_os env) (Some b) l w = Done (fd, l', w') \<and> 0 \<le> fd \<and> fd_file fd w = None
    \<and> fd_file fd w' = Some (Group_file b) \<and> (\<forall>fd'. fd' \<noteq> fd \<longrightarrow> fd_file fd' w' = fd_file fd' w)
    \<and> lookup_dev (devs_of (tsm_mgr (kmod w'))) b \<noteq> None
    \<and> lib_max_message_size l' = max_message_size (tsm_params (kmod w))"
proof -
  from install_succeeds [OF assms(1-6), of b] obtain m where
    inst: "install_group env (Some b) (tsm_mgr (kmod w)) = Done (0, m)"
    and there: "lookup_dev (devs_of m) b \<noteq> None" by blast
  let ?k = "length (files w)"
  let ?w = "w\<lparr>kmod := (kmod w)\<lparr>tsm_mgr := m\<rparr>, files := files w @ [Tsm_file, Group_file b], closed := ?k # closed w\<rparr>"
  from open_group_ok [OF assms(7) inst there, of l] assms(8) obtain l' where
    run: "open_group (mod_os env) (Some b) l w = Done (int (Suc ?k), l', ?w)"
    and size: "lib_max_message_size l' = max_message_size (tsm_params (kmod w))" by auto
  have fresh: "fd_file (int (Suc ?k)) w = None" by (simp add: fd_file_def del: of_nat_Suc)
  have new: "fd_file (int (Suc ?k)) ?w = Some (Group_file b)"
    using assms(7) by (auto simp: fd_file_def files_ok_def nth_append simp del: of_nat_Suc)
  have old: "fd_file fd' ?w = fd_file fd' w" if "fd' \<noteq> int (Suc ?k)" for fd'
    using that by (auto simp: fd_file_def nth_append)
  have "\<forall>fd'. fd' \<noteq> int (Suc ?k) \<longrightarrow> fd_file fd' ?w = fd_file fd' w" using old by blast
  moreover have "lookup_dev (devs_of (tsm_mgr (kmod ?w))) b \<noteq> None" using there by simp
  moreover have "0 \<le> int (Suc ?k)" by simp
  ultimately show ?thesis using run fresh new size by blast
qed

definition ex_world :: world where
  "ex_world = \<lparr>kmod = ex_tsm, files = [], closed = []\<rparr>"

definition ex_lib :: lib where
  "ex_lib = \<lparr>lib_max_message_size = 0, errno = 0\<rparr>"

theorem open_group_installs_witness:
  "\<exists>fd l' w'. open_group (mod_os ex_tsm_env) (Some 7) ex_lib ex_world = Done (fd, l', w') \<and> 0 \<le> fd
    \<and> fd_file fd w' = Some (Group_file 7) \<and> lib_max_message_size l' = 32"
proof -
  have pre: "mgr_ok (tsm_mgr (kmod ex_world))" "files_ok ex_world" "lib_max_message_size ex_lib = 0"
    "max_message_size (tsm_params (kmod ex_world)) = 32"
    by (simp_all add: ex_world_def files_ok_def ex_lib_def)
      (simp add: ex_tsm_def default_params_def DEFAULT_MAX_MESSAGE_SIZE_def)
  have env: "\<forall>k. 0 \<le> fst (chrdev_region ex_tsm_env k)" "\<forall>k. 0 \<le> stack_garbage ex_tsm_env k"
    by (simp_all add: ex_tsm_env_def)
  from open_group_installs [OF pre(1) ex_docs(3,4,5) env pre(2,3), of 7] pre(4) show ?thesis by auto
qed





end
