(* ===== verification/Barrier.thy ===== *)
theory Barrier
  imports Group_Dev_Laws
begin

text \<open>
  The barrier with threads that interleave: the steps of \<open>SLEEP\<close> and \<open>AWAKE\<close> in
  \<open>group_unlocked_ioctl\<close>, with \<open>wait_event\<close> and \<open>wake_up_all\<close> as the kernel documents them.
  \<open>wait_event\<close> tests its condition, enters the wait queue, tests again and sleeps while the
  condition is false; \<open>wake_up_all\<close> makes every queued thread test again.
\<close>

section \<open>Steps\<close>

datatype bpc =
    Outside      \<comment> \<open>not in one of the two commands\<close>
  | Raised       \<comment> \<open>\<open>SLEEP\<close>: the barrier has been raised, first test to come\<close>
  | Queued       \<comment> \<open>\<open>SLEEP\<close>: in the wait queue, test to come\<close>
  | Asleep       \<comment> \<open>\<open>SLEEP\<close>: in the wait queue, not running\<close>
  | Waking       \<comment> \<open>\<open>AWAKE\<close>: the barrier has been lowered, \<open>wake_up_all\<close> to come\<close>

record bstate =
  bdev :: group_dev
  bpc :: "nat \<Rightarrow> bpc"

abbreviation bgoto :: "nat \<Rightarrow> bpc \<Rightarrow> bstate \<Rightarrow> bstate" where
  "bgoto t p s \<equiv> s\<lparr>bpc := (bpc s)(t := p)\<rparr>"

definition woken :: "(nat \<Rightarrow> bpc) \<Rightarrow> nat \<Rightarrow> bpc" where
  "woken pc t = (if pc t = Asleep then Queued else pc t)"

inductive bstep :: "bstate \<Rightarrow> bstate \<Rightarrow> bool" where
  raise: "bpc s t = Outside \<Longrightarrow> bstep s (bgoto t Raised (s\<lparr>bdev := set_barrier (bdev s)\<rparr>))"
| skip: "bpc s t = Raised \<Longrightarrow> is_barrier_up (bdev s) = 0 \<Longrightarrow> bstep s (bgoto t Outside s)"
| enqueue: "bpc s t = Raised \<Longrightarrow> is_barrier_up (bdev s) \<noteq> 0 \<Longrightarrow> bstep s (bgoto t Queued s)"
| leave: "bpc s t = Queued \<Longrightarrow> is_barrier_up (bdev s) = 0 \<Longrightarrow> bstep s (bgoto t Outside s)"
| doze: "bpc s t = Queued \<Longrightarrow> is_barrier_up (bdev s) \<noteq> 0 \<Longrightarrow> bstep s (bgoto t Asleep s)"
| lower: "bpc s t = Outside \<Longrightarrow>
    bstep s (bgoto t Waking (s\<lparr>bdev := (if is_barrier_up (bdev s) \<noteq> 0 then clear_barrier (bdev s) else bdev s)\<rparr>))"
| wake: "bpc s t = Waking \<Longrightarrow> bstep s (s\<lparr>bpc := (woken (bpc s))(t := Outside)\<rparr>)"

inductive breach :: "bstate \<Rightarrow> bool" where
  init: "is_barrier_up (bdev s) = 0 \<Longrightarrow> (\<forall>t. bpc s t = Outside) \<Longrightarrow> breach s"
| step: "breach s \<Longrightarrow> bstep s s' \<Longrightarrow> breach s'"

section \<open>No wake-up is lost\<close>

text \<open>A thread sleeps only behind a raised barrier, or a wake-up for it is on its way.\<close>

definition binv :: "bstate \<Rightarrow> bool" where
  "binv s \<longleftrightarrow> (\<forall>t. bpc s t = Asleep \<longrightarrow> is_barrier_up (bdev s) \<noteq> 0 \<or> (\<exists>u. bpc s u = Waking))"

text \<open>A thread that leaves does not take a pending wake-up with it.\<close>

lemma binv_leave:
  assumes "binv s" and "bpc s t \<noteq> Waking"
  shows "binv (bgoto t Outside s)"
  unfolding binv_def
proof (intro allI impI)
  fix u
  assume "bpc (bgoto t Outside s) u = Asleep"
  then have "bpc s u = Asleep" by (simp split: if_splits)
  then consider "is_barrier_up (bdev s) \<noteq> 0" | w where "bpc s w = Waking"
    using assms(1) by (auto simp: binv_def)
  then show "is_barrier_up (bdev (bgoto t Outside s)) \<noteq> 0 \<or> (\<exists>w. bpc (bgoto t Outside s) w = Waking)"
  proof cases
    case 2
    then have "bpc (bgoto t Outside s) w = Waking" using assms(2) by auto
    then show ?thesis by blast
  qed simp
qed

lemma bstep_inv:
  assumes "binv s" and "bstep s s'"
  shows "binv s'"
  using assms(2,1)
proof cases
  case (raise t)
  then show ?thesis by (simp add: binv_def barrier.raise_visible)
next
  case (lower t)
  then show ?thesis by (auto simp: binv_def)
next
  case (wake t)
  then show ?thesis by (auto simp: binv_def woken_def)
qed (auto intro: binv_leave simp: binv_def [of "bgoto _ Queued _"] binv_def [of "bgoto _ Asleep _"])

lemma breach_inv: "breach s \<Longrightarrow> binv s"
proof (induction rule: breach.induct)
  case (init s)
  then show ?case by (simp add: binv_def)
qed (rule bstep_inv)

text \<open>A thread inside a command, behind a lowered barrier, gets out without any further command.\<close>

lemma bstep_exit:
  assumes "breach s" and "is_barrier_up (bdev s) = 0"
  shows "\<exists>s'. bstep\<^sup>*\<^sup>* s s' \<and> bpc s' t = Outside \<and> bdev s' = bdev s"
proof -
  have leave: "\<exists>s'. bstep\<^sup>*\<^sup>* r s' \<and> bpc s' t = Outside \<and> bdev s' = bdev s"
    if "bpc r t = Queued" "bdev r = bdev s" for r
  proof -
    from that assms(2) have "bstep r (bgoto t Outside r)" by (intro bstep.leave) simp_all
    with that(2) show ?thesis by (intro exI [of _ "bgoto t Outside r"]) auto
  qed
  show ?thesis
  proof (cases "bpc s t")
    case Outside
    then show ?thesis by blast
  next
    case Raised
    from bstep.skip [OF this assms(2)] have "bstep s (bgoto t Outside s)" .
    then show ?thesis by (intro exI [of _ "bgoto t Outside s"]) auto
  next
    case Queued
    then show ?thesis by (rule leave) simp
  next
    case Waking
    let ?s' = "s\<lparr>bpc := (woken (bpc s))(t := Outside)\<rparr>"
    from Waking have "bstep s ?s'" by (rule bstep.wake)
    then show ?thesis by (intro exI [of _ ?s']) auto
  next
    case Asleep
    with breach_inv [OF assms(1)] assms(2) obtain w where w: "bpc s w = Waking" by (auto simp: binv_def)
    let ?s' = "s\<lparr>bpc := (woken (bpc s))(w := Outside)\<rparr>"
    from w have "bstep s ?s'" by (rule bstep.wake)
    moreover have "bpc ?s' t = Queued" using Asleep w by (auto simp: woken_def)
    ultimately show ?thesis using leave [of ?s'] by (auto intro: converse_rtranclp_into_rtranclp)
  qed
qed

end
