(* ===== verification/Locks.thy ===== *)
theory Locks
  imports Main
begin

text \<open>
  The semaphores of a group device as locks that are taken by concurrent threads. Each path
  through a function of \<open>group_dev.c\<close> is the sequence of \<open>down\<close> and \<open>up\<close> calls on it; threads
  run such sequences in any interleaving. The locale \<open>ranked_locks\<close> shows that threads which
  take locks in ascending rank never deadlock; the three semaphores of a device have such ranks.
\<close>

section \<open>Threads and locks\<close>

datatype 'l lock_op = Acq 'l | Rel 'l

text \<open>The holder of each lock, and what every thread still has to do.\<close>

type_synonym ('t, 'l) lock_state = "('l \<Rightarrow> 't option) \<times> ('t \<Rightarrow> 'l lock_op list)"

inductive lock_step :: "('t, 'l) lock_state \<Rightarrow> ('t, 'l) lock_state \<Rightarrow> bool" where
  acquire: "todo t = Acq l # p \<Longrightarrow> own l = None \<Longrightarrow> lock_step (own, todo) (own(l \<mapsto> t), todo(t := p))"
| release: "todo t = Rel l # p \<Longrightarrow> own l = Some t \<Longrightarrow> lock_step (own, todo) (own(l := None), todo(t := p))"

inductive_cases lock_stepE: "lock_step (own, todo) s'"

text \<open>Threads that start with no lock held, and the states they can reach.\<close>

inductive lock_reach :: "('t \<Rightarrow> 'l lock_op list) \<Rightarrow> ('t, 'l) lock_state \<Rightarrow> bool" for progs where
  start: "lock_reach progs (\<lambda>_. None, progs)"
| step: "lock_reach progs s \<Longrightarrow> lock_step s s' \<Longrightarrow> lock_reach progs s'"

text \<open>A program that releases only what it holds, ends with nothing held and acquires in ascending rank.\<close>

fun disciplined :: "('l \<Rightarrow> nat) \<Rightarrow> 'l list \<Rightarrow> 'l lock_op list \<Rightarrow> bool" where
  "disciplined rank held [] = (held = [])"
| "disciplined rank held (Acq l # p) = ((\<forall>k \<in> set held. rank k < rank l) \<and> disciplined rank (l # held) p)"
| "disciplined rank held (Rel l # p) = (l \<in> set held \<and> disciplined rank (remove1 l held) p)"

text \<open>What is left to do in a set of threads; every step does one call.\<close>

definition calls_left :: "'t set \<Rightarrow> ('t, 'l) lock_state \<Rightarrow> nat" where
  "calls_left T s = (\<Sum>t \<in> T. length (snd s t))"

lemma sum_pop:
  assumes "finite T" and "t \<in> T" and "todo t = x # p"
  shows "Suc (\<Sum>u \<in> T. length ((todo(t := p)) u)) = (\<Sum>u \<in> T. length (todo u))"
proof -
  have "(\<Sum>u \<in> T - {t}. length ((todo(t := p)) u)) = (\<Sum>u \<in> T - {t}. length (todo u))"
    by (rule sum.cong) auto
  with assms show ?thesis by (simp add: sum.remove [of T t])
qed

lemma calls_left_step:
  assumes "lock_step s s'" and "finite T" and "\<And>t. t \<notin> T \<Longrightarrow> snd s t = []"
  shows "calls_left T s = Suc (calls_left T s') \<and> (\<forall>t. t \<notin> T \<longrightarrow> snd s' t = [])"
  using assms(1)
proof cases
  case (acquire todo t l p own)
  with assms(3) [of t] have "t \<in> T" by auto
  with sum_pop [OF assms(2), of t todo] acquire assms(3) show ?thesis by (auto simp: calls_left_def)
next
  case (release todo t l p own)
  with assms(3) [of t] have "t \<in> T" by auto
  with sum_pop [OF assms(2), of t todo] release assms(3) show ?thesis by (auto simp: calls_left_def)
qed

lemma calls_left_run:
  assumes "(lock_step ^^ n) s s'" and "finite T" and "\<And>t. t \<notin> T \<Longrightarrow> snd s t = []"
  shows "calls_left T s = n + calls_left T s' \<and> (\<forall>t. t \<notin> T \<longrightarrow> snd s' t = [])"
  using assms(1)
proof (induction n arbitrary: s')
  case 0
  with assms(3) show ?case by simp
next
  case (Suc n)
  then obtain r where "(lock_step ^^ n) s r" and step: "lock_step r s'" by auto
  with Suc.IH [of r] calls_left_step [OF step assms(2)] show ?case by simp
qed

lemma lock_reach_run: "(lock_step ^^ n) (\<lambda>_. None, progs) s \<Longrightarrow> lock_reach progs s"
  by (induction n arbitrary: s) (auto intro: lock_reach.intros)

locale ranked_locks =
  fixes rank :: "'l \<Rightarrow> nat"
    and top :: nat
  assumes rank_bound: "rank l < top"
begin

definition lock_inv :: "('t, 'l) lock_state \<Rightarrow> bool" where
  "lock_inv s \<longleftrightarrow> (\<forall>t. \<exists>held. distinct held \<and> set held = {l. fst s l = Some t} \<and> disciplined rank held (snd s t))"

lemma inv_step:
  assumes "lock_inv s" and "lock_step s s'"
  shows "lock_inv s'"
  using assms(2,1)
proof cases
  case (acquire todo t l p own)
  show ?thesis unfolding lock_inv_def
  proof
    fix u
    from assms(1) acquire obtain held where held: "distinct held" "set held = {l. own l = Some u}"
      "disciplined rank held (todo u)" by (auto simp: lock_inv_def)
    show "\<exists>held. distinct held \<and> set held = {l. fst s' l = Some u} \<and> disciplined rank held (snd s' u)"
    proof (cases "u = t")
      case True
      with held acquire have "distinct (l # held)" "set (l # held) = {k. fst s' k = Some u}"
        "disciplined rank (l # held) (snd s' u)" by auto
      then show ?thesis by blast
    next
      case False
      with held acquire show ?thesis by (intro exI [of _ held]) auto
    qed
  qed
next
  case (release todo t l p own)
  show ?thesis unfolding lock_inv_def
  proof
    fix u
    from assms(1) release obtain held where held: "distinct held" "set held = {l. own l = Some u}"
      "disciplined rank held (todo u)" by (auto simp: lock_inv_def)
    show "\<exists>held. distinct held \<and> set held = {l. fst s' l = Some u} \<and> disciplined rank held (snd s' u)"
    proof (cases "u = t")
      case True
      with held release have "distinct (remove1 l held)" "set (remove1 l held) = {k. fst s' k = Some u}"
        "disciplined rank (remove1 l held) (snd s' u)" by auto
      then show ?thesis by blast
    next
      case False
      with held release show ?thesis by (intro exI [of _ held]) auto
    qed
  qed
qed

lemma inv_reach:
  assumes "\<And>t. disciplined rank [] (progs t)" and "lock_reach progs s"
  shows "lock_inv s"
  using assms(2)
proof induction
  case start
  with assms(1) show ?case by (auto simp: lock_inv_def)
qed (rule inv_step)

text \<open>The thread that waits for the lock of highest rank finds its holder able to move.\<close>

lemma inv_progress:
  assumes inv: "lock_inv (own, todo)" and busy: "todo t0 \<noteq> []"
  shows "\<exists>s'. lock_step (own, todo) s'"
proof (rule ccontr)
  assume stuck: "\<nexists>s'. lock_step (own, todo) s'"
  have disc: "\<exists>held. set held = {l. own l = Some t} \<and> disciplined rank held (todo t)" for t
    using inv by (auto simp: lock_inv_def)
  have waiting: "\<exists>l p. todo t = Acq l # p \<and> own l \<noteq> None" if "todo t \<noteq> []" for t
  proof (cases "todo t")
    case (Cons x p)
    show ?thesis
    proof (cases x)
      case (Acq l)
      with Cons stuck lock_step.acquire [of todo t l p own] show ?thesis by auto
    next
      case (Rel l)
      with Cons disc [of t] have "own l = Some t" by auto
      with Cons Rel stuck lock_step.release [of todo t l p own] show ?thesis by auto
    qed
  qed (use that in simp)
  define wanted where "wanted = (\<lambda>r. \<exists>t l p. todo t = Acq l # p \<and> rank l = r)"
  from waiting [OF busy] have ex: "\<exists>r. wanted r" by (auto simp: wanted_def)
  have "\<forall>r. wanted r \<longrightarrow> r \<le> top" using rank_bound by (auto simp: wanted_def less_imp_le)
  from GreatestI_ex_nat [OF ex] this obtain t l p where t: "todo t = Acq l # p"
    and max: "\<And>r. wanted r \<Longrightarrow> r \<le> rank l"
    by (metis (no_types, lifting) Greatest_le_nat wanted_def)
  from waiting [of t] t obtain u where u: "own l = Some u" by auto
  from disc [of u] obtain held where held: "set held = {l. own l = Some u}" "disciplined rank held (todo u)" by blast
  then have "l \<in> set held" using u by simp
  then have "todo u \<noteq> []" using held(2) by auto
  from waiting [OF this] obtain l' p' where l': "todo u = Acq l' # p'" by blast
  with held(2) \<open>l \<in> set held\<close> have "rank l < rank l'" by simp
  with max [of "rank l'"] l' show False by (auto simp: wanted_def)
qed

lemma no_deadlock:
  assumes "\<And>t. disciplined rank [] (progs t)" and "lock_reach progs s" and "snd s t \<noteq> []"
  shows "\<exists>s'. lock_step s s'"
  using inv_progress [of "fst s" "snd s" t] inv_reach [OF assms(1,2)] assms(3) by simp

text \<open>Threads that have finished hold nothing.\<close>

lemma all_released:
  assumes "lock_inv s" and "\<And>t. snd s t = []"
  shows "fst s l = None"
proof (rule ccontr)
  assume "fst s l \<noteq> None"
  then obtain t where t: "fst s l = Some t" by auto
  from assms obtain held where "set held = {l. fst s l = Some t}" "disciplined rank held []"
    unfolding lock_inv_def by (metis (no_types, lifting))
  with t show False by auto
qed

text \<open>A run that cannot go on has done everything, within as many steps as there are calls.\<close>

lemma runs_complete:
  assumes "\<And>t. disciplined rank [] (progs t)" and "finite T" and "\<And>t. t \<notin> T \<Longrightarrow> progs t = []"
    and run: "(lock_step ^^ n) (\<lambda>_. None, progs) s"
  shows "n \<le> calls_left T (\<lambda>_. None, progs)"
    and "(\<nexists>s'. lock_step s s') \<longleftrightarrow> n = calls_left T (\<lambda>_. None, progs)"
    and "n = calls_left T (\<lambda>_. None, progs) \<Longrightarrow> snd s t = [] \<and> fst s l = None"
proof -
  have left: "calls_left T (\<lambda>_. None, progs) = n + calls_left T s" "\<forall>t. t \<notin> T \<longrightarrow> snd s t = []"
    using calls_left_run [OF run assms(2)] assms(3) by auto
  from left(1) show "n \<le> calls_left T (\<lambda>_. None, progs)" by simp
  have inv: "lock_inv s" using inv_reach [OF assms(1) lock_reach_run [OF run]] .
  have finished: "snd s t = []" if "calls_left T s = 0" for t
    using that left(2) assms(2) by (cases "t \<in> T") (auto simp: calls_left_def)
  show "(\<nexists>s'. lock_step s s') \<longleftrightarrow> n = calls_left T (\<lambda>_. None, progs)"
  proof
    assume stuck: "\<nexists>s'. lock_step s s'"
    then have "snd s t = []" for t using no_deadlock [OF assms(1) lock_reach_run [OF run]] by blast
    then show "n = calls_left T (\<lambda>_. None, progs)" using left(1) by (simp add: calls_left_def)
  next
    assume "n = calls_left T (\<lambda>_. None, progs)"
    with left(1) have "calls_left T s = 0" by simp
    with calls_left_step [OF _ assms(2)] left(2) show "\<nexists>s'. lock_step s s'" by fastforce
  qed
  assume "n = calls_left T (\<lambda>_. None, progs)"
  with left(1) have "calls_left T s = 0" by simp
  then show "snd s t = [] \<and> fst s l = None" using finished all_released [OF inv] by blast
qed

end

section \<open>The semaphores of a group device\<close>

datatype sem = Wq_sem | Pending_sem | Message_sem

primrec sem_rank :: "sem \<Rightarrow> nat" where
  "sem_rank Wq_sem = 0"
| "sem_rank Pending_sem = 1"
| "sem_rank Message_sem = 2"

interpretation dev_locks: ranked_locks sem_rank 3
proof
  fix l show "sem_rank l < 3" by (cases l) simp_all
qed

text \<open>
  The semaphore calls of the operations, by the branch they take. \<open>fflush_workqueue\<close> waits for
  each work it flushes while it holds \<open>wq_sem\<close>, so the calls of the work function count as its
  own; the number of works flushed and whether each finds a message is arbitrary.
\<close>

datatype lock_path =
    Read_path
  | Write_path bool bool          \<comment> \<open>is the message delayed? was its work allocated?\<close>
  | Write_refused
  | Work_path bool                \<comment> \<open>was there a pending message?\<close>
  | Flush_path "bool list"        \<comment> \<open>for each work flushed: was there a pending message?\<close>
  | No_locks                      \<comment> \<open>open, release, flush, the barrier and delay commands\<close>

fun work_locks :: "bool \<Rightarrow> sem lock_op list" where
  "work_locks found = [Acq Pending_sem, Rel Pending_sem] @ (if found then [Acq Message_sem, Rel Message_sem] else [])"

definition read_locks :: "sem lock_op list" where
  "read_locks = [Acq Message_sem, Rel Message_sem]"

text \<open>\<open>add_delayed_work\<close>, by whether the work was allocated.\<close>

definition add_work_locks :: "bool \<Rightarrow> sem lock_op list" where
  "add_work_locks work = (if work then [Acq Wq_sem, Rel Wq_sem] else [])"

definition write_locks :: "bool \<Rightarrow> bool \<Rightarrow> sem lock_op list" where
  "write_locks delayed work =
     (if delayed then [Acq Message_sem, Rel Message_sem, Acq Pending_sem, Rel Pending_sem] @ add_work_locks work
      else [Acq Message_sem, Rel Message_sem])"

definition refused_locks :: "sem lock_op list" where
  "refused_locks = [Acq Message_sem, Rel Message_sem]"

definition splice_locks :: "sem lock_op list" where
  "splice_locks = [Acq Pending_sem, Acq Message_sem, Rel Pending_sem, Rel Message_sem]"

definition flush_locks :: "bool list \<Rightarrow> sem lock_op list" where
  "flush_locks found = splice_locks @ [Acq Wq_sem] @ concat (map work_locks found) @ [Rel Wq_sem]"

primrec path_locks :: "lock_path \<Rightarrow> sem lock_op list" where
  "path_locks Read_path = read_locks"
| "path_locks (Write_path delayed work) = write_locks delayed work"
| "path_locks Write_refused = refused_locks"
| "path_locks (Work_path found) = work_locks found"
| "path_locks (Flush_path found) = flush_locks found"
| "path_locks No_locks = []"

lemmas locks_defs = read_locks_def add_work_locks_def write_locks_def refused_locks_def splice_locks_def flush_locks_def

lemma disciplined_works:
  "disciplined sem_rank [Wq_sem] (concat (map work_locks found) @ [Rel Wq_sem])"
  by (induction found) auto

lemma path_disciplined: "disciplined sem_rank [] (path_locks p)"
  using disciplined_works by (cases p) (auto simp: locks_defs)

lemma paths_disciplined: "disciplined sem_rank [] (concat (map path_locks ps))"
proof -
  have app: "disciplined sem_rank held xs \<Longrightarrow> disciplined sem_rank [] ys \<Longrightarrow> disciplined sem_rank held (xs @ ys)"
    for held xs ys
    by (induction sem_rank held xs rule: disciplined.induct) auto
  show ?thesis by (induction ps) (auto intro: app path_disciplined)
qed

end
