(* ===== verification/Sharing.thy ===== *)
theory Sharing
  imports Kernel_API
begin

text \<open>
  The messages of one group device under concurrent system calls and works. The functions of
  \<open>group_dev.c\<close> run one critical section, one allocation, one \<open>kfree\<close> or one access to a
  message outside the semaphores at a time, in any interleaving; what a thread does next, and
  the message it has in a local variable, is its program counter. A critical section is taken
  by \<open>down\<close>, and its work is done in the step that leaves it with \<open>up\<close>: the theorem on mutual
  exclusion says that nobody else can look in between. A message is named by its address and
  stands for the \<open>struct message\<close> with its data, which are allocated and freed together.
\<close>

section \<open>Program counters\<close>

datatype tpc =
    Resting
  \<comment> \<open>\<open>group_write\<close>\<close>
  | W_ready addr        \<comment> \<open>message allocated, before \<open>down(message_sem)\<close>\<close>
  | W_in addr           \<comment> \<open>holds \<open>message_sem\<close>\<close>
  | W_refused addr      \<comment> \<open>\<open>msg_fail\<close>, before the two \<open>kfree\<close>\<close>
  | W_delayed addr      \<comment> \<open>counted, before \<open>down(pending_sem)\<close>\<close>
  | W_pending addr      \<comment> \<open>holds \<open>pending_sem\<close>\<close>
  | W_print addr addr   \<comment> \<open>in \<open>message_list_print\<close> at the first address, the second one is its own\<close>
  | W_log addr          \<comment> \<open>before the last \<open>info\<close>\<close>
  \<comment> \<open>\<open>group_read\<close>\<close>
  | R_start | R_in
  | R_own addr          \<comment> \<open>unlinked, before \<open>copy_to_user\<close>\<close>
  | R_free addr         \<comment> \<open>copied, before the two \<open>kfree\<close>\<close>
  \<comment> \<open>\<open>delayed_work_fun\<close>\<close>
  | K_start | K_in
  | K_own addr          \<comment> \<open>unlinked, before \<open>down(message_sem)\<close>\<close>
  | K_in2 addr          \<comment> \<open>holds \<open>message_sem\<close>\<close>
  | K_log addr          \<comment> \<open>before \<open>info\<close>\<close>
  \<comment> \<open>\<open>_fflush_workqueue\<close>\<close>
  | F_start | F_pend | F_both | F_half

record sstate =
  mlist :: "addr list"
  plist :: "addr list"
  alive :: "addr set"           \<comment> \<open>messages that are allocated\<close>
  msem :: "nat option"          \<comment> \<open>the thread that holds \<open>message_sem\<close>\<close>
  psem :: "nat option"          \<comment> \<open>the thread that holds \<open>pending_sem\<close>\<close>
  number :: u32                 \<comment> \<open>\<open>messages_number\<close>\<close>
  tpc :: "nat \<Rightarrow> tpc"

abbreviation goto :: "nat \<Rightarrow> tpc \<Rightarrow> sstate \<Rightarrow> sstate" where
  "goto t p s \<equiv> s\<lparr>tpc := (tpc s)(t := p)\<rparr>"

text \<open>The entry before \<open>c\<close> in a list: where \<open>list_for_each_prev\<close> goes from \<open>c\<close>.\<close>

fun prev_of :: "addr \<Rightarrow> addr list \<Rightarrow> addr option" where
  "prev_of c (x # y # xs) = (if y = c then Some x else prev_of c (y # xs))"
| "prev_of c xs = None"

section \<open>Steps\<close>

text \<open>A step of a thread inside \<open>group_write\<close>; \<open>limit\<close> is \<open>max_storage_size\<close>.\<close>

inductive write_step :: "u32 \<Rightarrow> sstate \<Rightarrow> sstate \<Rightarrow> bool" for limit where
  write_begin: "tpc s t = Resting \<Longrightarrow> m \<notin> alive s \<Longrightarrow>
    write_step limit s (goto t (W_ready m) (s\<lparr>alive := insert m (alive s)\<rparr>))"
| write_lock: "tpc s t = W_ready m \<Longrightarrow> msem s = None \<Longrightarrow> write_step limit s (goto t (W_in m) (s\<lparr>msem := Some t\<rparr>))"
| write_refuse: "tpc s t = W_in m \<Longrightarrow> write_step limit s (goto t (W_refused m) (s\<lparr>msem := None\<rparr>))"
| write_drop: "tpc s t = W_refused m \<Longrightarrow> write_step limit s (goto t Resting (s\<lparr>alive := alive s - {m}\<rparr>))"
| write_now: "tpc s t = W_in m \<Longrightarrow> number s < limit \<Longrightarrow>
    write_step limit s (goto t (W_print (list_last_entry (list_add m (mlist s))) m)
      (s\<lparr>mlist := list_add m (mlist s), number := number s + 1, msem := None\<rparr>))"
| write_print: "tpc s t = W_print c m \<Longrightarrow> c \<in> set (mlist s) \<Longrightarrow>
    write_step limit s (goto t (case prev_of c (mlist s) of None \<Rightarrow> W_log m | Some c' \<Rightarrow> W_print c' m) s)"
| write_later: "tpc s t = W_in m \<Longrightarrow> number s < limit \<Longrightarrow>
    write_step limit s (goto t (W_delayed m) (s\<lparr>number := number s + 1, msem := None\<rparr>))"
| pending_lock: "tpc s t = W_delayed m \<Longrightarrow> psem s = None \<Longrightarrow> write_step limit s (goto t (W_pending m) (s\<lparr>psem := Some t\<rparr>))"
| pending_add: "tpc s t = W_pending m \<Longrightarrow>
    write_step limit s (goto t (W_log m) (s\<lparr>plist := list_add m (plist s), psem := None\<rparr>))"
| write_log: "tpc s t = W_log m \<Longrightarrow> write_step limit s (goto t Resting s)"

text \<open>A step inside \<open>group_read\<close>.\<close>

inductive read_step :: "sstate \<Rightarrow> sstate \<Rightarrow> bool" where
  read_begin: "tpc s t = Resting \<Longrightarrow> read_step s (goto t R_start s)"
| read_lock: "tpc s t = R_start \<Longrightarrow> msem s = None \<Longrightarrow> read_step s (goto t R_in (s\<lparr>msem := Some t\<rparr>))"
| read_empty: "tpc s t = R_in \<Longrightarrow> list_empty (mlist s) \<Longrightarrow> read_step s (goto t Resting (s\<lparr>msem := None\<rparr>))"
| read_take: "tpc s t = R_in \<Longrightarrow> \<not> list_empty (mlist s) \<Longrightarrow> m = list_last_entry (mlist s) \<Longrightarrow>
    read_step s (goto t (R_own m) (s\<lparr>mlist := list_del id m (mlist s), number := number s - 1, msem := None\<rparr>))"
| read_copy: "tpc s t = R_own m \<Longrightarrow> read_step s (goto t (R_free m) s)"
| read_fault: "tpc s t = R_own m \<Longrightarrow> read_step s (goto t Resting s)"
| read_free: "tpc s t = R_free m \<Longrightarrow> read_step s (goto t Resting (s\<lparr>alive := alive s - {m}\<rparr>))"

text \<open>A step inside \<open>delayed_work_fun\<close>.\<close>

inductive work_step :: "sstate \<Rightarrow> sstate \<Rightarrow> bool" where
  work_begin: "tpc s t = Resting \<Longrightarrow> work_step s (goto t K_start s)"
| work_lock: "tpc s t = K_start \<Longrightarrow> psem s = None \<Longrightarrow> work_step s (goto t K_in (s\<lparr>psem := Some t\<rparr>))"
| work_empty: "tpc s t = K_in \<Longrightarrow> list_empty (plist s) \<Longrightarrow> work_step s (goto t Resting (s\<lparr>psem := None\<rparr>))"
| work_take: "tpc s t = K_in \<Longrightarrow> \<not> list_empty (plist s) \<Longrightarrow> m = list_last_entry (plist s) \<Longrightarrow>
    work_step s (goto t (K_own m) (s\<lparr>plist := list_del id m (plist s), psem := None\<rparr>))"
| work_lock2: "tpc s t = K_own m \<Longrightarrow> msem s = None \<Longrightarrow> work_step s (goto t (K_in2 m) (s\<lparr>msem := Some t\<rparr>))"
| work_add: "tpc s t = K_in2 m \<Longrightarrow>
    work_step s (goto t (K_log m) (s\<lparr>mlist := list_add m (mlist s), msem := None\<rparr>))"
| work_log: "tpc s t = K_log m \<Longrightarrow> work_step s (goto t Resting s)"

text \<open>A step inside \<open>_fflush_workqueue\<close>.\<close>

inductive flush_step :: "sstate \<Rightarrow> sstate \<Rightarrow> bool" where
  flush_begin: "tpc s t = Resting \<Longrightarrow> flush_step s (goto t F_start s)"
| flush_lock: "tpc s t = F_start \<Longrightarrow> psem s = None \<Longrightarrow> flush_step s (goto t F_pend (s\<lparr>psem := Some t\<rparr>))"
| flush_lock2: "tpc s t = F_pend \<Longrightarrow> msem s = None \<Longrightarrow> flush_step s (goto t F_both (s\<lparr>msem := Some t\<rparr>))"
| flush_splice: "tpc s t = F_both \<Longrightarrow> list_splice_tail_init (plist s) (mlist s) = (ml, pl) \<Longrightarrow>
    flush_step s (goto t F_half (s\<lparr>mlist := ml, plist := pl, psem := None\<rparr>))"
| flush_end: "tpc s t = F_half \<Longrightarrow> flush_step s (goto t Resting (s\<lparr>msem := None\<rparr>))"

inductive sstep :: "u32 \<Rightarrow> sstate \<Rightarrow> sstate \<Rightarrow> bool" for limit where
  writes: "write_step limit s s' \<Longrightarrow> sstep limit s s'"
| reads: "read_step s s' \<Longrightarrow> sstep limit s s'"
| works: "work_step s s' \<Longrightarrow> sstep limit s s'"
| flushes: "flush_step s s' \<Longrightarrow> sstep limit s s'"

text \<open>The steps of all functions as steps of the device.\<close>

lemmas sstep_write_begin = sstep.writes [OF write_step.write_begin]
lemmas sstep_write_lock = sstep.writes [OF write_step.write_lock]
lemmas sstep_write_refuse = sstep.writes [OF write_step.write_refuse]
lemmas sstep_write_drop = sstep.writes [OF write_step.write_drop]
lemmas sstep_write_now = sstep.writes [OF write_step.write_now]
lemmas sstep_write_print = sstep.writes [OF write_step.write_print]
lemmas sstep_write_later = sstep.writes [OF write_step.write_later]
lemmas sstep_pending_lock = sstep.writes [OF write_step.pending_lock]
lemmas sstep_pending_add = sstep.writes [OF write_step.pending_add]
lemmas sstep_write_log = sstep.writes [OF write_step.write_log]
lemmas sstep_read_begin = sstep.reads [OF read_step.read_begin]
lemmas sstep_read_lock = sstep.reads [OF read_step.read_lock]
lemmas sstep_read_empty = sstep.reads [OF read_step.read_empty]
lemmas sstep_read_take = sstep.reads [OF read_step.read_take]
lemmas sstep_read_copy = sstep.reads [OF read_step.read_copy]
lemmas sstep_read_fault = sstep.reads [OF read_step.read_fault]
lemmas sstep_read_free = sstep.reads [OF read_step.read_free]
lemmas sstep_work_begin = sstep.works [OF work_step.work_begin]
lemmas sstep_work_lock = sstep.works [OF work_step.work_lock]
lemmas sstep_work_empty = sstep.works [OF work_step.work_empty]
lemmas sstep_work_take = sstep.works [OF work_step.work_take]
lemmas sstep_work_lock2 = sstep.works [OF work_step.work_lock2]
lemmas sstep_work_add = sstep.works [OF work_step.work_add]
lemmas sstep_work_log = sstep.works [OF work_step.work_log]
lemmas sstep_flush_begin = sstep.flushes [OF flush_step.flush_begin]
lemmas sstep_flush_lock = sstep.flushes [OF flush_step.flush_lock]
lemmas sstep_flush_lock2 = sstep.flushes [OF flush_step.flush_lock2]
lemmas sstep_flush_splice = sstep.flushes [OF flush_step.flush_splice]
lemmas sstep_flush_end = sstep.flushes [OF flush_step.flush_end]

text \<open>A device that has just been installed, and the states from there on.\<close>

definition sinit :: sstate where
  "sinit = \<lparr>mlist = [], plist = [], alive = {}, msem = None, psem = None, number = 0, tpc = (\<lambda>_. Resting)\<rparr>"

inductive sreach :: "u32 \<Rightarrow> sstate \<Rightarrow> bool" for limit where
  init: "sreach limit sinit"
| step: "sreach limit s \<Longrightarrow> sstep limit s s' \<Longrightarrow> sreach limit s'"

section \<open>Critical sections\<close>

fun in_message_cs :: "tpc \<Rightarrow> bool" where
  "in_message_cs (W_in m) = True"
| "in_message_cs R_in = True"
| "in_message_cs (K_in2 m) = True"
| "in_message_cs F_both = True"
| "in_message_cs F_half = True"
| "in_message_cs _ = False"

fun in_pending_cs :: "tpc \<Rightarrow> bool" where
  "in_pending_cs (W_pending m) = True"
| "in_pending_cs K_in = True"
| "in_pending_cs F_pend = True"
| "in_pending_cs F_both = True"
| "in_pending_cs _ = False"

definition holder_ok :: "nat option \<Rightarrow> (tpc \<Rightarrow> bool) \<Rightarrow> (nat \<Rightarrow> tpc) \<Rightarrow> bool" where
  "holder_ok h cs pc \<longleftrightarrow> (\<forall>t. h = Some t \<longleftrightarrow> cs (pc t))"

lemma holder_keep: "holder_ok h cs pc \<Longrightarrow> cs p = cs (pc t) \<Longrightarrow> holder_ok h cs (pc(t := p))"
  by (auto simp: holder_ok_def)

lemma holder_take: "holder_ok None cs pc \<Longrightarrow> cs p \<Longrightarrow> holder_ok (Some t) cs (pc(t := p))"
  by (auto simp: holder_ok_def)

lemma holder_drop: "holder_ok h cs pc \<Longrightarrow> cs (pc t) \<Longrightarrow> \<not> cs p \<Longrightarrow> holder_ok None cs (pc(t := p))"
  unfolding holder_ok_def by (metis fun_upd_apply option.distinct(1) option.inject)

definition locks_ok :: "sstate \<Rightarrow> bool" where
  "locks_ok s \<longleftrightarrow> holder_ok (msem s) in_message_cs (tpc s) \<and> holder_ok (psem s) in_pending_cs (tpc s)"

lemmas holder_rules = holder_keep holder_take holder_drop

lemma locks_step: "sstep limit s s' \<Longrightarrow> locks_ok s \<Longrightarrow> locks_ok s'"
proof (induction rule: sstep.induct)
  case (writes s s')
  then show ?case
    by (induction rule: write_step.induct) (auto simp: locks_ok_def intro: holder_rules split: option.splits)
next
  case (reads s s')
  then show ?case by (induction rule: read_step.induct) (auto simp: locks_ok_def intro: holder_rules)
next
  case (works s s')
  then show ?case by (induction rule: work_step.induct) (auto simp: locks_ok_def intro: holder_rules)
next
  case (flushes s s')
  then show ?case by (induction rule: flush_step.induct) (auto simp: locks_ok_def intro: holder_rules)
qed

section \<open>Ownership\<close>

text \<open>The message that only this thread knows of.\<close>

fun own :: "tpc \<Rightarrow> addr option" where
  "own (W_ready m) = Some m"
| "own (W_in m) = Some m"
| "own (W_refused m) = Some m"
| "own (W_delayed m) = Some m"
| "own (W_pending m) = Some m"
| "own (R_own m) = Some m"
| "own (R_free m) = Some m"
| "own (K_own m) = Some m"
| "own (K_in2 m) = Some m"
| "own _ = None"

definition owners_ok :: "addr list \<Rightarrow> addr set \<Rightarrow> (nat \<Rightarrow> tpc) \<Rightarrow> bool" where
  "owners_ok ms al pc \<longleftrightarrow> distinct ms \<and> set ms \<subseteq> al
    \<and> (\<forall>t m. own (pc t) = Some m \<longrightarrow> m \<in> al \<and> m \<notin> set ms)
    \<and> (\<forall>t u. t \<noteq> u \<longrightarrow> own (pc t) \<noteq> None \<longrightarrow> own (pc t) \<noteq> own (pc u))"

text \<open>How a step may change the owner of a message.\<close>

lemma owners_keep: "owners_ok ms al pc \<Longrightarrow> own p = own (pc t) \<or> own p = None \<Longrightarrow> owners_ok ms al (pc(t := p))"
  unfolding owners_ok_def by (auto split: if_splits) (metis option.distinct(1))+

lemma owners_new: "owners_ok ms al pc \<Longrightarrow> own p = Some m \<Longrightarrow> m \<notin> al \<Longrightarrow> owners_ok ms (insert m al) (pc(t := p))"
  unfolding owners_ok_def by (auto split: if_splits)

lemma owners_link:
  "owners_ok ms al pc \<Longrightarrow> own (pc t) = Some m \<Longrightarrow> own p = None \<Longrightarrow> distinct ms' \<Longrightarrow> set ms' = insert m (set ms)
   \<Longrightarrow> owners_ok ms' al (pc(t := p))"
  unfolding owners_ok_def by (auto split: if_splits) (metis option.distinct(1))+

lemma owners_unlink:
  "owners_ok ms al pc \<Longrightarrow> own p = Some m \<Longrightarrow> distinct ms' \<Longrightarrow> set ms = insert m (set ms') \<Longrightarrow> m \<notin> set ms'
   \<Longrightarrow> owners_ok ms' al (pc(t := p))"
  unfolding owners_ok_def by (auto split: if_splits) (metis option.distinct(1))+

lemma owners_free:
  "owners_ok ms al pc \<Longrightarrow> own (pc t) = Some m \<Longrightarrow> own p = None \<Longrightarrow> owners_ok ms (al - {m}) (pc(t := p))"
  unfolding owners_ok_def by (auto split: if_splits) (metis option.distinct(1))+

definition shared_ok :: "sstate \<Rightarrow> bool" where
  "shared_ok s \<longleftrightarrow> owners_ok (mlist s @ plist s) (alive s) (tpc s)"

text \<open>Taking the last entry off a list without duplicates.\<close>

lemma take_last:
  assumes "distinct xs" and "\<not> list_empty xs"
  shows "list_del id (list_last_entry xs) xs = butlast xs" and "xs = butlast xs @ [list_last_entry xs]"
  using assms list_del_last [of id xs] by (auto simp: list_empty_def list_last_entry_def)

lemma unlink_last_facts:
  assumes "distinct (xs @ ys)" and "\<not> list_empty xs" and "m = list_last_entry xs"
  shows "distinct (list_del id m xs @ ys)" and "set (xs @ ys) = insert m (set (list_del id m xs @ ys))"
    and "m \<notin> set (list_del id m xs @ ys)" and "length xs = Suc (length (list_del id m xs))"
proof -
  from assms(1) have "distinct xs" by simp
  from take_last [OF this assms(2)] assms(3) have del: "list_del id m xs = butlast xs" and
    xs: "xs = butlast xs @ [m]" by simp_all
  from assms(1) have "distinct ((butlast xs @ [m]) @ ys)" unfolding xs [symmetric] .
  then show "distinct (list_del id m xs @ ys)" "m \<notin> set (list_del id m xs @ ys)" by (auto simp: del)
  have "set ((butlast xs @ [m]) @ ys) = insert m (set (butlast xs @ ys))" by auto
  then show "set (xs @ ys) = insert m (set (list_del id m xs @ ys))" unfolding xs [symmetric] del .
  have "length (butlast xs @ [m]) = Suc (length (butlast xs))" by simp
  then show "length xs = Suc (length (list_del id m xs))" unfolding xs [symmetric] del .
qed

lemma owners_permute:
  "owners_ok ms al pc \<Longrightarrow> distinct ms' \<Longrightarrow> set ms' = set ms \<Longrightarrow> owners_ok ms' al pc"
  by (simp add: owners_ok_def)

lemma owners_distinct: "owners_ok ms al pc \<Longrightarrow> distinct ms"
  by (simp add: owners_ok_def)

lemma owner_off_list: "owners_ok ms al pc \<Longrightarrow> own (pc t) = Some m \<Longrightarrow> m \<notin> set ms"
  by (simp add: owners_ok_def)

lemma owners_add:
  assumes ok: "owners_ok (xs @ ys) al pc" and "own (pc t) = Some m" and "own p = None"
  shows "owners_ok (list_add m xs @ ys) al (pc(t := p))" and "owners_ok (xs @ list_add m ys) al (pc(t := p))"
  using owners_distinct [OF ok] owner_off_list [OF ok assms(2)]
  by (auto simp: list_add_def intro!: owners_link [OF assms])

lemma shared_step_write: "write_step limit s s' \<Longrightarrow> shared_ok s \<Longrightarrow> shared_ok s'"
proof (induction rule: write_step.induct)
  case (write_begin s t m)
  then show ?case by (simp add: shared_ok_def owners_new)
next
  case (write_now s t m)
  then show ?case by (simp add: shared_ok_def owners_add)
next
  case (pending_add s t m)
  then show ?case by (simp add: shared_ok_def owners_add)
qed (auto simp: shared_ok_def intro: owners_keep owners_free split: option.splits)

lemma shared_step_read: "read_step s s' \<Longrightarrow> shared_ok s \<Longrightarrow> shared_ok s'"
proof (induction rule: read_step.induct)
  case (read_take s t m)
  then have ok: "owners_ok (mlist s @ plist s) (alive s) (tpc s)" by (simp add: shared_ok_def)
  note facts = unlink_last_facts [OF owners_distinct [OF ok] read_take.hyps(2,3)]
  show ?case using owners_unlink [OF ok, of "R_own m" m "list_del id m (mlist s) @ plist s" t] facts(1-3)
    by (simp add: shared_ok_def)
qed (auto simp: shared_ok_def intro: owners_keep owners_free split: option.splits)

lemma shared_step_work: "work_step s s' \<Longrightarrow> shared_ok s \<Longrightarrow> shared_ok s'"
proof (induction rule: work_step.induct)
  case (work_add s t m)
  then show ?case by (simp add: shared_ok_def owners_add)
next
  case (work_take s t m)
  then have ok: "owners_ok (mlist s @ plist s) (alive s) (tpc s)" by (simp add: shared_ok_def)
  then have "distinct (plist s @ mlist s)" using owners_distinct [OF ok] by auto
  note facts = unlink_last_facts [OF this work_take.hyps(2,3)]
  show ?case using facts(1-3) owners_unlink [OF ok, of "K_own m" m "mlist s @ list_del id m (plist s)" t]
    by (auto simp: shared_ok_def Un_commute)
qed (auto simp: shared_ok_def intro: owners_keep owners_free split: option.splits)

lemma shared_step_flush: "flush_step s s' \<Longrightarrow> shared_ok s \<Longrightarrow> shared_ok s'"
proof (induction rule: flush_step.induct)
  case (flush_splice s t ml pl)
  then have "mlist s @ plist s = ml @ pl" by (simp add: list_splice_tail_init_def)
  with flush_splice show ?case using owners_keep [of "ml @ pl" "alive s" "tpc s" F_half t]
    by (simp add: shared_ok_def)
qed (auto simp: shared_ok_def intro: owners_keep owners_free split: option.splits)

lemma shared_step: "sstep limit s s' \<Longrightarrow> shared_ok s \<Longrightarrow> shared_ok s'"
  by (induction rule: sstep.induct) (rule shared_step_write shared_step_read shared_step_work shared_step_flush; assumption)+

section \<open>The counter\<close>

text \<open>Threads that carry a message which is counted but in neither list.\<close>

fun transit :: "tpc \<Rightarrow> bool" where
  "transit (W_delayed m) = True"
| "transit (W_pending m) = True"
| "transit (K_own m) = True"
| "transit (K_in2 m) = True"
| "transit _ = False"

definition moving :: "(nat \<Rightarrow> tpc) \<Rightarrow> nat set" where
  "moving pc = {t. transit (pc t)}"

lemma moving_keep: "transit p = transit (pc t) \<Longrightarrow> moving (pc(t := p)) = moving pc"
  by (auto simp: moving_def)

lemma moving_in: "transit p \<Longrightarrow> moving (pc(t := p)) = insert t (moving pc)"
  by (auto simp: moving_def)

lemma moving_out: "\<not> transit p \<Longrightarrow> moving (pc(t := p)) = moving pc - {t}"
  by (auto simp: moving_def)

lemma in_moving: "t \<in> moving pc \<longleftrightarrow> transit (pc t)"
  by (simp add: moving_def)

definition counted :: "u32 \<Rightarrow> sstate \<Rightarrow> bool" where
  "counted limit s \<longleftrightarrow> finite (moving (tpc s)) \<and> number s \<le> limit
    \<and> unat (number s) = length (mlist s) + length (plist s) + card (moving (tpc s))"

lemma counted_step_write: "write_step limit s s' \<Longrightarrow> shared_ok s \<Longrightarrow> counted limit s \<Longrightarrow> counted limit s'"
proof (induction rule: write_step.induct)
  case (write_now s t m)
  then show ?case by (simp add: counted_def moving_keep list_add_def unat_Suc_less inc_le)
next
  case (write_later s t m)
  then have "t \<notin> moving (tpc s)" by (simp add: in_moving)
  with write_later show ?case by (simp add: counted_def moving_in unat_Suc_less inc_le)
next
  case (pending_add s t m)
  then have "t \<in> moving (tpc s)" by (simp add: in_moving)
  with pending_add card_Suc_Diff1 [of "moving (tpc s)" t] show ?case
    by (simp add: counted_def moving_out list_add_def)
qed (auto simp: counted_def moving_keep split: option.splits)

lemma counted_step_read: "read_step s s' \<Longrightarrow> shared_ok s \<Longrightarrow> counted limit s \<Longrightarrow> counted limit s'"
proof (induction rule: read_step.induct)
  case (read_take s t m)
  then have "distinct (mlist s @ plist s)" by (simp add: shared_ok_def owners_ok_def)
  note len = unlink_last_facts(4) [OF this read_take.hyps(2,3)]
  with read_take.prems(2) have pos: "number s \<noteq> 0" by (auto simp: counted_def)
  have "number s - 1 \<le> number s" using pos by (simp add: word_le_nat_alt unat_minus_one)
  with read_take.prems(2) have "number s - 1 \<le> limit" by (auto simp: counted_def)
  with read_take len pos show ?case by (simp add: counted_def moving_keep unat_minus_one)
qed (auto simp: counted_def moving_keep split: option.splits)

lemma counted_step_work: "work_step s s' \<Longrightarrow> shared_ok s \<Longrightarrow> counted limit s \<Longrightarrow> counted limit s'"
proof (induction rule: work_step.induct)
  case (work_take s t m)
  then have "distinct (plist s @ mlist s)" by (auto simp: shared_ok_def owners_ok_def)
  note len = unlink_last_facts(4) [OF this work_take.hyps(2,3)]
  from work_take have "t \<notin> moving (tpc s)" by (simp add: in_moving)
  with work_take len show ?case by (simp add: counted_def moving_in)
next
  case (work_add s t m)
  then have "t \<in> moving (tpc s)" by (simp add: in_moving)
  with work_add card_Suc_Diff1 [of "moving (tpc s)" t] show ?case
    by (simp add: counted_def moving_out list_add_def)
qed (auto simp: counted_def moving_keep split: option.splits)

lemma counted_step_flush: "flush_step s s' \<Longrightarrow> shared_ok s \<Longrightarrow> counted limit s \<Longrightarrow> counted limit s'"
proof (induction rule: flush_step.induct)
  case (flush_splice s t ml pl)
  then show ?case by (auto simp: counted_def moving_keep list_splice_tail_init_def)
qed (auto simp: counted_def moving_keep split: option.splits)

lemma counted_step: "sstep limit s s' \<Longrightarrow> shared_ok s \<Longrightarrow> counted limit s \<Longrightarrow> counted limit s'"
  by (induction rule: sstep.induct) (rule counted_step_write counted_step_read counted_step_work counted_step_flush; assumption)+

section \<open>All reachable states\<close>

lemma sreach_inv: "sreach limit s \<Longrightarrow> locks_ok s \<and> shared_ok s \<and> counted limit s"
proof (induction rule: sreach.induct)
  case init
  show ?case by (simp add: sinit_def locks_ok_def holder_ok_def shared_ok_def owners_ok_def counted_def moving_def)
next
  case (step s s')
  then show ?case using locks_step shared_step counted_step by blast
qed

lemma holder_unique:
  assumes "holder_ok h cs pc" and "cs (pc t)" and "cs (pc u)"
  shows "t = u"
proof -
  from assms have "h = Some t" "h = Some u" by (simp_all add: holder_ok_def)
  then show ?thesis by simp
qed

end
