(* ===== verification/Races.thy ===== *)
theory Races
  imports Group_Dev_Laws
begin

text \<open>
  Two places of \<open>group_dev.c\<close> where threads meet without a common semaphore: the flag byte,
  which is read, changed and written back by separate accesses, and the works that the
  traversal in \<open>fflush_workqueue\<close> walks over while timers go off.
\<close>

section \<open>The flag byte\<close>

text \<open>
  An update of the flags by one thread is a load into a register followed by a store of the
  changed value; \<open>flag_run\<close> executes accesses of several threads in a given order.
\<close>

datatype flag_access = Load nat | Store nat "u8 \<Rightarrow> u8"

fun flag_run :: "flag_access list \<Rightarrow> (nat \<Rightarrow> u8) \<Rightarrow> u8 \<Rightarrow> u8" where
  "flag_run [] reg v = v"
| "flag_run (Load t # as) reg v = flag_run as (reg(t := v)) v"
| "flag_run (Store t f # as) reg v = flag_run as reg (f (reg t))"

definition flag_update :: "nat \<Rightarrow> (u8 \<Rightarrow> u8) \<Rightarrow> flag_access list" where
  "flag_update t f = [Load t, Store t f]"

text \<open>Two updates by different threads: both happen, in one of the two orders, or one is lost.\<close>

lemma two_updates:
  assumes "t \<noteq> u"
  shows "(\<lambda>as. flag_run as reg v) ` shuffles (flag_update t f) (flag_update u g) = {f (g v), g (f v), f v, g v}"
  using assms by (auto simp: flag_update_def)

text \<open>Updates by threads that exclude each other all happen.\<close>

lemma serial_updates: "flag_run (concat (map (\<lambda>(t, f). flag_update t f) us)) reg v = fold snd us v"
  by (induction us arbitrary: reg v) (auto simp: flag_update_def)

section \<open>Timers during a flush\<close>

text \<open>
  The traversal of \<open>fflush_workqueue\<close> with the timers that expire before each iteration. An
  iteration starts by reading the links of the work it is at.
\<close>

fun expire :: "kheap \<Rightarrow> addr list \<Rightarrow> group_dev \<Rightarrow> (kheap \<times> group_dev) outcome" where
  "expire h [] d = Done (h, d)"
| "expire h (a # as) d = obind (timer_expires h a d) (\<lambda>(h, d). expire h as d)"

definition flush_visit :: "kheap \<Rightarrow> work \<Rightarrow> group_dev \<Rightarrow> (kheap \<times> group_dev) outcome" where
  "flush_visit h w d =
     (if work_addr w \<notin> live h then Fault UseAfterFree
      else flush_delayed_work h w
        (d\<lparr>delay_list := map_option (apsnd (list_del work_addr (work_addr w))) (delay_list d)\<rparr>))"

fun flush_traversal :: "kheap \<Rightarrow> (work \<times> addr list) list \<Rightarrow> group_dev \<Rightarrow> (kheap \<times> group_dev) outcome" where
  "flush_traversal h [] d = Done (h, d)"
| "flush_traversal h ((w, as) # plan) d =
     obind (expire h as d) (\<lambda>(h, d). obind (flush_visit h w d) (\<lambda>(h, d). flush_traversal h plan d))"

text \<open>Does the timer of a work expire before the traversal has come to that work?\<close>

fun early :: "(work \<times> addr list) list \<Rightarrow> bool" where
  "early [] = False"
| "early ((w, as) # plan) \<longleftrightarrow> set as \<inter> work_addr ` set (w # map fst plan) \<noteq> {} \<or> early plan"

text \<open>What holds in the traversal; \<open>rem\<close> are the works still to be visited.\<close>

definition flush_inv :: "kheap \<Rightarrow> work list \<Rightarrow> group_dev \<Rightarrow> bool" where
  "flush_inv h rem d \<longleftrightarrow> fun_ready d \<and> pendings d = [] \<and> is_flushing d \<noteq> 0
     \<and> distinct (map work_addr (armed d)) \<and> work_addr ` set (armed d) \<subseteq> live h
     \<and> (\<forall>w \<in> set rem. work_addr w \<in> live h \<longleftrightarrow> w \<in> set (armed d)) \<and> delay_wq d \<noteq> None"

lemma armed_disarm: "delay_wq d \<noteq> None \<Longrightarrow> armed (disarm w d) = list_del work_addr (work_addr w) (armed d)"
  by (auto simp: armed_def disarm_def)

lemma list_del_keeps: "distinct (map key xs) \<Longrightarrow> x \<in> set (list_del key a xs) \<longleftrightarrow> x \<in> set xs \<and> key x \<noteq> a"
proof (induction xs)
  case (Cons y ys)
  then have "y \<notin> set ys" "\<And>z. z \<in> set ys \<Longrightarrow> key z \<noteq> key y" by (auto simp: image_iff)
  with Cons show ?case by (cases "key y = a") auto
qed simp

lemma flush_inv_disarm:
  assumes "flush_inv h rem d" and "w \<in> set (armed d)"
  shows "flush_inv (h\<lparr>live := live h - {work_addr w}\<rparr>) rem (disarm w d)"
proof -
  from assms(1) have dist: "distinct (map work_addr (armed d))" and wq: "delay_wq d \<noteq> None"
    by (simp_all add: flush_inv_def)
  note arm = armed_disarm [OF wq, of w] list_del_keeps [OF dist] distinct_list_del [OF dist]
  from assms show ?thesis
    by (auto simp: flush_inv_def arm set_list_del [OF dist] fun_ready_def)
       (auto simp: disarm_def is_flushing_def fun_ready_def)
qed

lemma flush_inv_timer:
  assumes "flush_inv h rem d"
  shows "\<exists>h' d'. timer_expires h a d = Done (h', d') \<and> flush_inv h' rem d'
    \<and> (if a \<in> work_addr ` set rem then live h' = live h - {a} else live h - {a} \<subseteq> live h' \<and> live h' \<subseteq> live h)"
proof (cases "a \<in> work_addr ` set (armed d)")
  case True
  then obtain w where w: "w \<in> set (armed d)" "work_addr w = a" by auto
  from assms have "fun_ready (disarm w d)" "publish (disarm w d) = disarm w d" "is_flushing (disarm w d) \<noteq> 0"
    "work_addr w \<in> live h"
    using w by (auto simp: flush_inv_def fun_ready_def disarm_def publish_def is_flushing_def)
  moreover have "find (\<lambda>v. work_addr v = a) (armed d) = Some w"
    using find_work [of "armed d" w] assms w by (auto simp: flush_inv_def)
  ultimately have "timer_expires h a d = Done (h\<lparr>live := live h - {work_addr w}\<rparr>, disarm w d)"
    by (simp add: timer_expires_def delayed_work_fun_eq work_exit_ok)
  with flush_inv_disarm [OF assms w(1)] w(2) show ?thesis by auto
next
  case False
  then have "timer_expires h a d = Done (h, d)" by (rule timer_expires_stale)
  moreover have "a \<notin> live h" if "a \<in> work_addr ` set rem"
    using that False assms by (auto simp: flush_inv_def)
  ultimately show ?thesis using assms by auto
qed

lemma flush_inv_expire:
  assumes "flush_inv h rem d"
  shows "\<exists>h' d'. expire h as d = Done (h', d') \<and> flush_inv h' rem d'
    \<and> live h' \<inter> work_addr ` set rem = live h \<inter> work_addr ` set rem - set as"
  using assms
proof (induction as arbitrary: h d)
  case (Cons a as)
  from flush_inv_timer [OF Cons.prems, of a] obtain h1 d1 where
    step: "timer_expires h a d = Done (h1, d1)" "flush_inv h1 rem d1" and
    lv: "live h1 \<inter> work_addr ` set rem = live h \<inter> work_addr ` set rem - {a}" by (auto split: if_splits)
  from Cons.IH [OF step(2)] lv show ?case by (auto simp: step(1))
qed auto

lemma flush_inv_visit:
  assumes "flush_inv h (w # rem) d" and "distinct (map work_addr (w # rem))" and "work_addr w \<in> live h"
  shows "\<exists>h' d'. flush_visit h w d = Done (h', d') \<and> flush_inv h' rem d'
    \<and> live h' \<inter> work_addr ` set rem = live h \<inter> work_addr ` set rem"
proof -
  let ?d = "d\<lparr>delay_list := map_option (apsnd (list_del work_addr (work_addr w))) (delay_list d)\<rparr>"
  from assms(1) have inv: "flush_inv h (w # rem) ?d"
    by (simp add: flush_inv_def fun_ready_def is_flushing_def armed_def)
  with assms(3) have arm: "w \<in> set (armed ?d)" by (auto simp: flush_inv_def)
  with inv assms(3) have "flush_visit h w d = Done (h\<lparr>live := live h - {work_addr w}\<rparr>, disarm w ?d)"
    by (simp add: flush_visit_def flush_inv_def flush_delayed_work_idle)
  moreover have "flush_inv (h\<lparr>live := live h - {work_addr w}\<rparr>) rem (disarm w ?d)"
    using flush_inv_disarm [OF inv arm] by (auto simp: flush_inv_def)
  moreover have "(live h - {work_addr w}) \<inter> work_addr ` set rem = live h \<inter> work_addr ` set rem"
    using assms(2) unfolding list.map distinct.simps set_map by blast
  ultimately show ?thesis by simp
qed

text \<open>The traversal touches freed memory exactly when a timer expires too early.\<close>

lemma flush_traversal_outcome:
  assumes "flush_inv h (map fst plan) d" and "distinct (map work_addr (map fst plan))"
  shows "if early plan \<or> \<not> work_addr ` fst ` set plan \<subseteq> live h
         then flush_traversal h plan d = Fault UseAfterFree
         else \<exists>h' d'. flush_traversal h plan d = Done (h', d')"
  using assms
proof (induction plan arbitrary: h d)
  case (Cons x plan)
  obtain w as where x: "x = (w, as)" by (cases x)
  from flush_inv_expire [of h "w # map fst plan" d as] Cons.prems(1) x obtain h1 d1 where
    ex: "expire h as d = Done (h1, d1)" and inv: "flush_inv h1 (w # map fst plan) d1" and
    lv: "live h1 \<inter> work_addr ` set (w # map fst plan) = live h \<inter> work_addr ` set (w # map fst plan) - set as"
    by auto
  show ?case
  proof (cases "work_addr w \<in> live h1")
    case False
    then have "flush_traversal h (x # plan) d = Fault UseAfterFree" by (simp add: x ex flush_visit_def)
    moreover have "early (x # plan) \<or> work_addr w \<notin> live h" using False lv by (auto simp: x)
    ultimately show ?thesis by (auto simp: x)
  next
    case True
    from flush_inv_visit [OF inv _ True] Cons.prems(2) x obtain h2 d2 where
      vis: "flush_visit h1 w d1 = Done (h2, d2)" and inv2: "flush_inv h2 (map fst plan) d2" and
      lv2: "live h2 \<inter> work_addr ` set (map fst plan) = live h1 \<inter> work_addr ` set (map fst plan)" by auto
    have run: "flush_traversal h (x # plan) d = flush_traversal h2 plan d2" by (simp add: x ex vis)
    have "early (x # plan) \<or> \<not> work_addr ` fst ` set (x # plan) \<subseteq> live h
      \<longleftrightarrow> early plan \<or> \<not> work_addr ` fst ` set plan \<subseteq> live h2"
    proof -
      let ?W = "work_addr ` set (map fst plan)"
      have "insert (work_addr w) ?W \<subseteq> live h1 \<longleftrightarrow> insert (work_addr w) ?W \<subseteq> live h \<and> set as \<inter> insert (work_addr w) ?W = {}"
        using lv unfolding list.set image_insert by blast
      moreover have "?W \<subseteq> live h2 \<longleftrightarrow> ?W \<subseteq> live h1" using lv2 by blast
      ultimately show ?thesis using True by (simp add: x) blast
    qed
    with Cons.IH [OF inv2] Cons.prems(2) show ?thesis unfolding run by simp
  qed
qed simp

text \<open>Without timers the traversal is the loop that \<open>fflush_workqueue\<close> runs in one piece.\<close>

lemma flush_traversal_serial:
  assumes "flush_inv h ws d" and "distinct (map work_addr ws)" and "work_addr ` set ws \<subseteq> live h"
  shows "flush_traversal h (map (\<lambda>w. (w, [])) ws) d = flush_works h ws d"
  using assms
proof (induction ws arbitrary: h d)
  case (Cons w ws)
  from flush_inv_visit [OF Cons.prems(1,2)] Cons.prems(3) obtain h' d' where
    vis: "flush_visit h w d = Done (h', d')" and inv: "flush_inv h' ws d'" and
    lv: "live h' \<inter> work_addr ` set ws = live h \<inter> work_addr ` set ws" by auto
  have "work_addr ` set ws \<subseteq> live h'" using lv Cons.prems(3) by auto
  with Cons.IH [OF inv] Cons.prems(2) vis have "flush_traversal h (map (\<lambda>w. (w, [])) (w # ws)) d = flush_works h' ws d'"
    by simp
  moreover from vis Cons.prems(3) have "flush_works h (w # ws) d = flush_works h' ws d'"
    by (simp add: flush_visit_def Let_def)
  ultimately show ?case by simp
qed simp

text \<open>The state in which \<open>fflush_workqueue\<close> starts its traversal.\<close>

definition flush_start :: "group_dev \<Rightarrow> group_dev outcome" where
  "flush_start d = obind (raw_fflush_workqueue d) (\<lambda>d.
     obind (down (wq_sem d)) (\<lambda>s. Done (set_flushing (d\<lparr>wq_sem := s\<rparr>))))"

lemma flush_start_inv:
  assumes "dev_ok d" and "mem_ok h d" and "delay_wq d \<noteq> None" and "flush_start d = Done d0"
  shows "flush_inv h (rev (works d)) d0" and "distinct (map work_addr (rev (works d)))"
    and "work_addr ` set (rev (works d)) \<subseteq> live h"
proof -
  note sp = raw_fflush_ok [OF dev_ok_fun_ready [OF assms(1)]]
  from assms(1) have wq: "sem_free (wq_sem (splice_pending d))" by (simp add: dev_ok_def)
  from assms(4) sp wq have d0: "d0 = set_flushing ((splice_pending d)\<lparr>wq_sem := map_option (apsnd (\<lambda>_. 0)) (wq_sem (splice_pending d))\<rparr>)"
    by (simp add: flush_start_def sem_free_down)
  show dist: "distinct (map work_addr (rev (works d)))" using works_distinct [OF assms(2)] by (simp add: rev_map [symmetric])
  show lv: "work_addr ` set (rev (works d)) \<subseteq> live h" using works_live [OF assms(2)] by simp
  have "is_flushing d0 \<noteq> 0" unfolding d0 by (rule flushing.raise_visible)
  moreover have "armed d0 = works d" using assms(1) by (simp add: d0 set_flushing_def armed_def dev_ok_def)
  moreover have "fun_ready d0" using dev_ok_fun_ready [OF assms(1)]
    by (simp add: d0 set_flushing_def fun_ready_def splice_pending_def upd_defs)
  moreover have "pendings d0 = []" using assms(1)
    by (simp add: d0 set_flushing_def splice_pending_def upd_defs dev_ok_def)
  moreover have "delay_wq d0 \<noteq> None" using assms(3) by (simp add: d0 set_flushing_def)
  ultimately show "flush_inv h (rev (works d)) d0" using works_distinct [OF assms(2)] lv by (auto simp: flush_inv_def)
qed

lemma flush_start_Done: "dev_ok d \<Longrightarrow> \<exists>d0. flush_start d = Done d0"
  by (simp add: flush_start_def raw_fflush_ok [OF dev_ok_fun_ready] sem_free_down dev_ok_def)

section \<open>A timer before its work is linked\<close>

text \<open>
  \<open>add_delayed_work\<close> in two steps: \<open>queue_delayed_work\<close> starts the timer, and only then is the
  work linked into \<open>delay_list\<close>. The function of a work does not take \<open>wq_sem\<close>, so timers can
  expire in between.
\<close>

definition queue_work ::
  "('x) kernel_env_scheme \<Rightarrow> kheap \<Rightarrow> group_dev \<Rightarrow> (kheap \<times> work option \<times> group_dev) outcome" where
  "queue_work env h d =
     (case delay_wq d of None \<Rightarrow> Done (h, None, d)
      | Some ws \<Rightarrow> (case kmalloc env h of
          (None, h) \<Rightarrow> Done (h, None, d)
        | (Some a, h) \<Rightarrow>
            let w = \<lparr>work_addr = a, work_dev = dev_addr d, work_delay = delay d\<rparr> in
            obind (down (wq_sem d)) (\<lambda>s.
            Done (h, Some w, d\<lparr>wq_sem := s, delay_wq := Some (list_add w ws)\<rparr>))))"

definition link_work :: "kheap \<Rightarrow> work option \<Rightarrow> group_dev \<Rightarrow> (kheap \<times> group_dev) outcome" where
  "link_work h wo d = (case wo of None \<Rightarrow> Done (h, d) | Some w \<Rightarrow>
     if work_addr w \<notin> live h then Fault UseAfterFree
     else case delay_list d of None \<Rightarrow> Fault NullDeref
     | Some (la, ls) \<Rightarrow>
         obind (up (wq_sem d)) (\<lambda>s. Done (h, d\<lparr>delay_list := Some (la, list_add w ls), wq_sem := s\<rparr>)))"

definition add_work_interrupted ::
  "('x) kernel_env_scheme \<Rightarrow> kheap \<Rightarrow> addr list \<Rightarrow> group_dev \<Rightarrow> (kheap \<times> group_dev) outcome" where
  "add_work_interrupted env h as d =
     obind (queue_work env h d) (\<lambda>(h, wo, d). obind (expire h as d) (\<lambda>(h, d). link_work h wo d))"

text \<open>What holds between the two steps; \<open>w\<close> is the new work.\<close>

definition link_inv :: "kheap \<Rightarrow> work \<Rightarrow> group_dev \<Rightarrow> bool" where
  "link_inv h w d \<longleftrightarrow> fun_ready d \<and> is_flushing d = 0 \<and> delay_wq d \<noteq> None \<and> delay_list d \<noteq> None
     \<and> distinct (map work_addr (armed d)) \<and> work_addr ` set (armed d) \<subseteq> live h
     \<and> (work_addr w \<in> live h \<longleftrightarrow> w \<in> set (armed d))"

lemma link_inv_timer:
  assumes inv: "link_inv h w d"
  shows "\<exists>h' d'. timer_expires h a d = Done (h', d') \<and> link_inv h' w d'
    \<and> (work_addr w \<in> live h' \<longleftrightarrow> work_addr w \<in> live h \<and> a \<noteq> work_addr w)"
proof (cases "a \<in> work_addr ` set (armed d)")
  case True
  then obtain v where v: "v \<in> set (armed d)" "work_addr v = a" by auto
  from inv have dist: "distinct (map work_addr (armed d))" and wq: "delay_wq d \<noteq> None" by (simp_all add: link_inv_def)
  let ?h = "h\<lparr>live := live h - {a}\<rparr>" and ?d = "publish (disarm v d)"
  let ?e = "?d\<lparr>delay_list := set_pointee (list_del work_addr (work_addr v) (works ?d)) (delay_list ?d)\<rparr>"
  from inv have ready: "fun_ready (disarm v d)" "is_flushing ?d = 0" "work_addr v \<in> live h"
    using v by (auto simp: link_inv_def fun_ready_def disarm_def is_flushing_def)
  have expires: "timer_expires h a d = Done (?h, ?e)"
    using find_work [OF dist v(1)] ready v(2)
    by (simp add: timer_expires_def delayed_work_fun_eq work_exit_ok)
  have arm: "armed ?e = list_del work_addr a (armed d)"
    using v(2) armed_disarm [OF wq, of v] by (simp add: armed_def publish_def upd_defs)
  have "fun_ready ?e" using ready(1) by (auto simp: fun_ready_def publish_def upd_defs)
  moreover have "is_flushing ?e = 0" using ready(2) by (simp add: is_flushing_def)
  moreover have "delay_wq ?e \<noteq> None" "delay_list ?e \<noteq> None"
    using inv by (auto simp: link_inv_def disarm_def publish_def upd_defs set_pointee_def)
  moreover have "work_addr w \<in> live ?h \<longleftrightarrow> w \<in> set (armed ?e)"
    unfolding arm list_del_keeps [OF dist] using inv by (auto simp: link_inv_def)
  moreover have "work_addr ` set (armed ?e) \<subseteq> live ?h"
    unfolding arm set_list_del [OF dist] using inv by (auto simp: link_inv_def)
  moreover have "distinct (map work_addr (armed ?e))" unfolding arm by (rule distinct_list_del [OF dist])
  ultimately have "link_inv ?h w ?e" by (simp only: link_inv_def simp_thms)
  moreover have "work_addr w \<in> live ?h \<longleftrightarrow> work_addr w \<in> live h \<and> a \<noteq> work_addr w" by auto
  ultimately show ?thesis using expires by blast
next
  case False
  with inv timer_expires_stale [OF False, of h] show ?thesis by (auto simp: link_inv_def)
qed

lemma link_inv_expire:
  assumes "link_inv h w d"
  shows "\<exists>h' d'. expire h as d = Done (h', d') \<and> link_inv h' w d'
    \<and> (work_addr w \<in> live h' \<longleftrightarrow> work_addr w \<in> live h \<and> work_addr w \<notin> set as)"
  using assms
proof (induction as arbitrary: h d)
  case (Cons a as)
  from link_inv_timer [OF Cons.prems, of a] obtain h1 d1 where
    step: "timer_expires h a d = Done (h1, d1)" "link_inv h1 w d1" and
    lv: "work_addr w \<in> live h1 \<longleftrightarrow> work_addr w \<in> live h \<and> a \<noteq> work_addr w" by blast
  from Cons.IH [OF step(2)] lv show ?case by (auto simp: step(1))
qed auto

text \<open>The first step, and the whole when nothing happens in between.\<close>

lemma queue_work_inv:
  assumes "dev_ok d" and "mem_ok h d" and "delay_wq d = Some ws" and "kmalloc env h = (Some a, h')"
  shows "\<exists>w d'. queue_work env h d = Done (h', Some w, d') \<and> work_addr w = a \<and> link_inv h' w d' \<and> a \<in> live h'"
proof -
  let ?w = "\<lparr>work_addr = a, work_dev = dev_addr d, work_delay = delay d\<rparr>"
  let ?d = "d\<lparr>wq_sem := map_option (apsnd (\<lambda>_. 0)) (wq_sem d), delay_wq := Some (?w # ws)\<rparr>"
  from assms(1) have wq: "sem_free (wq_sem d)" by (simp add: dev_ok_def)
  with assms(3,4) have run: "queue_work env h d = Done (h', Some ?w, ?d)"
    by (simp add: queue_work_def sem_free_down list_add_def Let_def)
  from assms(2) have "heap_ok h" by (simp add: mem_ok_def)
  note new = kmalloc_Some [OF assms(4) this]
  have ws: "ws = works d" using assms(1,3) by (simp add: dev_ok_def armed_def)
  have lv: "work_addr ` set ws \<subseteq> live h" using works_live [OF assms(2)] ws by simp
  have dist: "distinct (map work_addr ws)" using works_distinct [OF assms(2)] ws by simp
  from lv new(1) have "a \<notin> work_addr ` set ws" by blast
  moreover have "fun_ready ?d" using dev_ok_fun_ready [OF assms(1)] wq by (auto simp: fun_ready_def sem_free_def)
  ultimately have "link_inv h' ?w ?d" using assms(1) dist lv new(2)
    by (auto simp: link_inv_def armed_def is_flushing_def dev_ok_def)
  with run new(2) show ?thesis by fastforce
qed

lemma add_work_serial:
  assumes "dev_ok d" and "mem_ok h d"
  shows "add_work_interrupted env h [] d = add_delayed_work env h d"
proof (cases "delay_wq d")
  case None
  then show ?thesis by (simp add: add_work_interrupted_def queue_work_def add_delayed_work_def link_work_def)
next
  case (Some ws)
  from assms(1) have wq: "sem_free (wq_sem d)" by (simp add: dev_ok_def)
  show ?thesis
  proof (cases "fst (kmalloc env h)")
    case None
    with Some show ?thesis
      by (cases "kmalloc env h") (simp add: add_work_interrupted_def queue_work_def add_delayed_work_def link_work_def)
  next
    case (Some a)
    from assms(2) have "heap_ok h" by (simp add: mem_ok_def)
    with kmalloc_Some(2) [of env h a] Some have "a \<in> live (snd (kmalloc env h))" by (cases "kmalloc env h") auto
    with Some \<open>delay_wq d = Some ws\<close> wq show ?thesis
      by (cases "kmalloc env h"; cases "delay_list d")
        (auto simp: add_work_interrupted_def queue_work_def add_delayed_work_def link_work_def sem_free_def down_def up_def Let_def)
  qed
qed

end
