(* ===== verification/Concurrency_Properties.thy ===== *)
theory Concurrency_Properties
  imports Barrier Locks Sharing Races Example_Device
begin

text \<open>
  The theorems about threads that work on one group device at the same time: its semaphores,
  the ownership of messages, the barrier, and the places that no semaphore protects.
\<close>

section \<open>Semaphores\<close>



section \<open>Some interleavings\<close>

text \<open>A read of the only message by a thread that nobody gets in the way of.\<close>

lemma read_last:
  assumes "sreach limit s" and "tpc s t = Resting" and "mlist s = [m]" and "msem s = None"
  shows "\<exists>s'. sreach limit s' \<and> alive s' = alive s - {m} \<and> (\<forall>u. u \<noteq> t \<longrightarrow> tpc s' u = tpc s u)"
proof -
  obtain pl al ps n pc where s: "s = \<lparr>mlist = [m], plist = pl, alive = al, msem = None, psem = ps, number = n, tpc = pc\<rparr>"
    using assms(3,4) by (cases s) auto
  let ?st = "\<lambda>ml al ms n p. \<lparr>mlist = ml, plist = pl, alive = al, msem = ms, psem = ps, number = n, tpc = pc(t := p)\<rparr>"
  have 1: "sstep limit s (?st [m] al None n R_start)"
    using sstep_read_begin [OF assms(2), of limit] by (simp add: s)
  have 2: "sstep limit (?st [m] al None n R_start) (?st [m] al (Some t) n R_in)"
    using sstep_read_lock [of "?st [m] al None n R_start" t limit] by simp
  have 3: "sstep limit (?st [m] al (Some t) n R_in) (?st [] al None (n - 1) (R_own m))"
    using sstep_read_take [of "?st [m] al (Some t) n R_in" t m limit] by (simp add: list_empty_def list_last_entry_def)
  have 4: "sstep limit (?st [] al None (n - 1) (R_own m)) (?st [] al None (n - 1) (R_free m))"
    using sstep_read_copy [of "?st [] al None (n - 1) (R_own m)" t m limit] by simp
  have 5: "sstep limit (?st [] al None (n - 1) (R_free m)) (?st [] (al - {m}) None (n - 1) Resting)"
    using sstep_read_free [of "?st [] al None (n - 1) (R_free m)" t m limit] by simp
  have "sreach limit (?st [] (al - {m}) None (n - 1) Resting)"
    by (rule sreach.step [OF sreach.step [OF sreach.step [OF sreach.step [OF sreach.step [OF assms(1) 1] 2] 3] 4] 5])
  then show ?thesis by (intro exI [of _ "?st [] (al - {m}) None (n - 1) Resting"]) (simp add: s)
qed

text \<open>A thread has just linked message 1.\<close>

definition ex_written :: sstate where
  "ex_written = goto 0 (W_print 1 1) (sinit\<lparr>mlist := [1], alive := {1}, number := 1\<rparr>)"

lemma ex_written_reach: "0 < limit \<Longrightarrow> sreach limit ex_written"
proof -
  assume limit: "0 < limit"
  let ?s1 = "goto 0 (W_ready 1) (sinit\<lparr>alive := {1}\<rparr>)"
  let ?s2 = "goto 0 (W_in 1) (?s1\<lparr>msem := Some 0\<rparr>)"
  have "sreach limit ?s1" using sreach.step [OF sreach.init sstep_write_begin [of sinit 0 1]] by (simp add: sinit_def)
  then have "sreach limit ?s2" by (rule sreach.step) (rule sstep_write_lock, simp_all add: sinit_def)
  moreover have "sstep limit ?s2 ex_written"
    using sstep_write_now [of ?s2 0 1 limit] limit
    by (simp add: ex_written_def sinit_def list_add_def list_last_entry_def)
  ultimately show ?thesis by (rule sreach.step)
qed

text \<open>A thread has written message 1 with a delay, and a work has just published it.\<close>

definition ex_moved :: sstate where
  "ex_moved = goto 1 (K_log 1) (sinit\<lparr>mlist := [1], alive := {1}, number := 1\<rparr>)"

lemma ex_moved_reach: "0 < limit \<Longrightarrow> sreach limit ex_moved"
proof -
  assume limit: "0 < limit"
  let ?s1 = "goto 0 (W_ready 1) (sinit\<lparr>alive := {1}\<rparr>)"
  let ?s2 = "goto 0 (W_in 1) (?s1\<lparr>msem := Some 0\<rparr>)"
  let ?s3 = "goto 0 (W_delayed 1) (sinit\<lparr>alive := {1}, number := 1\<rparr>)"
  let ?s4 = "goto 0 (W_pending 1) (?s3\<lparr>psem := Some 0\<rparr>)"
  let ?s5 = "goto 0 (W_log 1) (sinit\<lparr>plist := [1], alive := {1}, number := 1\<rparr>)"
  let ?s6 = "sinit\<lparr>plist := [1], alive := {1}, number := 1\<rparr>"
  let ?s7 = "goto 1 K_start ?s6"
  let ?s8 = "goto 1 K_in (?s6\<lparr>psem := Some 1\<rparr>)"
  let ?s9 = "goto 1 (K_own 1) (?s6\<lparr>plist := []\<rparr>)"
  let ?s10 = "goto 1 (K_in2 1) (?s9\<lparr>msem := Some 1\<rparr>)"
  note d = sinit_def list_add_def list_last_entry_def list_empty_def
  have 1: "sstep limit sinit ?s1" using sstep_write_begin [of sinit 0 1 limit] by (simp add: d)
  have 2: "sstep limit ?s1 ?s2" using sstep_write_lock [of ?s1 0 1 limit] by (simp add: d)
  have 3: "sstep limit ?s2 ?s3" using sstep_write_later [of ?s2 0 1 limit] limit by (simp add: d)
  have 4: "sstep limit ?s3 ?s4" using sstep_pending_lock [of ?s3 0 1 limit] by (simp add: d)
  have 5: "sstep limit ?s4 ?s5" using sstep_pending_add [of ?s4 0 1 limit] by (simp add: d)
  have 6: "sstep limit ?s5 ?s6" using sstep_write_log [of ?s5 0 1 limit] by (simp add: d fun_upd_idem)
  have 7: "sstep limit ?s6 ?s7" using sstep_work_begin [of ?s6 1 limit] by (simp add: d)
  have 8: "sstep limit ?s7 ?s8" using sstep_work_lock [of ?s7 1 limit] by (simp add: d)
  have 9: "sstep limit ?s8 ?s9" using sstep_work_take [of ?s8 1 1 limit] by (simp add: d)
  have 10: "sstep limit ?s9 ?s10" using sstep_work_lock2 [of ?s9 1 1 limit] by (simp add: d)
  have 11: "sstep limit ?s10 ex_moved" using sstep_work_add [of ?s10 1 1 limit] by (simp add: d ex_moved_def)
  note r3 = sreach.step [OF sreach.step [OF sreach.step [OF sreach.init 1] 2] 3]
  note r6 = sreach.step [OF sreach.step [OF sreach.step [OF r3 4] 5] 6]
  note r9 = sreach.step [OF sreach.step [OF sreach.step [OF r6 7] 8] 9]
  show ?thesis by (rule sreach.step [OF sreach.step [OF r9 10] 11])
qed

section \<open>Messages\<close>

text \<open>C11: Messages are handed over safely. In every state that concurrent readers, writers, works and
  flushes of one device can reach: at most one thread is inside a critical section of each
  semaphore; the two lists hold different messages, all of them allocated; and a message that a
  thread has taken for itself is allocated, is in no list and is not taken by another thread. So
  no message is read, freed or delivered twice.\<close>

theorem messages_handed_over:
  assumes "sreach limit s"
  shows "(in_message_cs (tpc s t) \<and> in_message_cs (tpc s u) \<longrightarrow> t = u)
    \<and> (in_pending_cs (tpc s t) \<and> in_pending_cs (tpc s u) \<longrightarrow> t = u)
    \<and> distinct (mlist s @ plist s) \<and> set (mlist s @ plist s) \<subseteq> alive s
    \<and> (\<forall>m. own (tpc s t) = Some m \<longrightarrow> m \<in> alive s \<and> m \<notin> set (mlist s @ plist s)
        \<and> (t \<noteq> u \<longrightarrow> own (tpc s u) \<noteq> Some m))"
proof -
  from sreach_inv [OF assms] have locks: "holder_ok (msem s) in_message_cs (tpc s)" "holder_ok (psem s) in_pending_cs (tpc s)"
    and owners: "owners_ok (mlist s @ plist s) (alive s) (tpc s)"
    by (simp_all add: locks_ok_def shared_ok_def)
  have "\<forall>m. own (tpc s t) = Some m \<longrightarrow> t \<noteq> u \<longrightarrow> own (tpc s u) \<noteq> Some m"
    using owners unfolding owners_ok_def by (metis option.distinct(1))
  with owners holder_unique [OF locks(1)] holder_unique [OF locks(2)] show ?thesis
    unfolding owners_ok_def by auto
qed

theorem messages_handed_over_witness:
  "distinct (mlist ex_written @ plist ex_written) \<and> set (mlist ex_written) \<subseteq> alive ex_written"
  using messages_handed_over [OF ex_written_reach [of 1], of 0 0] by simp

text \<open>C19: The counter is exact. In every reachable state the number of messages the device counts is the
  number of messages in its two lists and in transit between them or on their way into the list
  of delayed messages; it never exceeds the limit the writers test it against.\<close>

theorem counter_exact:
  assumes "sreach limit s"
  shows "number s \<le> limit
    \<and> unat (number s) = length (mlist s) + length (plist s) + card {t. transit (tpc s t)}
    \<and> finite {t. transit (tpc s t)}"
  using sreach_inv [OF assms] by (simp add: counted_def moving_def)

theorem counter_exact_witness:
  "number ex_written \<le> 1 \<and> unat (number ex_written) = 1 + card {t. transit (tpc ex_written t)}"
  using counter_exact [OF ex_written_reach [of 1]] by (simp add: ex_written_def sinit_def)

text \<open>C27: Messages are used after they are freed. The list of messages is printed, and the message is
  logged, after the semaphore has been released: a reader can take and free the message before. A
  writer is then still at the freed message, with the traversal of the list or with the last log
  line; likewise a work that has published a delayed message.\<close>

theorem log_after_free:
  assumes "0 < limit"
  shows "(\<exists>s. sreach limit s \<and> tpc s 0 = W_print 1 1 \<and> 1 \<notin> alive s)
    \<and> (\<exists>s. sreach limit s \<and> tpc s 0 = W_log 1 \<and> 1 \<notin> alive s)
    \<and> (\<exists>s. sreach limit s \<and> tpc s 1 = K_log 1 \<and> 1 \<notin> alive s)"
proof -
  have read: "\<exists>s'. sreach limit s' \<and> alive s' = alive s - {1} \<and> (\<forall>u. u \<noteq> t \<longrightarrow> tpc s' u = tpc s u)"
    if "sreach limit s" "tpc s t = Resting" "mlist s = [1]" "msem s = None" for s t
    by (rule read_last [OF that])
  have w: "sreach limit ex_written" by (rule ex_written_reach [OF assms])
  from read [OF w, of 1] have 1: "\<exists>s. sreach limit s \<and> tpc s 0 = W_print 1 1 \<and> 1 \<notin> alive s"
    by (auto simp: ex_written_def sinit_def)
  from w have "sreach limit (goto 0 (W_log 1) ex_written)"
    by (rule sreach.step) (use sstep_write_print [of ex_written 0 1 1 limit] in \<open>simp add: ex_written_def sinit_def\<close>)
  from read [OF this, of 1] have 2: "\<exists>s. sreach limit s \<and> tpc s 0 = W_log 1 \<and> 1 \<notin> alive s"
    by (auto simp: ex_written_def sinit_def)
  from read [OF ex_moved_reach [OF assms], of 0] have 3: "\<exists>s. sreach limit s \<and> tpc s 1 = K_log 1 \<and> 1 \<notin> alive s"
    by (auto simp: ex_moved_def sinit_def)
  from 1 2 3 show ?thesis by blast
qed

theorem log_after_free_witness:
  "\<exists>s. sreach 64 s \<and> tpc s 1 = K_log 1 \<and> 1 \<notin> alive s"
  using log_after_free [of 64] by simp

section \<open>Works and flags\<close>

text \<open>The loop over the works is what the model runs in one piece. Visiting the works one at a time,
  with a check that each is still allocated, computes the same as the loop of fflush_workqueue as long
  as no timer expires meanwhile.\<close>

theorem flush_in_one_piece:
  assumes "dev_ok d" and "mem_ok h d" and "delay_wq d \<noteq> None" and "flush_start d = Done d0"
  shows "flush_traversal h (map (\<lambda>w. (w, [])) (rev (works d))) d0 = flush_works h (rev (works d)) d0"
  by (rule flush_traversal_serial [OF flush_start_inv [OF assms]])


text \<open>A device with two delayed messages and their works.\<close>

definition ex_w1 :: work where "ex_w1 = \<lparr>work_addr = 10, work_dev = 1, work_delay = 5\<rparr>"

definition ex_w2 :: work where "ex_w2 = \<lparr>work_addr = 13, work_dev = 1, work_delay = 5\<rparr>"

definition ex_two :: group_dev where
  "ex_two = ex_dev\<lparr>messages_number := 2, delay := 5,
     pending_list := Some (4, [\<lparr>msg_addr = 12, data_size = 1, data = Some (11, [6, 0])\<rparr>,
                               \<lparr>msg_addr = 9, data_size = 1, data = Some (8, [5, 0])\<rparr>]),
     delay_list := Some (7, [ex_w2, ex_w1]), delay_wq := Some [ex_w2, ex_w1]\<rparr>"

definition ex_two_heap :: kheap where
  "ex_two_heap = \<lparr>brk = 14, live = {1, 2, 3, 4, 5, 6, 7, 8, 9, 10, 11, 12, 13}\<rparr>"

lemma ex_two_ok [simp]: "dev_ok ex_two" "mem_ok ex_two_heap ex_two" "delay_wq ex_two \<noteq> None"
  using ex_dev_ok
  by (auto simp: ex_two_def ex_two_heap_def dev_ok_def mem_ok_def heap_ok_def owned_def msg_owned_def
      ex_dev_def msg_ok_def armed_def is_flushing_def ex_w1_def ex_w2_def)

theorem flush_in_one_piece_witness:
  "\<exists>d0. flush_start ex_two = Done d0
    \<and> flush_traversal ex_two_heap [(ex_w1, []), (ex_w2, [])] d0 = flush_works ex_two_heap [ex_w1, ex_w2] d0"
proof -
  from flush_start_Done [OF ex_two_ok(1)] obtain d0 where d0: "flush_start ex_two = Done d0" by blast
  have "rev (works ex_two) = [ex_w1, ex_w2]" by (simp add: ex_two_def)
  with flush_in_one_piece [OF ex_two_ok d0] d0 show ?thesis by simp
qed


text \<open>C25: A new work is linked after its timer has started. The timers that expire between
  queue_delayed_work and list_add in add_delayed_work are harmless unless the one of the new work is
  among them: then the work has freed itself, and linking it writes to freed memory. Without timers in
  between the two steps are add_delayed_work.\<close>

theorem add_work_race:
  assumes "dev_ok d" and "mem_ok h d" and "delay_wq d = Some ws" and "kmalloc env h = (Some a, h')"
  shows "add_work_interrupted env h [] d = add_delayed_work env h d
    \<and> (if a \<in> set as then add_work_interrupted env h as d = Fault UseAfterFree
       else \<exists>h2 d2. add_work_interrupted env h as d = Done (h2, d2))"
proof -
  from queue_work_inv [OF assms] obtain w d1 where
    queue: "queue_work env h d = Done (h', Some w, d1)" "work_addr w = a" "a \<in> live h'" and inv: "link_inv h' w d1" by blast
  from link_inv_expire [OF inv, of as] queue(2,3) obtain h1 d2 where
    ex: "expire h' as d1 = Done (h1, d2)" and inv2: "link_inv h1 w d2" and lv: "a \<in> live h1 \<longleftrightarrow> a \<notin> set as" by auto
  have run: "add_work_interrupted env h as d = link_work h1 (Some w) d2"
    by (simp add: add_work_interrupted_def queue(1) ex)
  have "if a \<in> set as then link_work h1 (Some w) d2 = Fault UseAfterFree
      else \<exists>h3 d3. link_work h1 (Some w) d2 = Done (h3, d3)"
    using lv inv2 queue(2) by (auto simp: link_work_def link_inv_def fun_ready_def up_def split: option.splits)
  with add_work_serial [OF assms(1,2), of env] show ?thesis by (simp only: run)
qed

theorem add_work_race_witness:
  "add_work_interrupted ex_env ex_heap [8] ex_dev = Fault UseAfterFree
    \<and> (\<exists>h d. add_work_interrupted ex_env ex_heap [7] ex_dev = Done (h, d))"
proof -
  have wq: "delay_wq ex_dev = Some []" by (simp add: ex_dev_def)
  have new: "kmalloc ex_env ex_heap = (Some 8, \<lparr>brk = 9, live = insert 8 (live ex_heap)\<rparr>)"
    by (simp add: kmalloc_def ex_env_def ex_heap_def)
  show ?thesis using add_work_race [OF ex_dev_ok ex_mem_ok wq new, of "[8]"]
    add_work_race [OF ex_dev_ok ex_mem_ok wq new, of "[7]"] by simp
qed

text \<open>C34: Updates of the flag byte get lost. The two flags share a byte that is updated without a common
  semaphore. When one thread lowers the barrier while another one starts a flush, the byte ends up
  with both changes or with only one of them; in the third case the barrier is still up after AWAKE
  has lowered it.\<close>

theorem flag_update_lost:
  assumes "t \<noteq> u"
  shows "(\<lambda>as. flag_run as reg (flags d)) `
       shuffles (flag_update t (\<lambda>v. c_clear_bit v BARRIER_BIT)) (flag_update u (\<lambda>v. c_set_bit v FLUSHING_BIT))
     = {flags (set_flushing (clear_barrier d)), flags (clear_barrier d), flags (set_flushing d)}
   \<and> is_barrier_up (set_flushing d) = is_barrier_up d"
proof -
  have "c_set_bit (c_clear_bit v BARRIER_BIT) FLUSHING_BIT = c_clear_bit (c_set_bit v FLUSHING_BIT) BARRIER_BIT" for v
    by (rule bit_word_eqI) (auto simp: bit_c_clear_bit bit_c_set_bit BARRIER_BIT_def FLUSHING_BIT_def)
  then show ?thesis using two_updates [OF assms] flushing.other_raise [of d]
    by (auto simp: set_flushing_def clear_barrier_def)
qed

theorem flag_update_lost_witness:
  "flags (set_flushing ex_dev) \<in> (\<lambda>as. flag_run as (\<lambda>_. 0) (flags ex_dev)) `
     shuffles (flag_update 1 (\<lambda>v. c_clear_bit v BARRIER_BIT)) (flag_update 2 (\<lambda>v. c_set_bit v FLUSHING_BIT))"
  using flag_update_lost [of 1 2 "\<lambda>_. 0" ex_dev] by simp

section \<open>The barrier\<close>


text \<open>Runs of the barrier of one device, by whether it is up and where the threads are.\<close>

definition ex_bar :: "bool \<Rightarrow> (nat \<Rightarrow> bpc) \<Rightarrow> bstate" where
  "ex_bar raised pc = \<lparr>bdev = (if raised then set_barrier ex_dev else clear_barrier ex_dev), bpc = pc\<rparr>"

lemma ex_bar_pc [simp]: "bpc (ex_bar raised pc) = pc"
  by (simp add: ex_bar_def)

lemma ex_bar_up [simp]: "is_barrier_up (bdev (ex_bar raised pc)) = (if raised then 1 else 0)"
  by (simp add: ex_bar_def barrier.test_lower barrier.test_raise)

lemma ex_bar_goto: "bgoto t p (ex_bar raised pc) = ex_bar raised (pc(t := p))"
  by (simp add: ex_bar_def)

lemma ex_bar_flip:
  "(ex_bar raised pc)\<lparr>bdev := set_barrier (bdev (ex_bar raised pc))\<rparr> = ex_bar True pc"
  "(ex_bar raised pc)\<lparr>bdev := clear_barrier (bdev (ex_bar raised pc))\<rparr> = ex_bar False pc"
proof -
  have "c_set_bit (c_clear_bit v 0) 0 = c_set_bit v 0" "c_set_bit (c_set_bit v 0) 0 = c_set_bit v 0"
    "c_clear_bit (c_set_bit v 0) 0 = c_clear_bit v 0" "c_clear_bit (c_clear_bit v 0) 0 = c_clear_bit v 0" for v
    by (rule bit_word_eqI, auto simp: bit_c_clear_bit bit_c_set_bit)+
  then show "(ex_bar raised pc)\<lparr>bdev := set_barrier (bdev (ex_bar raised pc))\<rparr> = ex_bar True pc"
    "(ex_bar raised pc)\<lparr>bdev := clear_barrier (bdev (ex_bar raised pc))\<rparr> = ex_bar False pc"
    by (simp_all add: ex_bar_def set_barrier_def clear_barrier_def BARRIER_BIT_def)
qed

lemma ex_bar_steps:
  "pc t = Outside \<Longrightarrow> bstep (ex_bar raised pc) (ex_bar True (pc(t := Raised)))"
  "pc t = Raised \<Longrightarrow> bstep (ex_bar True pc) (ex_bar True (pc(t := Queued)))"
  "pc t = Queued \<Longrightarrow> bstep (ex_bar True pc) (ex_bar True (pc(t := Asleep)))"
  "pc t = Outside \<Longrightarrow> bstep (ex_bar True pc) (ex_bar False (pc(t := Waking)))"
  "pc t = Waking \<Longrightarrow> bstep (ex_bar raised pc) (ex_bar raised ((woken pc)(t := Outside)))"
  using bstep.raise [of "ex_bar raised pc" t] bstep.enqueue [of "ex_bar True pc" t]
    bstep.doze [of "ex_bar True pc" t] bstep.lower [of "ex_bar True pc" t] bstep.wake [of "ex_bar raised pc" t]
  by (simp_all add: ex_bar_flip ex_bar_goto) (simp_all add: ex_bar_def)

text \<open>Thread 1 sleeps and thread 2 has lowered the barrier.\<close>

lemma ex_lowered_reach: "breach (ex_bar False ((\<lambda>_. Outside)(1 := Asleep, 2 := Waking)))"
proof -
  let ?o = "\<lambda>_ :: nat. Outside"
  have "breach (ex_bar False ?o)" by (rule breach.init) simp_all
  note 1 = breach.step [OF this ex_bar_steps(1) [of ?o 1]]
  then have 1: "breach (ex_bar True (?o(1 := Raised)))" by simp
  from breach.step [OF 1 ex_bar_steps(2) [of _ 1]] have 2: "breach (ex_bar True (?o(1 := Queued)))" by simp
  from breach.step [OF 2 ex_bar_steps(3) [of _ 1]] have 3: "breach (ex_bar True (?o(1 := Asleep)))" by simp
  from breach.step [OF 3 ex_bar_steps(4) [of _ 2]] show ?thesis by simp
qed


text \<open>C35: AWAKE does not awake every thread. A thread is asleep and another one executes AWAKE; before the
  first one gets to test the barrier again, a third one raises it with SLEEP. The first thread goes
  back to sleep: AWAKE has returned, no wake-up is on its way, and the thread has never left.\<close>

theorem awake_undone:
  "\<exists>s s'. breach s \<and> bpc s 1 = Asleep \<and> bpc s 2 = Waking \<and> is_barrier_up (bdev s) = 0
     \<and> bstep\<^sup>*\<^sup>* s s' \<and> bpc s' 1 = Asleep \<and> bpc s' 2 = Outside \<and> (\<forall>u. bpc s' u \<noteq> Waking)"
proof -
  let ?o = "\<lambda>_ :: nat. Outside"
  let ?s = "ex_bar False (?o(1 := Asleep, 2 := Waking))"
  let ?s' = "ex_bar True (?o(1 := Asleep, 3 := Raised))"
  have "(woken (?o(1 := Asleep, 2 := Waking)))(2 := Outside) = ?o(1 := Queued)"
    by (auto simp: woken_def)
  with ex_bar_steps(5) [of "?o(1 := Asleep, 2 := Waking)" 2 False] have 1: "bstep ?s (ex_bar False (?o(1 := Queued)))"
    by simp
  have 2: "bstep (ex_bar False (?o(1 := Queued))) (ex_bar True (?o(1 := Queued, 3 := Raised)))"
    by (rule ex_bar_steps(1)) simp
  have "?o(1 := Queued, 3 := Raised, 1 := Asleep) = ?o(1 := Asleep, 3 := Raised)" by auto
  with ex_bar_steps(3) [of "?o(1 := Queued, 3 := Raised)" 1] have
    3: "bstep (ex_bar True (?o(1 := Queued, 3 := Raised))) ?s'" by simp
  from 1 2 3 have "bstep\<^sup>*\<^sup>* ?s ?s'" by (meson converse_rtranclp_into_rtranclp rtranclp.rtrancl_refl)
  with ex_lowered_reach show ?thesis by (intro exI [of _ ?s] exI [of _ ?s']) simp
qed

end
