(* ===== verification/Sharing_History.thy ===== *)
theory Sharing_History
  imports Sharing
begin

text \<open>
  The interleaved steps of \<open>Sharing\<close> with history variables: which messages were put into the
  list of available messages by writers, which into the list of delayed ones, which left that
  list, and which readers took, each in the order of the critical sections. Proved here: messages
  are conserved in every interleaving, delayed messages leave their list in the order they came
  in, and without delayed messages the device is a FIFO.
\<close>

section \<open>Histories\<close>

record history =
  h_posted :: "addr list"     \<comment> \<open>added to \<open>message_list\<close> by \<open>group_write\<close>\<close>
  h_held :: "addr list"       \<comment> \<open>added to \<open>pending_list\<close> by \<open>group_write\<close>\<close>
  h_released :: "addr list"   \<comment> \<open>removed from \<open>pending_list\<close>\<close>
  h_fetched :: "addr list"    \<comment> \<open>removed from \<open>message_list\<close> by \<open>group_read\<close>\<close>

text \<open>The entries of the second list that are not in the first.\<close>

definition fresh_in :: "addr list \<Rightarrow> addr list \<Rightarrow> addr list" where
  "fresh_in xs ys = filter (\<lambda>m. m \<notin> set xs) ys"

inductive hreach :: "u32 \<Rightarrow> history \<Rightarrow> sstate \<Rightarrow> bool" for limit where
  start: "hreach limit \<lparr>h_posted = [], h_held = [], h_released = [], h_fetched = []\<rparr> sinit"
| by_write: "hreach limit H s \<Longrightarrow> write_step limit s s' \<Longrightarrow>
    hreach limit (H\<lparr>h_posted := h_posted H @ fresh_in (mlist s) (mlist s'),
      h_held := h_held H @ fresh_in (plist s) (plist s')\<rparr>) s'"
| by_read: "hreach limit H s \<Longrightarrow> read_step s s' \<Longrightarrow>
    hreach limit (H\<lparr>h_fetched := h_fetched H @ fresh_in (mlist s') (mlist s)\<rparr>) s'"
| by_work: "hreach limit H s \<Longrightarrow> work_step s s' \<Longrightarrow>
    hreach limit (H\<lparr>h_released := h_released H @ fresh_in (plist s') (plist s)\<rparr>) s'"
| by_flush: "hreach limit H s \<Longrightarrow> flush_step s s' \<Longrightarrow>
    hreach limit (H\<lparr>h_released := h_released H @ rev (fresh_in (plist s') (plist s))\<rparr>) s'"

text \<open>Histories only observe: they exist for every run and add no behaviour.\<close>

lemma hreach_sreach: "hreach limit H s \<Longrightarrow> sreach limit s"
  by (induction rule: hreach.induct) (blast intro: sreach.intros sstep.intros)+

lemma sreach_hreach: "sreach limit s \<Longrightarrow> \<exists>H. hreach limit H s"
proof (induction rule: sreach.induct)
  case (step s s')
  then obtain H where "hreach limit H s" by blast
  with step.hyps(2) show ?case by cases (blast intro: hreach.intros)+
qed (blast intro: hreach.intros)

lemma fresh_in_same [simp]: "fresh_in xs xs = []" "fresh_in [] xs = xs"
  by (auto simp: fresh_in_def filter_empty_conv)

lemma fresh_in_add [simp]: "m \<notin> set xs \<Longrightarrow> fresh_in xs (list_add m xs) = [m]"
  by (auto simp: fresh_in_def list_add_def filter_empty_conv)

lemma fresh_in_take:
  assumes "distinct xs" and "\<not> list_empty xs"
  shows "fresh_in (list_del id (list_last_entry xs) xs) xs = [list_last_entry xs]"
proof -
  let ?m = "list_last_entry xs"
  note last = take_last [OF assms]
  from last(2) assms(1) have "distinct (butlast xs @ [?m])" by simp
  then have "fresh_in (butlast xs) (butlast xs @ [?m]) = [?m]" by (auto simp: fresh_in_def filter_empty_conv)
  then show ?thesis using last by simp
qed

section \<open>Conservation\<close>

text \<open>The messages that works have taken from one list and not yet put into the other.\<close>

fun carrying :: "tpc \<Rightarrow> bool" where
  "carrying (K_own m) = True"
| "carrying (K_in2 m) = True"
| "carrying _ = False"

definition carriers :: "(nat \<Rightarrow> tpc) \<Rightarrow> nat set" where
  "carriers pc = {t. carrying (pc t)}"

definition carried :: "(nat \<Rightarrow> tpc) \<Rightarrow> addr multiset" where
  "carried pc = image_mset (\<lambda>t. the (own (pc t))) (mset_set (carriers pc))"

lemma carried_cong:
  assumes "carriers pc' = carriers pc" and "\<And>u. u \<in> carriers pc \<Longrightarrow> own (pc' u) = own (pc u)"
  shows "carried pc' = carried pc"
proof (cases "finite (carriers pc)")
  case True
  then show ?thesis unfolding carried_def assms(1) by (intro image_mset_cong) (simp add: assms(2))
qed (simp add: carried_def assms(1))

lemma carried_keep: "carrying p = carrying (pc t) \<Longrightarrow> own p = own (pc t) \<or> \<not> carrying p \<Longrightarrow> carried (pc(t := p)) = carried pc"
  by (rule carried_cong) (auto simp: carriers_def split: if_splits)

lemma carried_in:
  assumes "finite (carriers pc)" and "carrying p" and "own p = Some m" and "\<not> carrying (pc t)"
  shows "carried (pc(t := p)) = add_mset m (carried pc)"
proof -
  have new: "carriers (pc(t := p)) = insert t (carriers pc)" "t \<notin> carriers pc"
    using assms(2,4) by (auto simp: carriers_def)
  have "image_mset (\<lambda>u. the (own ((pc(t := p)) u))) (mset_set (carriers pc))
      = image_mset (\<lambda>u. the (own (pc u))) (mset_set (carriers pc))"
    using new(2) assms(1) by (intro image_mset_cong) auto
  with new assms(1,3) show ?thesis by (simp add: carried_def)
qed

lemma carried_out:
  assumes "finite (carriers pc)" and "carrying (pc t)" and "own (pc t) = Some m" and "\<not> carrying p"
  shows "carried pc = add_mset m (carried (pc(t := p)))"
proof -
  have "carriers (pc(t := p)) = carriers pc - {t}" using assms(4) by (auto simp: carriers_def)
  then have "finite (carriers (pc(t := p)))" using assms(1) by simp
  from carried_in [OF this assms(2,3), of t] assms(4) show ?thesis by simp
qed

lemma finite_carriers: "sreach limit s \<Longrightarrow> finite (carriers (tpc s))"
proof -
  assume "sreach limit s"
  from sreach_inv [OF this] have "finite (moving (tpc s))" by (simp add: counted_def)
  moreover have "carriers pc \<subseteq> moving pc" for pc
  proof
    fix t
    show "t \<in> carriers pc \<Longrightarrow> t \<in> moving pc" by (cases "pc t") (simp_all add: carriers_def moving_def)
  qed
  ultimately show ?thesis by (rule rev_finite_subset)
qed

text \<open>
  Four equations between the history and the state: by number of copies for each list, and
  in order for the delayed messages and, without them, for the available ones.
\<close>

definition history_ok :: "history \<Rightarrow> sstate \<Rightarrow> bool" where
  "history_ok H s \<longleftrightarrow>
     mset (h_posted H) + mset (h_released H) = mset (h_fetched H) + mset (mlist s) + carried (tpc s)
   \<and> h_released H @ rev (plist s) = h_held H
   \<and> (h_held H = [] \<longrightarrow> h_fetched H @ rev (mlist s) = h_posted H)"

lemma history_write:
  assumes "write_step limit s s'" and "shared_ok s" and "history_ok H s"
  shows "history_ok (H\<lparr>h_posted := h_posted H @ fresh_in (mlist s) (mlist s'),
      h_held := h_held H @ fresh_in (plist s) (plist s')\<rparr>) s'"
  using assms
proof (induction rule: write_step.induct)
  case (write_now s t m)
  then have "m \<notin> set (mlist s)" using owner_off_list [of _ _ "tpc s" t m] by (fastforce simp: shared_ok_def)
  with write_now show ?case by (auto simp: history_ok_def carried_keep list_add_def [of m "mlist s"] fresh_in_add [unfolded list_add_def])
next
  case (pending_add s t m)
  then have "m \<notin> set (plist s)" using owner_off_list [of _ _ "tpc s" t m] by (fastforce simp: shared_ok_def)
  with pending_add show ?case by (auto simp: history_ok_def carried_keep list_add_def [of m "plist s"] fresh_in_add [unfolded list_add_def])
qed (auto simp: history_ok_def carried_keep split: option.splits)


lemma history_read:
  assumes "read_step s s'" and "shared_ok s" and "history_ok H s"
  shows "history_ok (H\<lparr>h_fetched := h_fetched H @ fresh_in (mlist s') (mlist s)\<rparr>) s'"
  using assms
proof (induction rule: read_step.induct)
  case (read_take s t m)
  then have dist: "distinct (mlist s)" using owners_distinct by (fastforce simp: shared_ok_def)
  note last = take_last [OF dist read_take.hyps(2), folded read_take.hyps(3)]
    and new = fresh_in_take [OF dist read_take.hyps(2), folded read_take.hyps(3)]
  have "mset (mlist s) = add_mset m (mset (butlast (mlist s)))" "rev (mlist s) = m # rev (butlast (mlist s))"
    by (subst last(2), simp)+
  with read_take last(1) new show ?case by (simp add: history_ok_def carried_keep)
qed (auto simp: history_ok_def carried_keep)

lemma history_work:
  assumes "work_step s s'" and "shared_ok s" and "finite (carriers (tpc s))" and "history_ok H s"
  shows "history_ok (H\<lparr>h_released := h_released H @ fresh_in (plist s') (plist s)\<rparr>) s'"
  using assms
proof (induction rule: work_step.induct)
  case (work_take s t m)
  then have dist: "distinct (plist s)" using owners_distinct by (fastforce simp: shared_ok_def)
  note last = take_last [OF dist work_take.hyps(2), folded work_take.hyps(3)]
    and new = fresh_in_take [OF dist work_take.hyps(2), folded work_take.hyps(3)]
  have "rev (plist s) = m # rev (butlast (plist s))" by (subst last(2), simp)
  with work_take.prems(3) have rel: "h_released H @ m # rev (butlast (plist s)) = h_held H"
    by (simp add: history_ok_def)
  have "carried ((tpc s)(t := K_own m)) = add_mset m (carried (tpc s))"
    by (rule carried_in) (use work_take in simp_all)
  with rel show ?case using work_take.prems(3) last(1) new by (simp add: history_ok_def)
next
  case (work_add s t m)
  have out: "carried (tpc s) = add_mset m (carried ((tpc s)(t := K_log m)))"
    by (rule carried_out) (use work_add in simp_all)
  have "h_held H \<noteq> []"
  proof
    assume "h_held H = []"
    with work_add.prems(3) have "h_released H = []" "h_fetched H @ rev (mlist s) = h_posted H"
      by (simp_all add: history_ok_def)
    moreover from this(2) [symmetric] have "mset (h_posted H) = mset (h_fetched H) + mset (mlist s)" by simp
    ultimately have "carried (tpc s) = {#}" using work_add.prems(3) by (simp add: history_ok_def)
    with out show False by simp
  qed
  with work_add.prems(3) out show ?case by (simp add: history_ok_def list_add_def)
qed (auto simp: history_ok_def carried_keep)

lemma history_flush:
  assumes "flush_step s s'" and "history_ok H s"
  shows "history_ok (H\<lparr>h_released := h_released H @ rev (fresh_in (plist s') (plist s))\<rparr>) s'"
  using assms
proof (induction rule: flush_step.induct)
  case (flush_splice s t ml pl)
  then have "ml = mlist s @ plist s" "pl = []" by (simp_all add: list_splice_tail_init_def)
  moreover from flush_splice.prems have order: "h_held H = h_released H @ rev (plist s)"
    by (simp add: history_ok_def)
  moreover from this have "mset (h_held H) = mset (h_released H) + mset (plist s)" by simp
  ultimately show ?case using flush_splice
    by (auto simp: history_ok_def carried_keep add.assoc [symmetric])
qed (auto simp: history_ok_def carried_keep)

lemma hreach_ok: "hreach limit H s \<Longrightarrow> history_ok H s"
proof (induction rule: hreach.induct)
  case start
  have "carriers (tpc sinit) = {}" by (auto simp: carriers_def sinit_def)
  then show ?case by (simp add: history_ok_def sinit_def carried_def)
next
  case (by_write H s s')
  have "shared_ok s" using sreach_inv [OF hreach_sreach [OF by_write.hyps(1)]] by simp
  from history_write [OF by_write.hyps(2) this by_write.IH] show ?case .
next
  case (by_read H s s')
  have "shared_ok s" using sreach_inv [OF hreach_sreach [OF by_read.hyps(1)]] by simp
  from history_read [OF by_read.hyps(2) this by_read.IH] show ?case .
next
  case (by_work H s s')
  note reach = hreach_sreach [OF by_work.hyps(1)]
  have "shared_ok s" using sreach_inv [OF reach] by simp
  from history_work [OF by_work.hyps(2) this finite_carriers [OF reach] by_work.IH] show ?case .
next
  case (by_flush H s s')
  from history_flush [OF by_flush.hyps(2) by_flush.IH] show ?case .
qed

section \<open>Operations that nobody gets in the way of\<close>

text \<open>
  An operation of one thread, from start to end, while no other thread makes a step and both
  semaphores are free. The thread ends where it started.
\<close>

lemma solo_delayed_write:
  assumes "hreach limit H s" and "tpc s t = Resting" and "msem s = None" and "psem s = None"
    and "m \<notin> alive s" and "number s < limit"
  shows "hreach limit (H\<lparr>h_held := h_held H @ [m]\<rparr>)
     (s\<lparr>alive := insert m (alive s), plist := m # plist s, number := number s + 1\<rparr>)"
proof -
  have "shared_ok s" using sreach_inv [OF hreach_sreach [OF assms(1)]] by simp
  with assms(5) have new: "m \<notin> set (plist s)" by (auto simp: shared_ok_def owners_ok_def)
  note 1 = hreach.by_write [OF assms(1) write_step.write_begin [of s t m, OF assms(2,5)]]
  note 2 = hreach.by_write [OF 1 write_step.write_lock [of _ t m], simplified, OF assms(3)]
  note 3 = hreach.by_write [OF 2 write_step.write_later [of _ t m], simplified, OF assms(6)]
  note 4 = hreach.by_write [OF 3 write_step.pending_lock [of _ t m], simplified, OF assms(4)]
  note 5 = hreach.by_write [OF 4 write_step.pending_add [of _ t m], simplified]
  note 6 = hreach.by_write [OF 5 write_step.write_log [of _ t m], simplified]
  have "(tpc s)(t := Resting) = tpc s" using assms(2) by auto
  with 6 fresh_in_add [OF new] assms(3,4) show ?thesis by (cases s; cases H) (simp add: list_add_def)
qed

lemma solo_read:
  assumes "hreach limit H s" and "tpc s t = Resting" and "msem s = None" and "mlist s = ms @ [m]"
  shows "hreach limit (H\<lparr>h_fetched := h_fetched H @ [m]\<rparr>)
     (s\<lparr>alive := alive s - {m}, mlist := ms, number := number s - 1\<rparr>)"
proof -
  have "shared_ok s" using sreach_inv [OF hreach_sreach [OF assms(1)]] by simp
  then have dist: "distinct (mlist s)" using owners_distinct by (fastforce simp: shared_ok_def)
  have some: "\<not> list_empty (mlist s)" and m: "m = list_last_entry (mlist s)"
    using assms(4) by (simp_all add: list_empty_def list_last_entry_def)
  note 1 = hreach.by_read [OF assms(1) read_step.read_begin [of s t, OF assms(2)]]
  note 2 = hreach.by_read [OF 1 read_step.read_lock [of _ t], simplified, OF assms(3)]
  note 3 = hreach.by_read [OF 2 read_step.read_take [of _ t m], simplified, OF some m]
  note 4 = hreach.by_read [OF 3 read_step.read_copy [of _ t m], simplified]
  note 5 = hreach.by_read [OF 4 read_step.read_free [of _ t m], simplified]
  have "(tpc s)(t := Resting) = tpc s" using assms(2) by auto
  moreover have "list_del id m (mlist s) = ms" using take_last(1) [OF dist some, folded m] by (simp add: assms(4))
  moreover have "fresh_in (list_del id m (mlist s)) (mlist s) = [m]" using fresh_in_take [OF dist some, folded m] .
  ultimately show ?thesis using 5 assms(3) m [symmetric] by (cases s; cases H) simp
qed

lemma solo_flush:
  assumes "hreach limit H s" and "tpc s t = Resting" and "msem s = None" and "psem s = None"
  shows "hreach limit (H\<lparr>h_released := h_released H @ rev (plist s)\<rparr>) (s\<lparr>mlist := mlist s @ plist s, plist := []\<rparr>)"
proof -
  note 1 = hreach.by_flush [OF assms(1) flush_step.flush_begin [of s t, OF assms(2)]]
  note 2 = hreach.by_flush [OF 1 flush_step.flush_lock [of _ t], simplified, OF assms(4)]
  note 3 = hreach.by_flush [OF 2 flush_step.flush_lock2 [of _ t], simplified, OF assms(3)]
  note 4 = hreach.by_flush [OF 3 flush_step.flush_splice [of _ t "mlist s @ plist s" "[]"], simplified list_splice_tail_init_def, simplified]
  note 5 = hreach.by_flush [OF 4 flush_step.flush_end [of _ t], simplified]
  have "(tpc s)(t := Resting) = tpc s" using assms(2) by auto
  with 5 assms(3,4) show ?thesis by (cases s; cases H) simp
qed

text \<open>The first half of a work, up to the point where it holds the oldest delayed message, and the rest.\<close>

lemma solo_work_take:
  assumes "hreach limit H s" and "tpc s t = Resting" and "psem s = None" and "plist s = ms @ [m]"
  shows "hreach limit (H\<lparr>h_released := h_released H @ [m]\<rparr>) (goto t (K_own m) (s\<lparr>plist := ms\<rparr>))"
proof -
  have "shared_ok s" using sreach_inv [OF hreach_sreach [OF assms(1)]] by simp
  then have dist: "distinct (plist s)" using owners_distinct by (fastforce simp: shared_ok_def)
  have some: "\<not> list_empty (plist s)" and m: "m = list_last_entry (plist s)"
    using assms(4) by (simp_all add: list_empty_def list_last_entry_def)
  note 1 = hreach.by_work [OF assms(1) work_step.work_begin [of s t, OF assms(2)]]
  note 2 = hreach.by_work [OF 1 work_step.work_lock [of _ t], simplified, OF assms(3)]
  note 3 = hreach.by_work [OF 2 work_step.work_take [of _ t m], simplified, OF some m]
  have "list_del id m (plist s) = ms" using take_last(1) [OF dist some, folded m] by (simp add: assms(4))
  moreover have "fresh_in (list_del id m (plist s)) (plist s) = [m]" using fresh_in_take [OF dist some, folded m] .
  ultimately show ?thesis using 3 assms(3) m [symmetric] by (cases s; cases H) simp
qed

lemma solo_work_add:
  assumes "hreach limit H s" and "tpc s t = K_own m" and "msem s = None"
  shows "hreach limit H (goto t Resting (s\<lparr>mlist := m # mlist s\<rparr>))"
proof -
  note 1 = hreach.by_work [OF assms(1) work_step.work_lock2 [of s t m, OF assms(2)], simplified, OF assms(3)]
  note 2 = hreach.by_work [OF 1 work_step.work_add [of _ t m], simplified]
  note 3 = hreach.by_work [OF 2 work_step.work_log [of _ t m], simplified]
  then show ?thesis using assms(3) by (cases s; cases H) (simp add: list_add_def)
qed

end
