(* ===== verification/Order_Properties.thy ===== *)
theory Order_Properties
  imports Sharing_History
begin

text \<open>
  The theorems about the order and the number of messages that readers get when readers,
  writers, works and flushes of one group device interleave.
\<close>

text \<open>C3: Exactly-once delivery under concurrency. In every interleaving, the messages that writers have
  put into one of the lists are the messages that readers have taken, those still in a list and
  those a work carries from one list to the other, each exactly as often; and the delayed messages
  leave their list in the order in which they came in.\<close>

theorem concurrent_delivery:
  assumes "hreach limit H s"
  shows "mset (h_posted H) + mset (h_held H)
      = mset (h_fetched H) + mset (mlist s) + mset (plist s) + carried (tpc s)
    \<and> h_released H @ rev (plist s) = h_held H"
proof -
  from hreach_ok [OF assms] have order: "h_held H = h_released H @ rev (plist s)"
    and num: "mset (h_posted H) + mset (h_released H) = mset (h_fetched H) + mset (mlist s) + carried (tpc s)"
    by (simp_all add: history_ok_def)
  from order have "mset (h_held H) = mset (h_released H) + mset (plist s)" by simp
  with num have "mset (h_posted H) + mset (h_held H)
      = mset (h_fetched H) + mset (mlist s) + carried (tpc s) + mset (plist s)"
    by (simp only: add.assoc [symmetric])
  with order show ?thesis by (simp add: ac_simps)
qed

text \<open>C4: A FIFO under concurrency. As long as no write was delayed, readers take the messages in the order
  in which writers were in their critical sections, whatever the threads do in between: what was
  taken followed by what is stored, oldest first, is what was written.\<close>

theorem concurrent_fifo:
  assumes "hreach limit H s" and "h_held H = []"
  shows "h_fetched H @ rev (mlist s) = h_posted H \<and> plist s = [] \<and> carried (tpc s) = {#}"
proof -
  from hreach_ok [OF assms(1)] have
    num: "mset (h_posted H) + mset (h_released H) = mset (h_fetched H) + mset (mlist s) + carried (tpc s)"
    by (simp add: history_ok_def)
  from hreach_ok [OF assms(1)] assms(2) have fifo: "h_fetched H @ rev (mlist s) = h_posted H"
    and none: "h_released H = []" "plist s = []"
    by (simp_all add: history_ok_def)
  from arg_cong [OF fifo, of mset] have "mset (h_posted H) = mset (h_fetched H) + mset (mlist s)" by simp
  with num none have "carried (tpc s) = {#}" by simp
  with fifo none show ?thesis by simp
qed

section \<open>A delayed message that is overtaken\<close>

abbreviation hist :: "addr list \<Rightarrow> addr list \<Rightarrow> addr list \<Rightarrow> history" where
  "hist ds rl ft \<equiv> \<lparr>h_posted = [], h_held = ds, h_released = rl, h_fetched = ft\<rparr>"

abbreviation quiet :: "addr list \<Rightarrow> addr list \<Rightarrow> addr set \<Rightarrow> u32 \<Rightarrow> sstate" where
  "quiet ml pl al n \<equiv> \<lparr>mlist = ml, plist = pl, alive = al, msem = None, psem = None, number = n, tpc = (\<lambda>_. Resting)\<rparr>"

text \<open>Two delayed messages.\<close>

lemma ex_two_held:
  assumes "1 < limit"
  shows "hreach limit (hist [1, 2] [] []) (quiet [] [2, 1] {1, 2} 2)"
proof -
  have start: "hreach limit (hist [] [] []) (quiet [] [] {} 0)" using hreach.start by (simp add: sinit_def)
  have lim: "0 < limit" "1 < limit" using assms by (auto simp: word_less_nat_alt)
  from solo_delayed_write [OF start, of 0 1] lim have "hreach limit (hist [1] [] []) (quiet [] [1] {1} 1)" by simp
  from solo_delayed_write [OF this, of 0 2] lim show ?thesis by (simp add: insert_commute)
qed

text \<open>The work of the first message has it in hand while a flush publishes the second one.\<close>

lemma ex_overtaken:
  assumes "1 < limit"
  shows "hreach limit (hist [1, 2] [1, 2] []) (quiet [1, 2] [] {1, 2} 2)"
proof -
  from solo_work_take [OF ex_two_held [OF assms], of 5 "[2]" 1]
  have "hreach limit (hist [1, 2] [1] []) ((quiet [] [2] {1, 2} 2)\<lparr>tpc := (\<lambda>_. Resting)(5 := K_own 1)\<rparr>)" by simp
  from solo_flush [OF this, of 6]
  have "hreach limit (hist [1, 2] [1, 2] []) ((quiet [2] [] {1, 2} 2)\<lparr>tpc := (\<lambda>_. Resting)(5 := K_own 1)\<rparr>)" by simp
  from solo_work_add [OF this, of 5 1] show ?thesis by (simp add: fun_upd_idem)
qed

text \<open>C26: A delayed message can be overtaken. A work takes the oldest delayed message out of its list and
  needs the other semaphore before it can publish it; a flush that comes in between publishes the
  remaining messages at the end that is read first. There is a run with one work and one flush in
  which two delayed messages leave the list in the order they were written and are read in the
  opposite order.\<close>

theorem delayed_overtaken:
  assumes "1 < limit"
  shows "\<exists>H s. hreach limit H s \<and> h_held H = [1, 2] \<and> h_released H = [1, 2] \<and> h_fetched H = [2, 1]
    \<and> mlist s = [] \<and> plist s = [] \<and> (\<forall>t. tpc s t = Resting)"
proof -
  from solo_read [OF ex_overtaken [OF assms], of 0 "[1]" 2]
  have "hreach limit (hist [1, 2] [1, 2] [2]) (quiet [1] [] {1} 1)"
    by (simp add: insert_Diff_if)
  from solo_read [OF this, of 0 "[]" 1] have "hreach limit (hist [1, 2] [1, 2] [2, 1]) (quiet [] [] {} 0)" by simp
  then show ?thesis
    by (intro exI [of _ "hist [1, 2] [1, 2] [2, 1]"] exI [of _ "quiet [] [] {} 0"]) simp
qed

theorem delayed_overtaken_witness:
  "\<exists>H s. hreach 64 H s \<and> h_held H = [1, 2] \<and> h_fetched H = [2, 1]"
  using delayed_overtaken [of 64] by auto

theorem concurrent_delivery_witness:
  "mset (h_held (hist [1, 2] [] [])) = mset [2, 1] + carried (\<lambda>_. Resting)"
  using concurrent_delivery [OF ex_two_held [of 64]] by simp

text \<open>One message that was not delayed, with its writer still printing.\<close>

lemma ex_posted:
  assumes "0 < limit"
  shows "hreach limit ((hist [] [] [])\<lparr>h_posted := [1]\<rparr>) ((quiet [1] [] {1} 1)\<lparr>tpc := (\<lambda>_. Resting)(0 := W_print 1 1)\<rparr>)"
proof -
  have start: "hreach limit (hist [] [] []) (quiet [] [] {} 0)" using hreach.start by (simp add: sinit_def)
  note 1 = hreach.by_write [OF start write_step.write_begin [of _ 0 1], simplified]
  note 2 = hreach.by_write [OF 1 write_step.write_lock [of _ 0 1], simplified]
  note 3 = hreach.by_write [OF 2 write_step.write_now [of _ 0 1], simplified, OF assms]
  then show ?thesis by (simp add: list_add_def list_last_entry_def)
qed

theorem concurrent_fifo_witness: "mlist ((quiet [1] [] {1} 1)\<lparr>tpc := (\<lambda>_. Resting)(0 := W_print 1 1)\<rparr>) = [1]
    \<and> carried ((\<lambda>_. Resting)(0 := W_print 1 1)) = {#}"
  using concurrent_fifo [OF ex_posted [of 64]] by simp

end
