(* ===== verification/Texts.thy ===== *)
theory Texts
  imports Tsm_Lib
begin

text \<open>
  C strings in the buffers of the programs that use the library: the bytes of a formatted
  string with its terminator, what \<open>%s\<close> prints of a buffer, and how much of a string
  \<open>send_message\<close> sends.
\<close>

section \<open>Definitions\<close>

definition bytes_of :: "string \<Rightarrow> u8 list" where
  "bytes_of s = map of_char s"

text \<open>What \<open>%s\<close> prints.\<close>

definition cstr :: "u8 list \<Rightarrow> u8 list" where
  "cstr buf = takeWhile (\<lambda>c. c \<noteq> 0) buf"

text \<open>\<open>sprintf\<close> with one \<open>%ld\<close>.\<close>

fun sprintf_ld :: "string \<Rightarrow> int \<Rightarrow> string" where
  "sprintf_ld [] i = []"
| "sprintf_ld (c # cs) i = (if take 3 (c # cs) = ''%ld'' then dec_int i @ drop 2 cs else c # sprintf_ld cs i)"

text \<open>The part of a message that is not cut off, when at most \<open>k\<close> bytes are sent.\<close>

definition payload :: "nat \<Rightarrow> string \<Rightarrow> u8 list" where
  "payload k s = take k (bytes_of s)"

section \<open>Facts\<close>

definition nul_free :: "string \<Rightarrow> bool" where
  "nul_free s \<longleftrightarrow> CHR 0x00 \<notin> set s"

lemma of_char_eq_0: "(of_char c :: u8) = 0 \<longleftrightarrow> c = CHR 0x00"
proof -
  have "(of_char c :: u8) = word_of_nat (of_char c)" by (rule of_nat_of_char [symmetric])
  then have "(of_char c :: u8) = 0 \<longleftrightarrow> (2 ^ 8 :: nat) dvd of_char c"
    by (simp only: word_of_nat_eq_0_iff) simp
  also have "\<dots> \<longleftrightarrow> (of_char c :: nat) = 0"
    using nat_of_char_less_256 [of c] nat_dvd_not_less [of "of_char c" 256] by auto
  also have "\<dots> \<longleftrightarrow> (of_char c :: nat) = of_char (CHR 0x00)" by (simp only: of_char_Char horner_sum_simps) simp
  finally show ?thesis by (simp only: of_char_eq_iff)
qed

lemma length_bytes_of [simp]: "length (bytes_of s) = length s"
  by (simp add: bytes_of_def)

lemma bytes_of_nonzero: "nul_free s \<Longrightarrow> 0 \<notin> set (bytes_of s)"
  by (auto simp: nul_free_def bytes_of_def of_char_eq_0 dest: sym)

lemma takeWhile_nonzero: "0 \<notin> set xs \<Longrightarrow> takeWhile (\<lambda>c. c \<noteq> 0) (xs @ ys) = xs @ takeWhile (\<lambda>c. c \<noteq> 0) ys"
  for xs :: "u8 list"
  by (induction xs) auto

lemma cstr_text: "nul_free s \<Longrightarrow> cstr (bytes_of s @ 0 # r) = bytes_of s"
  using takeWhile_nonzero [OF bytes_of_nonzero] by (simp add: cstr_def)

lemma sent_text:
  assumes "nul_free s" and "strlen (take k (bytes_of s @ 0 # r)) = n"
  shows "n = length (payload k s)" and "take n (bytes_of s @ 0 # r) = payload k s"
proof -
  have "0 \<notin> set (take k (bytes_of s))" using bytes_of_nonzero [OF assms(1)] by (meson in_set_takeD)
  note full = takeWhile_nonzero [OF this]
  from full [of "[]"] have "takeWhile (\<lambda>c. c \<noteq> 0) (take k (bytes_of s)) = take k (bytes_of s)"
    by (simp only: append_Nil2 takeWhile.simps)
  with full assms(2) show n: "n = length (payload k s)"
    by (cases "k - length s") (simp_all add: strlen_def payload_def)
  show "take n (bytes_of s @ 0 # r) = payload k s" by (cases "k \<le> length s") (simp_all add: n payload_def)
qed

lemma payload_pos: "s \<noteq> [] \<Longrightarrow> 0 < k \<Longrightarrow> 0 < length (payload k s)"
  by (simp add: payload_def)

lemma payload_length: "length (payload k s) = min (length s) k"
  by (simp add: payload_def)

text \<open>Printed numbers contain no terminator and have a bounded length.\<close>

lemma nul_free_dec: "nul_free (dec n)"
proof (induction n rule: dec.induct)
  case (1 n)
  have digit: "digit m \<noteq> CHR 0x00" if "m < 10" for m
  proof
    assume "digit m = CHR 0x00"
    then have "of_char (digit m) = (0 :: nat)" by simp
    with that show False by (simp add: digit_def)
  qed
  from 1 digit [of n] digit [of "n mod 10"] show ?case by (subst dec.simps) (auto simp: nul_free_def)
qed

lemma nul_free_dec_int: "nul_free (dec_int i)"
  using nul_free_dec by (simp add: dec_int_def nul_free_def)

lemma nul_free_sprintf_d: "nul_free fmt \<Longrightarrow> nul_free (sprintf_d fmt i)"
  by (induction fmt i rule: sprintf_d.induct) (use nul_free_dec_int in \<open>auto simp: nul_free_def\<close>)

lemma nul_free_sprintf_ld: "nul_free fmt \<Longrightarrow> nul_free (sprintf_ld fmt i)"
  by (induction fmt i rule: sprintf_ld.induct)
    (use nul_free_dec_int in \<open>auto simp: nul_free_def dest: in_set_dropD\<close>)

lemma length_dec_int: "0 \<le> i \<Longrightarrow> nat i < 10 ^ k \<Longrightarrow> 0 < k \<Longrightarrow> length (dec_int i) \<le> k"
  by (simp add: dec_int_def length_dec_bound)

end
