(* ===== verification/Client.thy ===== *)
theory Client
  imports Texts Mailbox
begin

text \<open>
  Programs that use the library. A program is a tree: a node is a call of the library, of the
  C library or of the kernel, and it continues with a subtree for every result of the call.
  A sequential program is run by one process over the system calls of \<open>Tsm_Lib\<close>;
  \<open>Processes\<close> runs trees with several processes and threads. The locale \<open>group_client\<close> says
  what a client may rely on; the loops of the test programs are proved correct inside it.
\<close>

section \<open>Programs\<close>

text \<open>What a program prints, without the decoration of \<open>info\<close>, \<open>err\<close> and \<open>tid_info\<close>.\<close>

datatype line =
    Note string
  | Opened u8 int | Open_err | Closed u8 int
  | Delay_set u64 | Delay_err u64
  | Writing nat | Written "u8 list" | Write_err nat
  | Reading int | Got int "u8 list" | Read_err nat | No_more

datatype prog =
    Exit
  | Crash fault
  | Say line prog
  \<comment> \<open>the library\<close>
  | Open_group u8 "int \<Rightarrow> prog"
  | Close_group int prog
  | Send int "u8 list" "int \<Rightarrow> u8 list \<Rightarrow> prog"
  | Retrieve int "u8 list" nat "int \<Rightarrow> u8 list \<Rightarrow> prog"
  | Set_delay int u64 "int \<Rightarrow> prog"
  | Revoke int "int \<Rightarrow> prog"
  | Awake int "int \<Rightarrow> prog"
  | Nap int "int \<Rightarrow> prog"           \<comment> \<open>\<open>sleep_on_barrier\<close>\<close>
  | Asleep int "int \<Rightarrow> prog"        \<comment> \<open>inside \<open>sleep_on_barrier\<close>, on the wait queue\<close>
  \<comment> \<open>the C library\<close>
  | Pause nat prog                   \<comment> \<open>\<open>sleep\<close>\<close>
  | Key prog                         \<comment> \<open>\<open>mygetch\<close>\<close>
  | Rand nat "nat \<Rightarrow> prog"           \<comment> \<open>\<open>rand() % n\<close>\<close>
  \<comment> \<open>processes and threads\<close>
  | Fork prog "bool \<Rightarrow> prog"         \<comment> \<open>\<open>fork\<close>: the child, and the parent if it succeeds or fails\<close>
  | Create prog "bool \<Rightarrow> prog"       \<comment> \<open>\<open>pthread_create\<close>\<close>
  | Join prog                        \<comment> \<open>\<open>wait\<close> or \<open>pthread_join\<close> for all of them\<close>
  | Get_tid "nat \<Rightarrow> prog"
  | Sem_init nat prog | Sem_wait prog | Sem_post prog
  | Load_var "int \<Rightarrow> prog" | Store_var int prog

text \<open>
  One call by a process whose system calls are \<open>os\<close>; \<open>nap\<close> is what happens to the world while
  the process is in \<open>sleep\<close>. Nodes for several processes or threads are not calls.
\<close>

fun lib_call :: "('w, 'x) os_scheme \<Rightarrow> (nat \<Rightarrow> 'w \<Rightarrow> 'w outcome) \<Rightarrow> prog \<Rightarrow> lib \<Rightarrow> 'w \<Rightarrow> (prog \<times> lib \<times> 'w) outcome option" where
  "lib_call os nap (Crash e) l w = Some (Fault e)"
| "lib_call os nap (Open_group b k) l w = Some (obind (open_group os (Some b) l w) (\<lambda>(fd, l, w). Done (k fd, l, w)))"
| "lib_call os nap (Close_group fd p) l w = Some (obind (close_group os fd l w) (\<lambda>(l, w). Done (p, l, w)))"
| "lib_call os nap (Send fd m k) l w =
     Some (obind (send_message os fd (Some m) l w) (\<lambda>(ret, m', l, w). Done (k ret (the m'), l, w)))"
| "lib_call os nap (Retrieve fd buf len k) l w =
     Some (obind (retrieve_message os fd buf len l w) (\<lambda>(ret, buf, l, w). Done (k ret buf, l, w)))"
| "lib_call os nap (Set_delay fd ms k) l w = Some (obind (set_send_delay os fd ms l w) (\<lambda>(ret, l, w). Done (k ret, l, w)))"
| "lib_call os nap (Revoke fd k) l w = Some (obind (revoke_delayed_messages os fd l w) (\<lambda>(ret, l, w). Done (k ret, l, w)))"
| "lib_call os nap (Awake fd k) l w = Some (obind (awake_barrier os fd l w) (\<lambda>(ret, l, w). Done (k ret, l, w)))"
| "lib_call os nap (Nap fd k) l w = Some (obind (sleep_on_barrier os fd l w) (\<lambda>(ret, l, w). Done (k ret, l, w)))"
| "lib_call os nap (Pause n p) l w = Some (obind (nap n w) (\<lambda>w. Done (p, l, w)))"
| "lib_call os nap (Key p) l w = Some (Done (p, l, w))"
| "lib_call os nap _ l w = None"

text \<open>A whole sequential program: what it prints, and the state it leaves.\<close>

definition after :: "line list \<Rightarrow> (line list \<times> 's) outcome \<Rightarrow> (line list \<times> 's) outcome" where
  "after out r = obind r (\<lambda>(out', s). Done (out @ out', s))"

primrec run :: "('w, 'x) os_scheme \<Rightarrow> (nat \<Rightarrow> 'w \<Rightarrow> 'w outcome) \<Rightarrow> prog \<Rightarrow> lib \<Rightarrow> 'w \<Rightarrow> (line list \<times> lib \<times> 'w) outcome" where
  "run os nap Exit = (\<lambda>l w. Done ([], l, w))"
| "run os nap (Crash e) = (\<lambda>l w. Fault e)"
| "run os nap (Say x p) = (\<lambda>l w. after [x] (run os nap p l w))"
| "run os nap (Open_group b k) = (\<lambda>l w. obind (open_group os (Some b) l w) (\<lambda>(fd, l, w). run os nap (k fd) l w))"
| "run os nap (Close_group fd p) = (\<lambda>l w. obind (close_group os fd l w) (\<lambda>(l, w). run os nap p l w))"
| "run os nap (Send fd m k) =
     (\<lambda>l w. obind (send_message os fd (Some m) l w) (\<lambda>(ret, m', l, w). run os nap (k ret (the m')) l w))"
| "run os nap (Retrieve fd buf len k) =
     (\<lambda>l w. obind (retrieve_message os fd buf len l w) (\<lambda>(ret, buf, l, w). run os nap (k ret buf) l w))"
| "run os nap (Set_delay fd ms k) = (\<lambda>l w. obind (set_send_delay os fd ms l w) (\<lambda>(ret, l, w). run os nap (k ret) l w))"
| "run os nap (Revoke fd k) = (\<lambda>l w. obind (revoke_delayed_messages os fd l w) (\<lambda>(ret, l, w). run os nap (k ret) l w))"
| "run os nap (Awake fd k) = (\<lambda>l w. obind (awake_barrier os fd l w) (\<lambda>(ret, l, w). run os nap (k ret) l w))"
| "run os nap (Nap fd k) = (\<lambda>l w. obind (sleep_on_barrier os fd l w) (\<lambda>(ret, l, w). run os nap (k ret) l w))"
| "run os nap (Pause n p) = (\<lambda>l w. obind (nap n w) (\<lambda>w. run os nap p l w))"
| "run os nap (Key p) = (\<lambda>l w. run os nap p l w)"
| "run os nap (Rand n k) = (\<lambda>l w. Block)"
| "run os nap (Fork c k) = (\<lambda>l w. Block)"
| "run os nap (Create c k) = (\<lambda>l w. Block)"
| "run os nap (Join p) = (\<lambda>l w. Block)"
| "run os nap (Get_tid k) = (\<lambda>l w. Block)"
| "run os nap (Asleep fd k) = (\<lambda>l w. Block)"
| "run os nap (Sem_init n p) = (\<lambda>l w. Block)"
| "run os nap (Sem_wait p) = (\<lambda>l w. Block)"
| "run os nap (Sem_post p) = (\<lambda>l w. Block)"
| "run os nap (Load_var k) = (\<lambda>l w. Block)"
| "run os nap (Store_var x p) = (\<lambda>l w. Block)"

lemma run_lib_call: "lib_call os nap p l w = Some r \<Longrightarrow> run os nap p l w = obind r (\<lambda>(q, l, w). run os nap q l w)"
  by (cases p) (auto simp: obind_assoc fun_eq_iff intro!: arg_cong [where f = "obind _"])

lemma after_Done [simp]: "after out (Done (out', s)) = Done (out @ out', s)"
  by (simp add: after_def)

lemma after_after [simp]: "after a (after b r) = after (a @ b) r"
  by (cases r) (auto simp: after_def)

section \<open>What the test programs have in common\<close>

definition MESSAGE_SIZE :: nat where "MESSAGE_SIZE = 64"

text \<open>\<open>sprintf(msg, ...)\<close> with the formatted string \<open>s\<close>, and \<open>char msg[MESSAGE_SIZE] = {}\<close>.\<close>

definition sprintf_to :: "u8 list \<Rightarrow> string \<Rightarrow> (u8 list \<Rightarrow> prog) \<Rightarrow> prog" where
  "sprintf_to msg s k = (if length msg < length s + 1 then Crash OutOfBounds
     else k (bytes_of s @ 0 # drop (length s + 1) msg))"

definition zeros :: "u8 list" where "zeros = replicate MESSAGE_SIZE 0"

text \<open>
  The loop that writes messages, with what comes after it and after an error (\<open>goto\<close>). The
  list holds the values of \<open>i\<close>.
\<close>

fun send_loop :: "int \<Rightarrow> (nat \<Rightarrow> string) \<Rightarrow> nat list \<Rightarrow> u8 list \<Rightarrow> (u8 list \<Rightarrow> prog) \<Rightarrow> (u8 list \<Rightarrow> prog) \<Rightarrow> prog" where
  "send_loop fd txt [] msg ok fail = ok msg"
| "send_loop fd txt (i # is) msg ok fail =
     sprintf_to msg (txt i) (\<lambda>msg.
     Send fd msg (\<lambda>ret msg.
     if ret < 0 then Say (Write_err i) (fail msg)
     else Say (Written (cstr msg)) (send_loop fd txt is msg ok fail)))"

text \<open>
  The loop that reads messages. After an error it continues with \<open>err\<close>, which is given the rest
  of the loop (\<open>continue\<close>) and may as well jump elsewhere (\<open>goto\<close>).
\<close>

fun read_loop :: "int \<Rightarrow> nat list \<Rightarrow> u8 list \<Rightarrow> (u8 list \<Rightarrow> prog) \<Rightarrow> (prog \<Rightarrow> prog) \<Rightarrow> prog" where
  "read_loop fd [] msg ok err = ok msg"
| "read_loop fd (i # is) msg ok err =
     Retrieve fd msg MESSAGE_SIZE (\<lambda>ret msg.
     if ret < 0 then Say (Read_err i) (err (read_loop fd is msg ok err))
     else if ret = 0 then Say No_more (ok msg)
     else Say (Got ret (cstr msg)) (read_loop fd is msg ok err))"

text \<open>\<open>close_group\<close> and the line about it.\<close>

definition closing :: "u8 \<Rightarrow> int \<Rightarrow> prog \<Rightarrow> prog" where
  "closing desc fd p = Close_group fd (Say (Closed desc fd) p)"

section \<open>What a client relies on\<close>

text \<open>Observations of a world: which process has which descriptor open on which group, and the groups.\<close>

record 'w view =
  sane :: "'w \<Rightarrow> bool"
  uses :: "'w \<Rightarrow> nat \<Rightarrow> int \<Rightarrow> u8 \<Rightarrow> bool"
  box :: "'w \<Rightarrow> u8 \<Rightarrow> u8 list mailbox"
  delayed :: "'w \<Rightarrow> u8 \<Rightarrow> bool"
  cap :: "'w \<Rightarrow> nat"           \<comment> \<open>messages a group can store\<close>
  size_of :: "'w \<Rightarrow> u32"       \<comment> \<open>largest message\<close>

definition stored :: "u8 list mailbox \<Rightarrow> nat" where
  "stored b = length (avail b) + length (held b)"

text \<open>The group \<open>b\<close> goes through the operations \<open>ops\<close>; nothing else changes.\<close>

definition acts :: "'w view \<Rightarrow> u8 \<Rightarrow> u8 list mb_op list \<Rightarrow> 'w \<Rightarrow> 'w \<Rightarrow> bool" where
  "acts V b ops w w' \<longleftrightarrow> sane V w' \<and> uses V w' = uses V w \<and> box V w' = (box V w)(b := mb_run (box V w b) ops)
     \<and> delayed V w' = delayed V w \<and> cap V w' = cap V w \<and> size_of V w' = size_of V w"

lemma acts_trans: "acts V b ops w w' \<Longrightarrow> acts V b ops' w' w'' \<Longrightarrow> acts V b (ops @ ops') w w''"
  by (simp add: acts_def mb_run_append)

lemma acts_none: "sane V w \<Longrightarrow> acts V b [] w w"
  by (simp add: acts_def)

locale group_client =
  fixes pos :: "nat \<Rightarrow> ('w, 'x) os_scheme"
    and nap :: "nat \<Rightarrow> 'w \<Rightarrow> 'w outcome"
    and delays :: "u64 \<Rightarrow> bool"
    and V :: "'w view"
  assumes uses_sane: "uses V w p fd b \<Longrightarrow> sane V w \<and> 0 \<le> fd"
    and size_pos: "sane V w \<Longrightarrow> size_of V w \<noteq> 0"
    and opens: "sane V w \<Longrightarrow> lib_max_message_size l = 0 \<or> lib_max_message_size l = size_of V w \<Longrightarrow>
      \<exists>fd l' w'. open_group (pos p) (Some b) l w = Done (fd, l', w') \<and> lib_max_message_size l' = size_of V w
        \<and> sane V w' \<and> 0 \<le> fd \<and> (\<forall>c. \<not> uses V w p fd c)
        \<and> (\<forall>q fd' c. uses V w' q fd' c \<longleftrightarrow> uses V w q fd' c \<or> (q, fd', c) = (p, fd, b))
        \<and> box V w' = box V w \<and> delayed V w' = delayed V w \<and> cap V w' = cap V w \<and> size_of V w' = size_of V w"
    and writes: "uses V w p fd b \<Longrightarrow> 0 < n \<Longrightarrow> n \<le> unat (size_of V w) \<Longrightarrow> n \<le> length buf \<Longrightarrow>
      \<exists>w'. os_write (pos p) fd buf n w = Done (if stored (box V w b) < cap V w then int n else 0, w')
        \<and> acts V b [if stored (box V w b) < cap V w
            then (if delayed V w b then Hold (take n buf) else Post (take n buf)) else Idle] w w'"
    and reads: "uses V w p fd b \<Longrightarrow> list_all (\<lambda>m. length m \<le> min len (length buf)) (avail (box V w b)) \<Longrightarrow>
      \<exists>w'. os_read (pos p) fd buf len w = Done (case avail (box V w b) of [] \<Rightarrow> (0, buf, w')
          | m # ms \<Rightarrow> (int (length m), m @ drop (length m) buf, w'))
        \<and> acts V b [Fetch] w w'"
    and revokes: "uses V w p fd b \<Longrightarrow>
      \<exists>w'. os_ioctl (pos p) fd IOCTL_REVOKE_DELAYED_MESSAGES No_arg w = Done (0, No_arg, w') \<and> acts V b [Flush] w w'"
    and awakes: "uses V w p fd b \<Longrightarrow>
      \<exists>w'. os_ioctl (pos p) fd IOCTL_AWAKE_BARRIER No_arg w = Done (0, No_arg, w') \<and> acts V b [] w w'"
    and sets_delay: "uses V w p fd b \<Longrightarrow> 0 \<le> sint ms \<Longrightarrow>
      \<exists>w'. os_ioctl (pos p) fd IOCTL_SET_SEND_DELAY (Num ms) w = Done (0, Num ms, w')
        \<and> sane V w' \<and> uses V w' = uses V w \<and> box V w' = box V w \<and> delayed V w' = (delayed V w)(b := delays ms)
        \<and> cap V w' = cap V w \<and> size_of V w' = size_of V w"
    and closes: "uses V w p fd b \<Longrightarrow>
      \<exists>w'. os_close (pos p) fd w = Done w' \<and> sane V w'
        \<and> (\<forall>q fd' c. uses V w' q fd' c \<longleftrightarrow> uses V w q fd' c \<and> (q, fd') \<noteq> (p, fd))
        \<and> box V w' = box V w \<and> delayed V w' = delayed V w \<and> cap V w' = cap V w \<and> size_of V w' = size_of V w"
    and naps: "sane V w \<Longrightarrow> \<exists>w'. nap n w = Done w' \<and> sane V w' \<and> uses V w' = uses V w \<and> delayed V w' = delayed V w
        \<and> cap V w' = cap V w \<and> size_of V w' = size_of V w
        \<and> (\<forall>c. held (box V w c) = [] \<longrightarrow> box V w' c = box V w c)"
    and nap_0: "nap 0 w = Done w"
begin

end

end
