(* ===== verification/Client_Laws.thy ===== *)
theory Client_Laws
  imports Client
begin

text \<open>
  What the loops of the test programs do, proved once from the laws of \<open>group_client\<close>.
\<close>

lemmas acts_simps = acts_def mb_run_append

lemma mb_run_idle: "mb_run b (Idle # ops) = mb_run b ops"
  by simp

lemma mb_run_posts: "mb_run b (map Post ms) = b\<lparr>avail := avail b @ ms\<rparr>"
  by (induction ms arbitrary: b) simp_all

lemma mb_run_holds: "mb_run b (map Hold ms) = b\<lparr>held := held b @ ms\<rparr>"
  by (induction ms arbitrary: b) simp_all

lemma mb_run_fetches: "mb_run b (replicate n Fetch) = b\<lparr>avail := drop n (avail b)\<rparr>"
  by (induction n arbitrary: b) (simp_all add: drop_Suc)

text \<open>What a group does with messages that are sent one after the other, when it has room for \<open>room\<close> of them.\<close>

definition store_op :: "bool \<Rightarrow> u8 list \<Rightarrow> u8 list mb_op" where
  "store_op late m = (if late then Hold m else Post m)"

lemma stored_store_op [simp]: "stored (mb_step b (store_op late m)) = Suc (stored b)"
  by (simp add: store_op_def stored_def)

text \<open>What the loops print for the messages that they read into \<open>buf\<close>: a shorter message does not erase the end of a longer one.\<close>

fun got_lines :: "u8 list \<Rightarrow> u8 list list \<Rightarrow> line list" where
  "got_lines buf [] = []"
| "got_lines buf (m # ms) = (let buf = m @ drop (length m) buf in Got (int (length m)) (cstr buf) # got_lines buf ms)"

fun last_buf :: "u8 list \<Rightarrow> u8 list list \<Rightarrow> u8 list" where
  "last_buf buf [] = buf"
| "last_buf buf (m # ms) = last_buf (m @ drop (length m) buf) ms"

lemma length_last_buf: "list_all (\<lambda>m. length m \<le> length buf) ms \<Longrightarrow> length (last_buf buf ms) = length buf"
  by (induction buf ms rule: last_buf.induct) auto

text \<open>Messages of one length, read into an empty buffer, are printed as they are.\<close>

lemma got_lines_even:
  assumes "list_all (\<lambda>m. length m = n \<and> 0 \<notin> set m) ms" and "n < length buf" and "set (drop n buf) \<subseteq> {0}"
  shows "got_lines buf ms = map (\<lambda>m. Got (int n) m) ms"
  using assms
proof (induction buf ms rule: got_lines.induct)
  case (2 buf m ms)
  then have n: "length m = n" and nz: "0 \<notin> set m" by simp_all
  from 2(4) obtain r where r: "drop n buf = 0 # r" using 2(3)
    by (cases "drop n buf") auto
  have "cstr (m @ drop (length m) buf) = m"
    using takeWhile_nonzero [OF nz, of "drop n buf"] by (simp add: n cstr_def r)
  moreover have "got_lines (m @ drop (length m) buf) ms = map (\<lambda>m. Got (int n) m) ms"
    using 2(2-4) by (intro 2(1) [OF refl]) (auto simp: n)
  ultimately show ?case using n by simp
qed simp

text \<open>The buffer after the loop of writes.\<close>

fun written_buf :: "(nat \<Rightarrow> string) \<Rightarrow> nat list \<Rightarrow> u8 list \<Rightarrow> u8 list" where
  "written_buf txt [] msg = msg"
| "written_buf txt (i # is) msg = written_buf txt is (bytes_of (txt i) @ 0 # drop (length (txt i) + 1) msg)"

lemma written_buf_length:
  "list_all (\<lambda>i. length (txt i) < length msg) is \<Longrightarrow> length (written_buf txt is msg) = length msg"
proof (induction "txt" "is" msg rule: written_buf.induct)
  case (2 "txt" i "is" msg)
  then have "Suc (length msg - 1) = length msg" by (cases msg) auto
  with 2 show ?case by simp
qed simp

lemma written_buf_rest:
  "\<forall>i \<in> set is. length (txt i) = n \<Longrightarrow> set (drop n msg) \<subseteq> {0} \<Longrightarrow> set (drop n (written_buf txt is msg)) \<subseteq> {0}"
proof (induction "txt" "is" msg rule: written_buf.induct)
  case (2 "txt" i "is" msg)
  then have n: "length (txt i) = n" by simp
  have "set (drop (n + 1) msg) \<subseteq> set (drop n msg)" by (rule set_drop_subset_set_drop) simp
  with 2 n show ?case by auto
qed simp

context group_client
begin

lemma acts_uses: "acts V b ops w w' \<Longrightarrow> uses V w' = uses V w"
  by (simp add: acts_def)

lemma acts_size: "acts V b ops w w' \<Longrightarrow> size_of V w' = size_of V w"
  by (simp add: acts_def)

text \<open>Sending a text that is in the buffer.\<close>

lemma sends_text:
  assumes "uses V w p fd b" and "lib_max_message_size l = size_of V w" and "unat (size_of V w) < MESSAGE_SIZE"
    and "nul_free s" and "s \<noteq> []" and "length (bytes_of s @ 0 # r) = MESSAGE_SIZE"
  defines "m \<equiv> payload (unat (size_of V w)) s"
  shows "\<exists>w'. send_message (pos p) fd (Some (bytes_of s @ 0 # r)) l w =
        Done (if stored (box V w b) < cap V w then int (length m) else 0, Some (bytes_of s @ 0 # r), l, w')
    \<and> acts V b (if stored (box V w b) < cap V w then [store_op (delayed V w b) m] else []) w w'"
proof -
  let ?k = "unat (size_of V w)" and ?buf = "bytes_of s @ 0 # r"
  from uses_sane [OF assms(1)] size_pos [of w] have fd: "0 \<le> fd" and size: "size_of V w \<noteq> 0" by simp_all
  then have k: "0 < ?k" by (simp add: unat_gt_0)
  have len: "?k < length ?buf" using assms(3,6) by simp
  note cut = strlen_cut [OF len]
  note sent = sent_text [OF assms(4) refl, of ?k r]
  have pos: "0 < length m" using payload_pos [OF assms(5) k] by (simp add: m_def)
  have "length m \<le> ?k" "length m \<le> length ?buf" using sent(1) cut(2) len by (simp_all add: m_def)
  from writes [OF assms(1) pos this] obtain w' where
    wr: "os_write (pos p) fd ?buf (length m) w = Done (if stored (box V w b) < cap V w then int (length m) else 0, w')"
    and act: "acts V b [if stored (box V w b) < cap V w
            then (if delayed V w b then Hold (take (length m) ?buf) else Post (take (length m) ?buf)) else Idle] w w'"
    by blast
  have "take (length m) ?buf = m" using sent by (simp add: m_def)
  with act have "acts V b (if stored (box V w b) < cap V w then [store_op (delayed V w b) m] else []) w w'"
    by (auto simp: acts_def store_op_def split: if_splits)
  moreover have "send_message (pos p) fd (Some ?buf) l w =
      Done (if stored (box V w b) < cap V w then int (length m) else 0, Some ?buf, l, w')"
    using fd size len wr cut(1,3) sent(1) pos assms(2) by (simp add: send_message_def Let_def m_def)
  ultimately show ?thesis by blast
qed

text \<open>The loop of writes: every message is reported as written, stored or not.\<close>

lemma run_send_loop:
  assumes "uses V w p fd b" and "lib_max_message_size l = size_of V w" and "unat (size_of V w) < MESSAGE_SIZE"
    and "list_all (\<lambda>i. nul_free (txt i) \<and> txt i \<noteq> [] \<and> length (txt i) < MESSAGE_SIZE) is" and "length msg = MESSAGE_SIZE"
  shows "\<exists>w'. run (pos p) nap (send_loop fd txt is msg ok fail) l w
      = after (map (\<lambda>i. Written (bytes_of (txt i))) is) (run (pos p) nap (ok (written_buf txt is msg)) l w')
    \<and> acts V b (map (\<lambda>i. store_op (delayed V w b) (payload (unat (size_of V w)) (txt i)))
         (take (cap V w - stored (box V w b)) is)) w w'"
  using assms
proof (induction "is" arbitrary: w msg)
  case Nil
  then show ?case using acts_none [of V w b] uses_sane [OF Nil(1)] by (auto simp: after_def intro!: exI [of _ w])
next
  case (Cons i "is")
  let ?r = "drop (length (txt i) + 1) msg" and ?m = "payload (unat (size_of V w)) (txt i)"
  from Cons.prems have clean: "nul_free (txt i)" "txt i \<noteq> []" and len: "length (bytes_of (txt i) @ 0 # ?r) = MESSAGE_SIZE"
    and rest: "list_all (\<lambda>i. nul_free (txt i) \<and> txt i \<noteq> [] \<and> length (txt i) < MESSAGE_SIZE) is" by auto
  from sends_text [OF Cons.prems(1-3) clean len] obtain w1 where
    send: "send_message (pos p) fd (Some (bytes_of (txt i) @ 0 # ?r)) l w =
        Done (if stored (box V w b) < cap V w then int (length ?m) else 0, Some (bytes_of (txt i) @ 0 # ?r), l, w1)"
    and act: "acts V b (if stored (box V w b) < cap V w then [store_op (delayed V w b) ?m] else []) w w1" by blast
  have same: "uses V w1 = uses V w" "size_of V w1 = size_of V w" "delayed V w1 = delayed V w" "cap V w1 = cap V w"
    using act by (simp_all add: acts_def)
  have left: "cap V w1 - stored (box V w1 b) = (cap V w - stored (box V w b)) - 1"
    using act by (auto simp: acts_def split: if_splits)
  from Cons.IH [of w1 "bytes_of (txt i) @ 0 # ?r"] Cons.prems(1-3) rest len same obtain w2 where
    run: "run (pos p) nap (send_loop fd txt is (bytes_of (txt i) @ 0 # ?r) ok fail) l w1
      = after (map (\<lambda>i. Written (bytes_of (txt i))) is) (run (pos p) nap (ok (written_buf txt is (bytes_of (txt i) @ 0 # ?r))) l w2)"
    and act2: "acts V b (map (\<lambda>i. store_op (delayed V w b) (payload (unat (size_of V w)) (txt i)))
         (take (cap V w1 - stored (box V w1 b)) is)) w1 w2" by auto
  have all: "acts V b (map (\<lambda>i. store_op (delayed V w b) (payload (unat (size_of V w)) (txt i)))
         (take (cap V w - stored (box V w b)) (i # is))) w w2"
    using acts_trans [OF act act2] left by (cases "cap V w - stored (box V w b)") (auto split: if_splits)
  have fits: "\<not> length msg < length (txt i) + 1" using Cons.prems(4,5) by simp
  have "run (pos p) nap (send_loop fd txt (i # is) msg ok fail) l w
      = after [Written (bytes_of (txt i))] (run (pos p) nap (send_loop fd txt is (bytes_of (txt i) @ 0 # ?r) ok fail) l w1)"
    using send fits by (simp add: sprintf_to_def cstr_text [OF clean(1)])
  with run all show ?case by auto
qed

text \<open>The loop of reads: it takes the available messages in order, until it has enough of them or there are no more.\<close>

lemma run_read_loop:
  assumes "uses V w p fd b" and "list_all (\<lambda>m. 0 < length m \<and> length m \<le> MESSAGE_SIZE) (avail (box V w b))"
    and "length msg = MESSAGE_SIZE"
  shows "\<exists>w'. run (pos p) nap (read_loop fd is msg ok err) l w
      = after (got_lines msg (take (length is) (avail (box V w b)))
            @ (if length (avail (box V w b)) < length is then [No_more] else []))
          (run (pos p) nap (ok (last_buf msg (take (length is) (avail (box V w b))))) l w')
    \<and> acts V b (replicate (length is) Fetch) w w'"
  using assms
proof (induction "is" arbitrary: w msg)
  case Nil
  then show ?case using acts_none [of V w b] uses_sane [OF Nil(1)] by (auto simp: after_def intro!: exI [of _ w])
next
  case (Cons i "is")
  let ?a = "avail (box V w b)"
  have fd: "0 \<le> fd" using uses_sane [OF Cons.prems(1)] by simp
  from Cons.prems(2,3) have "list_all (\<lambda>m. length m \<le> min MESSAGE_SIZE (length msg)) ?a" by (simp add: list_all_iff)
  from reads [OF Cons.prems(1) this] obtain w1 where
    rd: "os_read (pos p) fd msg MESSAGE_SIZE w = Done (case ?a of [] \<Rightarrow> (0, msg, w1)
          | m # ms \<Rightarrow> (int (length m), m @ drop (length m) msg, w1))" and act: "acts V b [Fetch] w w1" by blast
  show ?case
  proof (cases ?a)
    case Nil
    then have "run (pos p) nap (read_loop fd (i # is) msg ok err) l w = after [No_more] (run (pos p) nap (ok msg) l w1)"
      using fd rd by (simp add: retrieve_message_def)
    moreover have "acts V b (replicate (length (i # is)) Fetch) w w1"
      using act Nil by (simp add: acts_def mb_run_fetches)
    ultimately show ?thesis using Nil by auto
  next
    case (Cons m ms)
    note a = this
    let ?msg = "m @ drop (length m) msg"
    from Cons.prems(2,3) a have m: "0 < length m" "length ?msg = MESSAGE_SIZE" by auto
    have box1: "avail (box V w1 b) = ms" using act a by (simp add: acts_def)
    have "list_all (\<lambda>m. 0 < length m \<and> length m \<le> MESSAGE_SIZE) (avail (box V w1 b))"
      using \<open>list_all (\<lambda>m. 0 < length m \<and> length m \<le> MESSAGE_SIZE) ?a\<close> a box1 by simp
    moreover have "uses V w1 p fd b" using act Cons.prems(1) by (simp add: acts_def)
    ultimately obtain w2 where
      run: "run (pos p) nap (read_loop fd is ?msg ok err) l w1
      = after (got_lines ?msg (take (length is) ms) @ (if length ms < length is then [No_more] else []))
          (run (pos p) nap (ok (last_buf ?msg (take (length is) ms))) l w2)"
      and act2: "acts V b (replicate (length is) Fetch) w1 w2"
      using Cons.IH [of w1 ?msg] m(2) box1 by auto
    have "run (pos p) nap (read_loop fd (i # is) msg ok err) l w
      = after [Got (int (length m)) (cstr ?msg)] (run (pos p) nap (read_loop fd is ?msg ok err) l w1)"
      using fd rd a m(1) by (simp add: retrieve_message_def)
    with run acts_trans [OF act act2] a show ?thesis by (auto simp: Let_def)
  qed
qed

text \<open>The other calls, each with what it prints and what it does to the groups.\<close>

lemma run_open:
  assumes "sane V w" and "lib_max_message_size l = 0 \<or> lib_max_message_size l = size_of V w"
  shows "\<exists>fd l' w'. run (pos p) nap (Open_group b k) l w = run (pos p) nap (k fd) l' w'
    \<and> lib_max_message_size l' = size_of V w \<and> 0 \<le> fd \<and> (\<forall>c. \<not> uses V w p fd c) \<and> sane V w'
    \<and> (\<forall>q fd' c. uses V w' q fd' c \<longleftrightarrow> uses V w q fd' c \<or> (q, fd', c) = (p, fd, b))
    \<and> box V w' = box V w \<and> delayed V w' = delayed V w \<and> cap V w' = cap V w \<and> size_of V w' = size_of V w"
proof -
  from opens [OF assms, of p b] obtain fd l' w' where "open_group (pos p) (Some b) l w = Done (fd, l', w')"
    "lib_max_message_size l' = size_of V w" "0 \<le> fd" "\<forall>c. \<not> uses V w p fd c" "sane V w'"
    "\<forall>q fd' c. uses V w' q fd' c \<longleftrightarrow> uses V w q fd' c \<or> (q, fd', c) = (p, fd, b)"
    "box V w' = box V w" "delayed V w' = delayed V w" "cap V w' = cap V w" "size_of V w' = size_of V w" by blast
  then show ?thesis by (intro exI [of _ fd] exI [of _ l'] exI [of _ w']) simp
qed

lemma run_closing:
  assumes "uses V w p fd b"
  shows "\<exists>w'. run (pos p) nap (closing b fd q) l w = after [Closed b fd] (run (pos p) nap q l w')
    \<and> sane V w' \<and> (\<forall>q fd' c. uses V w' q fd' c \<longleftrightarrow> uses V w q fd' c \<and> (q, fd') \<noteq> (p, fd))
    \<and> box V w' = box V w \<and> delayed V w' = delayed V w \<and> cap V w' = cap V w \<and> size_of V w' = size_of V w"
proof -
  have "\<not> fd < 0" using uses_sane [OF assms] by simp
  with closes [OF assms] show ?thesis by (auto simp: closing_def close_group_def)
qed

lemma run_revoke:
  assumes "uses V w p fd b"
  shows "\<exists>w'. run (pos p) nap (Revoke fd k) l w = run (pos p) nap (k 0) l w' \<and> acts V b [Flush] w w'"
  using revokes [OF assms] uses_sane [OF assms] by (auto simp: revoke_delayed_messages_def)

lemma run_awake:
  assumes "uses V w p fd b"
  shows "\<exists>w'. run (pos p) nap (Awake fd k) l w = run (pos p) nap (k 0) l w' \<and> acts V b [] w w'"
  using awakes [OF assms] uses_sane [OF assms] by (auto simp: awake_barrier_def)

lemma run_set_delay:
  assumes "uses V w p fd b" and "0 \<le> sint ms"
  shows "\<exists>w'. run (pos p) nap (Set_delay fd ms k) l w = run (pos p) nap (k 0) l w'
    \<and> sane V w' \<and> uses V w' = uses V w \<and> box V w' = box V w \<and> delayed V w' = (delayed V w)(b := delays ms)
    \<and> cap V w' = cap V w \<and> size_of V w' = size_of V w"
  using sets_delay [OF assms] uses_sane [OF assms(1)] assms(2) by (auto simp: set_send_delay_def)

lemma run_pause:
  assumes "sane V w"
  shows "\<exists>w'. run (pos p) nap (Pause n q) l w = run (pos p) nap q l w'
    \<and> sane V w' \<and> uses V w' = uses V w \<and> delayed V w' = delayed V w \<and> cap V w' = cap V w \<and> size_of V w' = size_of V w
    \<and> (\<forall>c. held (box V w c) = [] \<longrightarrow> box V w' c = box V w c)"
  using naps [OF assms, of n] by fastforce

end

end
