(* ===== verification/Test_Programs.thy ===== *)
theory Test_Programs
  imports Client
begin

text \<open>
  The test programs under \<open>src/lib\<close> as trees of \<open>Client\<close>. Each \<open>goto\<close> is the subtree it jumps
  to; the arrays of descriptors are lists. Lines that only announce something are notes.
\<close>

section \<open>Constants and shared parts\<close>

definition MSG_TO_WRITE :: nat where "MSG_TO_WRITE = 5"
definition E_MSG_TO_WRITE :: nat where "E_MSG_TO_WRITE = 128"
definition MSG_TO_READ :: nat where "MSG_TO_READ = MSG_TO_WRITE + 1"
definition CHILDREN :: nat where "CHILDREN = 3"
definition THREADS :: nat where "THREADS = 3"
definition ITERATIONS :: nat where "ITERATIONS = 2"
definition GROUPS_TO_EXCEED :: nat where "GROUPS_TO_EXCEED = 260"
definition MULTIGROUP_TO_INSTALL :: nat where "MULTIGROUP_TO_INSTALL = 4"

definition greeting :: "nat \<Rightarrow> string" where
  "greeting i = sprintf_d ''%d from userspace hello how are you'' (int i)"

definition from_userspace :: "nat \<Rightarrow> string" where
  "from_userspace i = sprintf_d ''%d from userspace'' (int i)"

definition was_here :: "nat \<Rightarrow> string" where
  "was_here tid = sprintf_ld ''%ld was here'' (int tid)"

definition begins :: "prog \<Rightarrow> prog" where "begins p = Say (Note ''EXECUTING'') p"
definition ends :: prog where "ends = Say (Note ''DONE'') Exit"

text \<open>Open a group; \<open>p\<close> is what follows when it succeeds.\<close>

definition open_or :: "u8 \<Rightarrow> prog \<Rightarrow> (int \<Rightarrow> prog) \<Rightarrow> prog" where
  "open_or desc fail p = Open_group desc (\<lambda>fd. if fd < 0 then Say Open_err fail else Say (Opened desc fd) (p fd))"

section \<open>Programs of one process\<close>

definition install_main :: prog where
  "install_main = begins (open_or 0 ends (\<lambda>fd. Key (closing 0 fd ends)))"

definition doubleopen_main :: prog where
  "doubleopen_main = begins (open_or 0 ends (\<lambda>fd1.
     open_or 0 (closing 0 fd1 ends) (\<lambda>fd2. Key (closing 0 fd2 (closing 0 fd1 ends)))))"

definition readwrite_main :: prog where
  "readwrite_main = begins (open_or 0 ends (\<lambda>fd.
     Say (Writing MSG_TO_WRITE) (send_loop fd greeting [0..<MSG_TO_WRITE] zeros
       (\<lambda>_. Pause 1 (Say (Reading (int MSG_TO_READ)) (read_loop fd [0..<MSG_TO_READ] zeros
         (\<lambda>_. Awake fd (\<lambda>_. closing 0 fd ends))
         (\<lambda>_. closing 0 fd ends))))
       (\<lambda>_. closing 0 fd ends))))"

definition readwrite_delay_main :: prog where
  "readwrite_delay_main = begins (open_or 0 ends (\<lambda>fd.
     Set_delay fd (-1) (\<lambda>ret.
     if ret < 0 then Say (Delay_err (-1)) (closing 0 fd ends)
     else Say (Delay_set (-1)) (Say (Writing MSG_TO_WRITE)
       (send_loop fd from_userspace [0..<MSG_TO_WRITE] zeros
         (\<lambda>_. Pause 2 (Say (Reading (int MSG_TO_READ)) (read_loop fd [0..<MSG_TO_READ] zeros
           (\<lambda>_. closing 0 fd ends) (\<lambda>_. closing 0 fd ends))))
         (\<lambda>_. closing 0 fd ends))))))"

text \<open>\<open>revoke\<close> after its writes: read what is there, revoke, and read again.\<close>

definition revoke_reads :: "int \<Rightarrow> u8 list \<Rightarrow> prog" where
  "revoke_reads fd msg = Say (Reading (int MSG_TO_READ)) (read_loop fd [0..<MSG_TO_READ] msg
     (\<lambda>msg. Pause 0 (Revoke fd (\<lambda>_. Say (Note ''Delayed messages revoked'')
       (Say (Reading (int MSG_TO_READ)) (read_loop fd [0..<MSG_TO_READ] msg
         (\<lambda>_. closing 0 fd ends) (\<lambda>_. closing 0 fd ends))))))
     (\<lambda>_. closing 0 fd ends))"

definition revoke_main :: prog where
  "revoke_main = begins (open_or 0 ends (\<lambda>fd.
     Set_delay fd 5000 (\<lambda>_.
     Say (Writing MSG_TO_WRITE) (send_loop fd from_userspace [0..<MSG_TO_WRITE] zeros
       (revoke_reads fd) (\<lambda>_. closing 0 fd ends)))))"

definition exceed_messages_main :: prog where
  "exceed_messages_main = begins (open_or 0 ends (\<lambda>fd.
     Say (Writing E_MSG_TO_WRITE) (send_loop fd from_userspace [0..<E_MSG_TO_WRITE] zeros
       (\<lambda>_. closing 0 fd ends) (\<lambda>_. closing 0 fd ends))))"

text \<open>
  Open the groups with the descriptors \<open>i\<close>, which are stored in an \<open>unsigned char\<close>; \<open>fds\<close> are
  those opened so far.
\<close>

fun open_groups :: "nat list \<Rightarrow> (u8 \<times> int) list \<Rightarrow> ((u8 \<times> int) list \<Rightarrow> prog) \<Rightarrow> ((u8 \<times> int) list \<Rightarrow> prog) \<Rightarrow> prog" where
  "open_groups [] fds ok fail = ok fds"
| "open_groups (i # is) fds ok fail =
     open_or (word_of_nat i) (fail fds) (\<lambda>fd. open_groups is (fds @ [(word_of_nat i, fd)]) ok fail)"

fun close_groups :: "(u8 \<times> int) list \<Rightarrow> prog \<Rightarrow> prog" where
  "close_groups [] p = p"
| "close_groups ((b, fd) # fds) p = closing b fd (close_groups fds p)"

definition exceed_groups_main :: prog where
  "exceed_groups_main = begins (open_groups [0..<GROUPS_TO_EXCEED] []
     (\<lambda>fds. close_groups fds ends) (\<lambda>fds. close_groups fds ends))"

definition multigroup_main :: prog where
  "multigroup_main = begins (open_groups [0..<MULTIGROUP_TO_INSTALL] []
     (\<lambda>fds. Key (close_groups fds ends)) (\<lambda>fds. ends))"

section \<open>Programs of several processes\<close>

text \<open>\<open>fork\<close> in a loop; \<open>pthread_create\<close> in a loop.\<close>

fun fork_all :: "(nat \<Rightarrow> prog) \<Rightarrow> nat list \<Rightarrow> prog \<Rightarrow> prog \<Rightarrow> prog" where
  "fork_all child [] ok fail = ok"
| "fork_all child (i # is) ok fail =
     Fork (child i) (\<lambda>done. if done then fork_all child is ok fail else Say (Note ''ERR: fork'') fail)"

fun create_all :: "prog \<Rightarrow> nat list \<Rightarrow> prog \<Rightarrow> prog \<Rightarrow> prog" where
  "create_all thread [] ok fail = ok"
| "create_all thread (i # is) ok fail =
     Create thread (\<lambda>done. if done then create_all thread is ok fail else Say (Note ''ERR: pthread_create'') fail)"

text \<open>A child of \<open>mp_readwrite\<close>.\<close>

definition mp_child :: "int \<Rightarrow> nat \<Rightarrow> prog" where
  "mp_child fd n = Get_tid (\<lambda>tid. Say (Note ''My number is'') (Say (Writing n)
     (send_loop fd (\<lambda>_. was_here tid) [0..<n] zeros
       (\<lambda>_. Close_group fd ends) (\<lambda>_. Close_group fd ends))))"

definition mp_readwrite_main :: prog where
  "mp_readwrite_main = begins (open_or 1 ends (\<lambda>fd.
     fork_all (mp_child fd) [0..<CHILDREN]
       (Say (Note ''Dad is going to wait'') (Join
         (let n = (CHILDREN - 1) * (CHILDREN - 1 + 1) div 2 in
          Say (Reading (int n)) (read_loop fd [0..<n] zeros (\<lambda>_. closing 1 fd ends) (\<lambda>rest. rest)))))
       (closing 1 fd ends)))"

definition mp_multigroup_child :: "nat \<Rightarrow> prog" where
  "mp_multigroup_child n = Say (Note ''My number is'') (open_or (word_of_nat n) ends (\<lambda>fd.
     Get_tid (\<lambda>tid. Say (Writing n) (send_loop fd (\<lambda>_. was_here tid) [0..<n] zeros
       (\<lambda>_. Close_group fd ends) (\<lambda>_. Close_group fd ends)))))"

text \<open>The parent reads group after group; after an error it closes the file and keeps reading from it.\<close>

fun read_groups :: "nat list \<Rightarrow> u8 list \<Rightarrow> prog \<Rightarrow> prog" where
  "read_groups [] msg p = p"
| "read_groups (i # is) msg p = open_or (word_of_nat i) p (\<lambda>fd.
     Say (Reading (int CHILDREN)) (read_loop fd [0..<CHILDREN] msg
       (\<lambda>msg. Say (Closed (word_of_nat i) fd) (Close_group fd (read_groups is msg p)))
       (\<lambda>rest. Say (Closed (word_of_nat i) fd) (Close_group fd rest))))"

definition mp_multigroup_main :: prog where
  "mp_multigroup_main = begins (fork_all mp_multigroup_child [0..<CHILDREN]
     (Say (Note ''Dad is going to wait'') (Join (read_groups [0..<CHILDREN] zeros ends))) ends)"

definition sleep_child :: "int \<Rightarrow> prog" where
  "sleep_child fd = Say (Note ''STARTED'') (Say (Note ''Going to bed'') (Nap fd (\<lambda>ret.
     (if ret < 0 then Say (Note ''ERR: Cannot sleep'') else (\<lambda>p. p))
       (Say (Note ''What a beautiful nap!'') (Close_group fd ends)))))"

definition sleep_main :: prog where
  "sleep_main = begins (open_or 1 ends (\<lambda>fd. fork_all (\<lambda>_. sleep_child fd) [0]
     (Pause 2 (Awake fd (\<lambda>_. Say (Note ''Barrier awakened'') (Pause 2 (Join (closing 1 fd ends))))))
     (closing 1 fd ends)))"

definition mp_sleep_main :: prog where
  "mp_sleep_main = begins (open_or 1 ends (\<lambda>fd. fork_all (\<lambda>_. sleep_child fd) [0..<CHILDREN]
     (Pause 5 (Awake fd (\<lambda>_. Say (Note ''Dad has awakened babies'') (Say (Note ''Dad is going to wait'')
       (Join (closing 1 fd ends))))))
     ends))"

section \<open>Programs of several threads\<close>

definition mt_thread :: "int \<Rightarrow> prog" where
  "mt_thread fd = Say (Note ''STARTED'') (
     if fd < 0 then Say (Note ''ERR: fd'') ends
     else Get_tid (\<lambda>tid. Say (Writing (ITERATIONS + 1))
       (send_loop fd (\<lambda>_. was_here tid) [0..<ITERATIONS + 1] zeros (\<lambda>_. ends) (\<lambda>_. ends))))"

definition mt_readwrite_main :: prog where
  "mt_readwrite_main = begins (open_or 0 ends (\<lambda>fd.
     create_all (mt_thread fd) [0..<THREADS]
       (Join (Say (Reading (int (THREADS * ITERATIONS)))
         (read_loop fd [0..<THREADS * ITERATIONS] zeros (\<lambda>_. closing 0 fd ends) (\<lambda>rest. rest))))
       (closing 0 fd ends)))"

text \<open>
  What a thread of \<open>mt_ordinary\<close> and of \<open>mt_ordinary_chaotic\<close> does between taking a share of the
  global counter and the last line; \<open>post\<close> releases the semaphore in the first program. On an
  error it leaves without doing so.
\<close>

definition mt_body :: "int \<Rightarrow> (prog \<Rightarrow> prog) \<Rightarrow> prog" where
  "mt_body fd post = Rand 7 (\<lambda>to_write. Rand 7 (\<lambda>to_read. Rand 5 (\<lambda>to_awake. Rand 2 (\<lambda>to_sleep.
     Load_var (\<lambda>v. Store_var (v + int to_write - int to_read)
     (Say (Note ''is going to'') (Get_tid (\<lambda>tid. Say (Writing to_write)
     (send_loop fd (\<lambda>_. was_here tid) [0..<to_write] zeros
       (\<lambda>_. Say (Reading (int to_read)) (read_loop fd [0..<to_read] zeros
         (\<lambda>_. let bed = (if to_sleep \<noteq> 0 then Say (Note ''Going to bed'') (Nap fd (\<lambda>_.
                 Say (Note ''What a beautiful nap!'') ends)) else ends) in
           if to_awake = 0 then Say (Note ''Awaking barrier'') (Awake fd (\<lambda>_. post bed)) else post bed)
         (\<lambda>_. ends)))
       (\<lambda>_. ends))))))))))"

definition mt_ordinary_thread :: "int \<Rightarrow> prog" where
  "mt_ordinary_thread fd = Say (Note ''STARTED'') (
     if fd < 0 then Say (Note ''ERR: fd'') ends
     else Say (Note ''Acquiring resource'') (Sem_wait (mt_body fd Sem_post)))"

definition mt_chaotic_thread :: "int \<Rightarrow> prog" where
  "mt_chaotic_thread fd = Say (Note ''STARTED'') (
     if fd < 0 then Say (Note ''ERR: fd'') ends else mt_body fd (\<lambda>p. p))"

text \<open>The end of both main programs: read what should be left, by the global counter.\<close>

definition read_remaining :: "int \<Rightarrow> prog" where
  "read_remaining fd = Load_var (\<lambda>n. Say (Reading n) (read_loop fd [0..<nat n] zeros
     (\<lambda>_. closing 0 fd ends) (\<lambda>_. closing 0 fd ends)))"

definition mt_ordinary_main :: prog where
  "mt_ordinary_main = begins (open_or 0 ends (\<lambda>fd.
     Store_var 0 (Sem_init 1 (create_all (mt_ordinary_thread fd) [0..<THREADS]
       (Pause 8 (Awake fd (\<lambda>_. Pause 1 (Join (Say (Note ''Releasing resource'') (read_remaining fd))))))
       (closing 0 fd ends)))))"

definition mt_chaotic_main :: prog where
  "mt_chaotic_main = begins (open_or 0 ends (\<lambda>fd.
     Store_var 0 (create_all (mt_chaotic_thread fd) [0..<THREADS]
       (Pause 5 (Awake fd (\<lambda>_. Pause 1 (Join (Say (Note ''Thread creation and join'') (Pause 5 (read_remaining fd)))))))
       (closing 0 fd ends))))"

end
