(* ===== verification/Program_Laws.thy ===== *)
theory Program_Laws
  imports Client_Laws Test_Programs
begin

text \<open>
  The test programs of one process, run on any system that keeps the laws of \<open>group_client\<close>.
\<close>

section \<open>The texts\<close>

lemma greeting_eq: "greeting i = dec i @ '' from userspace hello how are you''"
  by (simp add: greeting_def dec_int_def)

lemma from_userspace_eq: "from_userspace i = dec i @ '' from userspace''"
  by (simp add: from_userspace_def dec_int_def)

lemma length_dec_digit: "i < 10 \<Longrightarrow> length (dec i) = 1"
  by (simp add: dec.simps)

lemma length_dec_small: "i < 1000 \<Longrightarrow> length (dec i) \<le> 3"
  using length_dec_bound [of i 3] by simp

lemma nul_free_append [simp]: "nul_free (s @ t) \<longleftrightarrow> nul_free s \<and> nul_free t"
  by (auto simp: nul_free_def)

lemma length_greeting: "i < 10 \<Longrightarrow> length (greeting i) = 34" "i < 10 \<Longrightarrow> length (from_userspace i) = 16"
  by (simp_all add: greeting_eq from_userspace_eq length_dec_digit)

lemma clean_texts:
  "nul_free (greeting i)" "nul_free (from_userspace i)" "greeting i \<noteq> []" "from_userspace i \<noteq> []"
  "i < 1000 \<Longrightarrow> length (greeting i) < MESSAGE_SIZE" "i < 1000 \<Longrightarrow> length (from_userspace i) < MESSAGE_SIZE"
  using length_dec_small [of i]
  by (simp_all add: greeting_eq from_userspace_eq nul_free_dec MESSAGE_SIZE_def) (simp_all add: nul_free_def)

lemma payload_nonzero: "nul_free s \<Longrightarrow> 0 \<notin> set (payload k s)"
  using bytes_of_nonzero [of s] by (auto simp: payload_def dest: in_set_takeD)

text \<open>Texts of one length, cut and read back into a buffer of zeros.\<close>

lemma got_texts:
  assumes "\<forall>i \<in> set is. nul_free (txt i) \<and> length (txt i) = n" and "min n k < length buf" and "set (drop (min n k) buf) \<subseteq> {0}"
  shows "got_lines buf (map (\<lambda>i. payload k (txt i)) is) = map (\<lambda>i. Got (int (min n k)) (payload k (txt i))) is"
proof -
  have "list_all (\<lambda>m. length m = min n k \<and> 0 \<notin> set m) (map (\<lambda>i. payload k (txt i)) is)"
    using assms(1) payload_nonzero by (auto simp: list_all_iff payload_length)
  from got_lines_even [OF this assms(2,3)] show ?thesis by simp
qed

lemma zeros_facts [simp]: "length zeros = MESSAGE_SIZE" "set (drop n zeros) \<subseteq> {0}"
  by (auto simp: zeros_def dest: in_set_dropD)

abbreviation "empty_box \<equiv> \<lparr>avail = [], held = []\<rparr>"

lemma mb_run_store: "mb_run c (map (\<lambda>i. store_op late (f i)) xs)
    = (if late then c\<lparr>held := held c @ map f xs\<rparr> else c\<lparr>avail := avail c @ map f xs\<rparr>)"
  by (induction xs arbitrary: c) (auto simp: store_op_def)

context group_client
begin

text \<open>Opening a group as the programs do it, and their common end.\<close>

lemma run_open_or:
  assumes "sane V w" and "lib_max_message_size l = 0 \<or> lib_max_message_size l = size_of V w"
  shows "\<exists>fd l' w'. run (pos p) nap (open_or b q k) l w = after [Opened b fd] (run (pos p) nap (k fd) l' w')
    \<and> lib_max_message_size l' = size_of V w \<and> 0 \<le> fd \<and> (\<forall>c. \<not> uses V w p fd c) \<and> sane V w'
    \<and> (\<forall>q fd' c. uses V w' q fd' c \<longleftrightarrow> uses V w q fd' c \<or> (q, fd', c) = (p, fd, b))
    \<and> box V w' = box V w \<and> delayed V w' = delayed V w \<and> cap V w' = cap V w \<and> size_of V w' = size_of V w"
proof -
  from run_open [OF assms, of p b "\<lambda>fd. if fd < 0 then Say Open_err q else Say (Opened b fd) (k fd)"]
  obtain fd l' w' where
    r: "run (pos p) nap (open_or b q k) l w = run (pos p) nap (if fd < 0 then Say Open_err q else Say (Opened b fd) (k fd)) l' w'"
    and fd: "0 \<le> fd" and rest: "lib_max_message_size l' = size_of V w \<and> 0 \<le> fd \<and> (\<forall>c. \<not> uses V w p fd c) \<and> sane V w'
      \<and> (\<forall>q fd' c. uses V w' q fd' c \<longleftrightarrow> uses V w q fd' c \<or> (q, fd', c) = (p, fd, b))
      \<and> box V w' = box V w \<and> delayed V w' = delayed V w \<and> cap V w' = cap V w \<and> size_of V w' = size_of V w"
    unfolding open_or_def by blast
  from r fd have "run (pos p) nap (open_or b q k) l w = after [Opened b fd] (run (pos p) nap (k fd) l' w')" by simp
  with rest show ?thesis by blast
qed

lemma run_closing_ends:
  assumes "uses V w1 p fd b" and "\<forall>c. \<not> uses V w p fd c"
    and "\<forall>q fd' c. uses V w1 q fd' c \<longleftrightarrow> uses V w q fd' c \<or> (q, fd', c) = (p, fd, b)"
  shows "\<exists>w2. run (pos p) nap (closing b fd ends) l w1 = Done ([Closed b fd, Note ''DONE''], l, w2)
    \<and> sane V w2 \<and> uses V w2 = uses V w \<and> box V w2 = box V w1 \<and> delayed V w2 = delayed V w1"
proof -
  from run_closing [OF assms(1), of ends l] obtain w2 where
    "run (pos p) nap (closing b fd ends) l w1 = after [Closed b fd] (run (pos p) nap ends l w2)" "sane V w2"
    "\<forall>q fd' c. uses V w2 q fd' c \<longleftrightarrow> uses V w1 q fd' c \<and> (q, fd') \<noteq> (p, fd)"
    "box V w2 = box V w1" "delayed V w2 = delayed V w1" by blast
  moreover from this(3) assms(2,3) have "uses V w2 = uses V w" by (intro ext) auto
  ultimately show ?thesis by (auto simp: ends_def)
qed

text \<open>The writes of a program into a group that has just been opened; \<open>k\<close> is what follows.\<close>

lemma run_sends:
  assumes "uses V w p fd b" and "lib_max_message_size l = size_of V w" and "unat (size_of V w) < MESSAGE_SIZE"
    and "\<forall>i. nul_free (txt i) \<and> txt i \<noteq> []" and "\<forall>i \<in> set is. length (txt i) < MESSAGE_SIZE" and "box V w b = empty_box"
  defines "ms \<equiv> map (\<lambda>i. payload (unat (size_of V w)) (txt i)) (take (cap V w) is)"
  shows "\<exists>w'. run (pos p) nap (Say (Writing n) (send_loop fd txt is zeros k fail)) l w
      = after (Writing n # map (\<lambda>i. Written (bytes_of (txt i))) is) (run (pos p) nap (k (written_buf txt is zeros)) l w')
    \<and> sane V w' \<and> uses V w' = uses V w \<and> delayed V w' = delayed V w
    \<and> cap V w' = cap V w \<and> size_of V w' = size_of V w
    \<and> box V w' = (box V w)(b := (if delayed V w b then \<lparr>avail = [], held = ms\<rparr> else \<lparr>avail = ms, held = []\<rparr>))"
proof -
  have clean: "list_all (\<lambda>i. nul_free (txt i) \<and> txt i \<noteq> [] \<and> length (txt i) < MESSAGE_SIZE) is"
    using assms(4,5) by (auto simp: list_all_iff)
  from run_send_loop [OF assms(1-3) clean zeros_facts(1), of k fail] assms(6) obtain w' where
    "run (pos p) nap (send_loop fd txt is zeros k fail) l w
      = after (map (\<lambda>i. Written (bytes_of (txt i))) is) (run (pos p) nap (k (written_buf txt is zeros)) l w')"
    "acts V b (map (\<lambda>i. store_op (delayed V w b) (payload (unat (size_of V w)) (txt i))) (take (cap V w) is)) w w'"
    by (auto simp: stored_def)
  then show ?thesis using assms(6)
    by (intro exI [of _ w'])
      (simp add: acts_def mb_run_store ms_def)
qed

text \<open>The reads of a program; \<open>k\<close> is what follows.\<close>

lemma run_reads:
  fixes xs :: "nat list"
  assumes "uses V w p fd b" and "list_all (\<lambda>m. 0 < length m \<and> length m \<le> MESSAGE_SIZE) (avail (box V w b))"
    and "length msg = MESSAGE_SIZE"
  defines "ms \<equiv> take (length xs) (avail (box V w b))"
  shows "\<exists>w'. run (pos p) nap (Say (Reading n) (read_loop fd xs msg k err)) l w
      = after (Reading n # got_lines msg ms @ (if length (avail (box V w b)) < length xs then [No_more] else []))
          (run (pos p) nap (k (last_buf msg ms)) l w')
    \<and> sane V w' \<and> uses V w' = uses V w \<and> delayed V w' = delayed V w
    \<and> cap V w' = cap V w \<and> size_of V w' = size_of V w
    \<and> box V w' = (box V w)(b := (box V w b)\<lparr>avail := drop (length xs) (avail (box V w b))\<rparr>)"
proof -
  from run_read_loop [OF assms(1-3), of "xs" k err l, folded ms_def] obtain w' where
    "run (pos p) nap (read_loop fd xs msg k err) l w
      = after (got_lines msg ms @ (if length (avail (box V w b)) < length xs then [No_more] else []))
          (run (pos p) nap (k (last_buf msg ms)) l w')"
    "acts V b (replicate (length xs) Fetch) w w'" by blast
  then show ?thesis
    by (intro exI [of _ w']) (simp add: acts_def mb_run_fetches)
qed

text \<open>\<open>readwrite\<close>: the messages come back in order, cut to the largest size, and then there are no more.\<close>

lemma readwrite_run:
  assumes "sane V w" and "lib_max_message_size l = 0 \<or> lib_max_message_size l = size_of V w"
    and "box V w 0 = empty_box" and "\<not> delayed V w 0" and "MSG_TO_WRITE \<le> cap V w" and "unat (size_of V w) < MESSAGE_SIZE"
  defines "k \<equiv> unat (size_of V w)"
  shows "\<exists>fd l' w'. run (pos p) nap readwrite_main l w = Done (
      [Note ''EXECUTING'', Opened 0 fd, Writing 5] @ map (\<lambda>i. Written (bytes_of (greeting i))) [0..<5]
      @ [Reading 6] @ map (\<lambda>i. Got (int (min 34 k)) (payload k (greeting i))) [0..<5]
      @ [No_more, Closed 0 fd, Note ''DONE''], l', w')
    \<and> sane V w' \<and> uses V w' = uses V w \<and> box V w' 0 = empty_box \<and> delayed V w' = delayed V w"
proof -
  note run.simps [simp del] upt_conv_Cons [simp del]
  have k: "0 < k" "k < MESSAGE_SIZE" using size_pos [OF assms(1)] assms(6) by (simp_all add: k_def unat_gt_0)
  let ?msgs = "map (\<lambda>i. payload k (greeting i)) [0..<5]"
  have msgs: "list_all (\<lambda>m. 0 < length m \<and> length m \<le> MESSAGE_SIZE) ?msgs"
    using k by (auto simp: list_all_iff payload_def bytes_of_def clean_texts)
  let ?cl = "\<lambda>fd. closing 0 fd ends"
  let ?rd = "\<lambda>fd. Say (Reading (int MSG_TO_READ)) (read_loop fd [0..<MSG_TO_READ] zeros (\<lambda>_. Awake fd (\<lambda>_. ?cl fd)) (\<lambda>_. ?cl fd))"
  let ?wr = "\<lambda>fd. Say (Writing MSG_TO_WRITE) (send_loop fd greeting [0..<MSG_TO_WRITE] zeros (\<lambda>_. Pause 1 (?rd fd)) (\<lambda>_. ?cl fd))"
  from run_open_or [OF assms(1,2), of p 0 ends ?wr]
  obtain fd l1 w1 where r1: "run (pos p) nap readwrite_main l w = after [Note ''EXECUTING'', Opened 0 fd] (run (pos p) nap (?wr fd) l1 w1)"
    and l1: "lib_max_message_size l1 = size_of V w" and new: "\<forall>c. \<not> uses V w p fd c"
    and u1: "\<forall>q fd' c. uses V w1 q fd' c \<longleftrightarrow> uses V w q fd' c \<or> (q, fd', c) = (p, fd, 0)"
    and s1: "box V w1 = box V w" "delayed V w1 = delayed V w" "cap V w1 = cap V w" "size_of V w1 = size_of V w"
    by (auto simp: readwrite_main_def begins_def run.simps(3))
  have use1: "uses V w1 p fd 0" using u1 by simp
  have lim: "lib_max_message_size l1 = size_of V w1" "unat (size_of V w1) < MESSAGE_SIZE" "box V w1 0 = empty_box"
    using l1 assms(3,6) by (simp_all add: s1)
  have short: "\<forall>i \<in> set [0..<MSG_TO_WRITE]. length (greeting i) < MESSAGE_SIZE"
    by (simp add: clean_texts MSG_TO_WRITE_def)
  have five: "take (cap V w) [0..<MSG_TO_WRITE] = [0..<5]" using assms(5) by (simp add: MSG_TO_WRITE_def)
  from run_sends [OF use1 lim(1,2) _ short lim(3), of MSG_TO_WRITE "\<lambda>_. Pause 1 (?rd fd)" "\<lambda>_. ?cl fd"] assms(4)
  obtain w2 where r2: "run (pos p) nap (?wr fd) l1 w1
      = after (Writing 5 # map (\<lambda>i. Written (bytes_of (greeting i))) [0..<5]) (run (pos p) nap (Pause 1 (?rd fd)) l1 w2)"
    and s2: "sane V w2" "uses V w2 = uses V w1" "delayed V w2 = delayed V w" "box V w2 = (box V w)(0 := \<lparr>avail = ?msgs, held = []\<rparr>)"
    by (auto simp: clean_texts s1 five k_def) (auto simp: MSG_TO_WRITE_def)
  from run_pause [OF s2(1), of p 1 "?rd fd" l1] obtain w3 where
    r3: "run (pos p) nap (Pause 1 (?rd fd)) l1 w2 = run (pos p) nap (?rd fd) l1 w3"
    and s3: "sane V w3" "uses V w3 = uses V w1" "delayed V w3 = delayed V w" and b3: "\<forall>c. held (box V w2 c) = [] \<longrightarrow> box V w3 c = box V w2 c"
    unfolding s2 by blast
  have use3: "uses V w3 p fd 0" using use1 by (simp add: s3)
  have box3: "box V w3 0 = \<lparr>avail = ?msgs, held = []\<rparr>" using b3 [THEN spec, of 0] by (simp add: s2)
  have "list_all (\<lambda>m. 0 < length m \<and> length m \<le> MESSAGE_SIZE) (avail (box V w3 0))" using msgs by (simp add: box3)
  from run_reads [OF use3 this zeros_facts(1), of "int MSG_TO_READ" "[0..<MSG_TO_READ]" "\<lambda>_. Awake fd (\<lambda>_. ?cl fd)" "\<lambda>_. ?cl fd" l1]
  obtain w4 where r4: "run (pos p) nap (?rd fd) l1 w3
      = after (Reading 6 # got_lines zeros ?msgs @ [No_more]) (run (pos p) nap (Awake fd (\<lambda>_. ?cl fd)) l1 w4)"
    and s4: "sane V w4" "uses V w4 = uses V w1" "delayed V w4 = delayed V w" "box V w4 = (box V w3)(0 := empty_box)"
    by (auto simp: box3 MSG_TO_READ_def MSG_TO_WRITE_def s3)
  have use4: "uses V w4 p fd 0" using use1 by (simp add: s4)
  from run_awake [OF use4, of "\<lambda>_. ?cl fd" l1] obtain w5 where
    r5: "run (pos p) nap (Awake fd (\<lambda>_. ?cl fd)) l1 w4 = run (pos p) nap (?cl fd) l1 w5" and a5: "acts V 0 [] w4 w5" by blast
  have same5: "uses V w5 = uses V w1" "box V w5 = box V w4" "delayed V w5 = delayed V w"
    using a5 s4 by (simp_all add: acts_def)
  have use5: "uses V w5 p fd 0" and u5: "\<forall>q fd' c. uses V w5 q fd' c \<longleftrightarrow> uses V w q fd' c \<or> (q, fd', c) = (p, fd, 0)"
    unfolding same5 using use1 u1 by blast+
  from run_closing_ends [OF use5 new u5, of l1] obtain w6 where
    r6: "run (pos p) nap (?cl fd) l1 w5 = Done ([Closed 0 fd, Note ''DONE''], l1, w6)"
    and s6: "sane V w6" "uses V w6 = uses V w" "box V w6 = box V w5" "delayed V w6 = delayed V w5" by blast
  have "got_lines zeros ?msgs = map (\<lambda>i. Got (int (min 34 k)) (payload k (greeting i))) [0..<5]"
    by (rule got_texts) (auto simp: clean_texts length_greeting zeros_facts MESSAGE_SIZE_def dest: zeros_facts(2) [THEN subsetD])
  then have "run (pos p) nap readwrite_main l w = Done (
      [Note ''EXECUTING'', Opened 0 fd, Writing 5] @ map (\<lambda>i. Written (bytes_of (greeting i))) [0..<5]
      @ [Reading 6] @ map (\<lambda>i. Got (int (min 34 k)) (payload k (greeting i))) [0..<5]
      @ [No_more, Closed 0 fd, Note ''DONE''], l1, w6)"
    unfolding r1 r2 r3 r4 r5 r6 by simp
  moreover have "box V w6 0 = empty_box" by (simp add: s6 same5 s4)
  ultimately show ?thesis using s6 same5 by auto
qed

text \<open>\<open>exceed_messages\<close>: every write is reported as done, but only as many messages as fit are stored.\<close>

lemma exceed_messages_run:
  assumes "sane V w" and "lib_max_message_size l = 0 \<or> lib_max_message_size l = size_of V w"
    and "box V w 0 = empty_box" and "\<not> delayed V w 0" and "unat (size_of V w) < MESSAGE_SIZE"
  shows "\<exists>fd l' w'. run (pos p) nap exceed_messages_main l w = Done (
      [Note ''EXECUTING'', Opened 0 fd, Writing E_MSG_TO_WRITE] @ map (\<lambda>i. Written (bytes_of (from_userspace i))) [0..<E_MSG_TO_WRITE]
      @ [Closed 0 fd, Note ''DONE''], l', w')
    \<and> sane V w' \<and> uses V w' = uses V w \<and> delayed V w' = delayed V w
    \<and> box V w' = (box V w)(0 := \<lparr>avail = map (\<lambda>i. payload (unat (size_of V w)) (from_userspace i))
         (take (cap V w) [0..<E_MSG_TO_WRITE]), held = []\<rparr>)"
proof -
  note run.simps [simp del] upt_conv_Cons [simp del]
  let ?cl = "\<lambda>fd. closing 0 fd ends"
  let ?wr = "\<lambda>fd. Say (Writing E_MSG_TO_WRITE) (send_loop fd from_userspace [0..<E_MSG_TO_WRITE] zeros (\<lambda>_. ?cl fd) (\<lambda>_. ?cl fd))"
  from run_open_or [OF assms(1,2), of p 0 ends ?wr]
  obtain fd l1 w1 where r1: "run (pos p) nap exceed_messages_main l w = after [Note ''EXECUTING'', Opened 0 fd] (run (pos p) nap (?wr fd) l1 w1)"
    and l1: "lib_max_message_size l1 = size_of V w" and new: "\<forall>c. \<not> uses V w p fd c"
    and u1: "\<forall>q fd' c. uses V w1 q fd' c \<longleftrightarrow> uses V w q fd' c \<or> (q, fd', c) = (p, fd, 0)"
    and s1: "box V w1 = box V w" "delayed V w1 = delayed V w" "cap V w1 = cap V w" "size_of V w1 = size_of V w"
    by (auto simp: exceed_messages_main_def begins_def run.simps(3))
  have use1: "uses V w1 p fd 0" using u1 by simp
  have lim: "lib_max_message_size l1 = size_of V w1" "unat (size_of V w1) < MESSAGE_SIZE" "box V w1 0 = empty_box"
    using l1 assms(3,5) by (simp_all add: s1)
  have short: "\<forall>i \<in> set [0..<E_MSG_TO_WRITE]. length (from_userspace i) < MESSAGE_SIZE"
    by (simp add: clean_texts E_MSG_TO_WRITE_def)
  from run_sends [OF use1 lim(1,2) _ short lim(3), of E_MSG_TO_WRITE "\<lambda>_. ?cl fd" "\<lambda>_. ?cl fd"] assms(4)
  obtain w2 where r2: "run (pos p) nap (?wr fd) l1 w1
      = after (Writing E_MSG_TO_WRITE # map (\<lambda>i. Written (bytes_of (from_userspace i))) [0..<E_MSG_TO_WRITE]) (run (pos p) nap (?cl fd) l1 w2)"
    and s2: "uses V w2 = uses V w1" "delayed V w2 = delayed V w" "box V w2 = (box V w)(0 := \<lparr>avail = map (\<lambda>i. payload (unat (size_of V w)) (from_userspace i))
         (take (cap V w) [0..<E_MSG_TO_WRITE]), held = []\<rparr>)"
    by (auto simp: clean_texts s1)
  have use2: "uses V w2 p fd 0" and u2: "\<forall>q fd' c. uses V w2 q fd' c \<longleftrightarrow> uses V w q fd' c \<or> (q, fd', c) = (p, fd, 0)"
    unfolding s2 using use1 u1 by blast+
  from run_closing_ends [OF use2 new u2, of l1] obtain w3 where
    r3: "run (pos p) nap (?cl fd) l1 w2 = Done ([Closed 0 fd, Note ''DONE''], l1, w3)"
    and s3: "sane V w3" "uses V w3 = uses V w" "box V w3 = box V w2" "delayed V w3 = delayed V w2" by blast
  have "run (pos p) nap exceed_messages_main l w = Done (
      [Note ''EXECUTING'', Opened 0 fd, Writing E_MSG_TO_WRITE] @ map (\<lambda>i. Written (bytes_of (from_userspace i))) [0..<E_MSG_TO_WRITE]
      @ [Closed 0 fd, Note ''DONE''], l1, w3)"
    unfolding r1 r2 r3 by simp
  with s3 s2 show ?thesis by auto
qed

text \<open>\<open>readwrite_delay\<close>: the delay is overwritten with -1, which the library refuses; nothing is ever written.\<close>

lemma readwrite_delay_run:
  assumes "sane V w" and "lib_max_message_size l = 0 \<or> lib_max_message_size l = size_of V w"
  shows "\<exists>fd l' w'. run (pos p) nap readwrite_delay_main l w =
      Done ([Note ''EXECUTING'', Opened 0 fd, Delay_err (-1), Closed 0 fd, Note ''DONE''], l', w')
    \<and> sane V w' \<and> uses V w' = uses V w \<and> box V w' = box V w \<and> delayed V w' = delayed V w"
proof -
  note run.simps [simp del]
  let ?cl = "\<lambda>fd. closing 0 fd ends"
  define K where "K fd ret = (if ret < 0 then Say (Delay_err (-1)) (?cl fd)
     else Say (Delay_set (-1)) (Say (Writing MSG_TO_WRITE)
       (send_loop fd from_userspace [0..<MSG_TO_WRITE] zeros
         (\<lambda>_. Pause 2 (Say (Reading (int MSG_TO_READ)) (read_loop fd [0..<MSG_TO_READ] zeros (\<lambda>_. ?cl fd) (\<lambda>_. ?cl fd))))
         (\<lambda>_. ?cl fd))))" for fd and ret :: int
  have main: "readwrite_delay_main = begins (open_or 0 ends (\<lambda>fd. Set_delay fd (-1) (K fd)))"
    by (simp add: readwrite_delay_main_def K_def [abs_def])
  from run_open_or [OF assms, of p 0 ends "\<lambda>fd. Set_delay fd (-1) (K fd)"]
  obtain fd l1 w1 where r1: "run (pos p) nap readwrite_delay_main l w = after [Note ''EXECUTING'', Opened 0 fd] (run (pos p) nap (Set_delay fd (-1) (K fd)) l1 w1)"
    and new: "\<forall>c. \<not> uses V w p fd c" "0 \<le> fd"
    and u1: "\<forall>q fd' c. uses V w1 q fd' c \<longleftrightarrow> uses V w q fd' c \<or> (q, fd', c) = (p, fd, 0)"
    and s1: "box V w1 = box V w" "delayed V w1 = delayed V w"
    by (auto simp: main begins_def run.simps(3))
  have r2: "run (pos p) nap (Set_delay fd (-1) (K fd)) l1 w1 = after [Delay_err (-1)] (run (pos p) nap (?cl fd) (l1\<lparr>errno := - EINVAL\<rparr>) w1)"
    using new(2) by (simp add: set_send_delay_def run.simps K_def)
  have use1: "uses V w1 p fd 0" using u1 by simp
  from run_closing_ends [OF use1 new(1) u1, of "l1\<lparr>errno := - EINVAL\<rparr>"] obtain w2 where
    r3: "run (pos p) nap (?cl fd) (l1\<lparr>errno := - EINVAL\<rparr>) w1 = Done ([Closed 0 fd, Note ''DONE''], l1\<lparr>errno := - EINVAL\<rparr>, w2)"
    and s2: "sane V w2" "uses V w2 = uses V w" "box V w2 = box V w1" "delayed V w2 = delayed V w1" by blast
  have "run (pos p) nap readwrite_delay_main l w =
      Done ([Note ''EXECUTING'', Opened 0 fd, Delay_err (-1), Closed 0 fd, Note ''DONE''], l1\<lparr>errno := - EINVAL\<rparr>, w2)"
    unfolding r1 r2 r3 by simp
  with s2 s1 show ?thesis by auto
qed

text \<open>
  \<open>revoke\<close>: with a delay the messages are not there at first; after the revocation all of them
  are, in the order they were written. The buffer still holds the last text from the writes when
  it is read into.
\<close>

lemma got_over_text:
  assumes "\<forall>i \<in> set is. nul_free (txt i) \<and> length (txt i) = n" and "min n k < length buf" and "set (drop n buf) \<subseteq> {0}"
    and "n \<le> k"
  shows "got_lines buf (map (\<lambda>i. payload k (txt i)) is) = map (\<lambda>i. Got (int n) (bytes_of (txt i))) is"
proof -
  have "payload k (txt i) = bytes_of (txt i)" if "i \<in> set is" for i
    using assms(1,4) that by (simp add: payload_def)
  moreover have "got_lines buf (map (\<lambda>i. payload k (txt i)) is) = map (\<lambda>i. Got (int (min n k)) (payload k (txt i))) is"
    using assms by (intro got_texts) (simp_all add: min_def)
  ultimately show ?thesis using assms(4) by (auto simp: min_def)
qed

end

context group_client
begin

lemma revoke_reads_run:
  assumes "uses V w p fd 0" and "box V w 0 = \<lparr>avail = [], held = ms\<rparr>" and "length ms < MSG_TO_READ"
    and "list_all (\<lambda>m. 0 < length m \<and> length m \<le> MESSAGE_SIZE) ms" and "length msg = MESSAGE_SIZE"
  shows "\<exists>w'. run (pos p) nap (revoke_reads fd msg) l w
      = after ([Reading 6, No_more, Note ''Delayed messages revoked'', Reading 6] @ got_lines msg ms @ [No_more])
          (run (pos p) nap (closing 0 fd ends) l w')
    \<and> uses V w' = uses V w \<and> delayed V w' = delayed V w \<and> box V w' = (box V w)(0 := empty_box)"
proof -
  note run.simps [simp del] upt_conv_Cons [simp del]
  let ?cl = "\<lambda>_. closing 0 fd ends"
  let ?rd2 = "\<lambda>msg. Say (Reading (int MSG_TO_READ)) (read_loop fd [0..<MSG_TO_READ] msg ?cl ?cl)"
  let ?rv = "\<lambda>msg. Revoke fd (\<lambda>_. Say (Note ''Delayed messages revoked'') (?rd2 msg))"
  have same: "(box V w)(0 := \<lparr>avail = [], held = ms\<rparr>) = box V w" using assms(2) by auto
  from run_reads [OF assms(1) _ assms(5), of "int MSG_TO_READ" "[0..<MSG_TO_READ]" "\<lambda>msg. Pause 0 (?rv msg)" ?cl l]
  obtain w1 where r1: "run (pos p) nap (revoke_reads fd msg) l w
      = after [Reading 6, No_more] (run (pos p) nap (Pause 0 (?rv msg)) l w1)"
    and s1: "uses V w1 = uses V w" "delayed V w1 = delayed V w" "box V w1 = box V w"
    by (auto simp: assms(2) same revoke_reads_def MSG_TO_READ_def MSG_TO_WRITE_def)
  have r2: "run (pos p) nap (Pause 0 (?rv msg)) l w1 = run (pos p) nap (?rv msg) l w1"
    by (simp add: run.simps nap_0)
  have use1: "uses V w1 p fd 0" using assms(1) by (simp add: s1)
  from run_revoke [OF use1, of "\<lambda>_. Say (Note ''Delayed messages revoked'') (?rd2 msg)" l] obtain w2 where
    r3: "run (pos p) nap (?rv msg) l w1 = after [Note ''Delayed messages revoked''] (run (pos p) nap (?rd2 msg) l w2)"
    and a2: "acts V 0 [Flush] w1 w2" by (auto simp: run.simps(3))
  have s2: "uses V w2 = uses V w" "delayed V w2 = delayed V w" "box V w2 = (box V w)(0 := \<lparr>avail = ms, held = []\<rparr>)"
    using a2 s1 assms(2) by (simp_all add: acts_def)
  have use2: "uses V w2 p fd 0" using assms(1) by (simp add: s2)
  have "list_all (\<lambda>m. 0 < length m \<and> length m \<le> MESSAGE_SIZE) (avail (box V w2 0))" using assms(4) by (simp add: s2)
  from run_reads [OF use2 this assms(5), of "int MSG_TO_READ" "[0..<MSG_TO_READ]" ?cl ?cl l] assms(3)
  obtain w3 where r4: "run (pos p) nap (?rd2 msg) l w2
      = after (Reading 6 # got_lines msg ms @ [No_more]) (run (pos p) nap (closing 0 fd ends) l w3)"
    and s3: "uses V w3 = uses V w" "delayed V w3 = delayed V w" "box V w3 = (box V w)(0 := empty_box)"
    by (auto simp: s2 MSG_TO_READ_def MSG_TO_WRITE_def)
  have "run (pos p) nap (revoke_reads fd msg) l w
      = after ([Reading 6, No_more, Note ''Delayed messages revoked'', Reading 6] @ got_lines msg ms @ [No_more])
          (run (pos p) nap (closing 0 fd ends) l w3)"
    unfolding r1 r2 r3 r4 by simp
  with s3 show ?thesis by blast
qed

lemma revoke_run:
  assumes "sane V w" and "lib_max_message_size l = 0 \<or> lib_max_message_size l = size_of V w"
    and "box V w 0 = empty_box" and "delays 5000" and "MSG_TO_WRITE \<le> cap V w"
    and "unat (size_of V w) < MESSAGE_SIZE" and "16 \<le> unat (size_of V w)"
  shows "\<exists>fd l' w'. run (pos p) nap revoke_main l w = Done (
      [Note ''EXECUTING'', Opened 0 fd, Writing 5] @ map (\<lambda>i. Written (bytes_of (from_userspace i))) [0..<5]
      @ [Reading 6, No_more, Note ''Delayed messages revoked'', Reading 6]
      @ map (\<lambda>i. Got 16 (bytes_of (from_userspace i))) [0..<5] @ [No_more, Closed 0 fd, Note ''DONE''], l', w')
    \<and> sane V w' \<and> uses V w' = uses V w \<and> box V w' = box V w \<and> delayed V w' = (delayed V w)(0 := True)"
proof -
  note run.simps [simp del] upt_conv_Cons [simp del]
  define k where "k = unat (size_of V w)"
  have k: "16 \<le> k" "k < MESSAGE_SIZE" using assms(6,7) by (simp_all add: k_def)
  let ?msgs = "map (\<lambda>i. payload k (from_userspace i)) [0..<5]" and ?buf = "written_buf from_userspace [0..<5] zeros"
  have msgs: "list_all (\<lambda>m. 0 < length m \<and> length m \<le> MESSAGE_SIZE) ?msgs" "length ?msgs < MSG_TO_READ"
    using k by (auto simp: list_all_iff payload_def bytes_of_def clean_texts MSG_TO_READ_def MSG_TO_WRITE_def)
  have "16 < MESSAGE_SIZE" by (simp add: MESSAGE_SIZE_def)
  then have buf: "length ?buf = MESSAGE_SIZE" "set (drop 16 ?buf) \<subseteq> {0}"
    using written_buf_length [of from_userspace zeros "[0..<5]"] written_buf_rest [of "[0..<5]" from_userspace 16 zeros]
    by (simp_all add: list_all_iff clean_texts length_greeting)
  let ?wr = "\<lambda>fd. Say (Writing MSG_TO_WRITE) (send_loop fd from_userspace [0..<MSG_TO_WRITE] zeros (revoke_reads fd) (\<lambda>_. closing 0 fd ends))"
  from run_open_or [OF assms(1,2), of p 0 ends "\<lambda>fd. Set_delay fd 5000 (\<lambda>_. ?wr fd)"]
  obtain fd l1 w0 where r0: "run (pos p) nap revoke_main l w
      = after [Note ''EXECUTING'', Opened 0 fd] (run (pos p) nap (Set_delay fd 5000 (\<lambda>_. ?wr fd)) l1 w0)"
    and l1: "lib_max_message_size l1 = size_of V w" and new: "\<forall>c. \<not> uses V w p fd c"
    and u0: "\<forall>q fd' c. uses V w0 q fd' c \<longleftrightarrow> uses V w q fd' c \<or> (q, fd', c) = (p, fd, 0)"
    and s0: "box V w0 = box V w" "delayed V w0 = delayed V w" "cap V w0 = cap V w" "size_of V w0 = size_of V w"
    by (auto simp: revoke_main_def begins_def run.simps(3))
  have use0: "uses V w0 p fd 0" using u0 by simp
  from run_set_delay [OF use0, of 5000 "\<lambda>_. ?wr fd" l1] obtain w1 where
    r1: "run (pos p) nap (Set_delay fd 5000 (\<lambda>_. ?wr fd)) l1 w0 = run (pos p) nap (?wr fd) l1 w1"
    and s1: "uses V w1 = uses V w0" "box V w1 = box V w" "delayed V w1 = (delayed V w)(0 := True)"
      "cap V w1 = cap V w" "size_of V w1 = size_of V w" using assms(4) s0 by auto
  have use1: "uses V w1 p fd 0" using use0 by (simp add: s1)
  have lim: "lib_max_message_size l1 = size_of V w1" "unat (size_of V w1) < MESSAGE_SIZE" "box V w1 0 = empty_box"
    using l1 assms(3,6) by (simp_all add: s1)
  have short: "\<forall>i \<in> set [0..<MSG_TO_WRITE]. length (from_userspace i) < MESSAGE_SIZE"
    by (simp add: clean_texts MSG_TO_WRITE_def)
  have five: "take (cap V w) [0..<MSG_TO_WRITE] = [0..<5]" using assms(5) by (simp add: MSG_TO_WRITE_def)
  from run_sends [OF use1 lim(1,2) _ short lim(3), of MSG_TO_WRITE "revoke_reads fd" "\<lambda>_. closing 0 fd ends"]
  obtain w2 where r2: "run (pos p) nap (?wr fd) l1 w1
      = after (Writing 5 # map (\<lambda>i. Written (bytes_of (from_userspace i))) [0..<5]) (run (pos p) nap (revoke_reads fd ?buf) l1 w2)"
    and s2: "uses V w2 = uses V w0" "delayed V w2 = delayed V w1" "box V w2 = (box V w)(0 := \<lparr>avail = [], held = ?msgs\<rparr>)"
    by (auto simp: clean_texts s1 five k_def) (auto simp: MSG_TO_WRITE_def)
  have use2: "uses V w2 p fd 0" and box2: "box V w2 0 = \<lparr>avail = [], held = ?msgs\<rparr>" using use0 by (simp_all add: s2)
  from revoke_reads_run [OF use2 box2 msgs(2,1) buf(1), of l1] obtain w3 where
    r3: "run (pos p) nap (revoke_reads fd ?buf) l1 w2
      = after ([Reading 6, No_more, Note ''Delayed messages revoked'', Reading 6] @ got_lines ?buf ?msgs @ [No_more])
          (run (pos p) nap (closing 0 fd ends) l1 w3)"
    and s3: "uses V w3 = uses V w0" "delayed V w3 = delayed V w1" "box V w3 = (box V w)(0 := empty_box)"
    by (auto simp: s2)
  have use3: "uses V w3 p fd 0" and u3: "\<forall>q fd' c. uses V w3 q fd' c \<longleftrightarrow> uses V w q fd' c \<or> (q, fd', c) = (p, fd, 0)"
    unfolding s3 using use0 u0 by blast+
  from run_closing_ends [OF use3 new u3, of l1] obtain w4 where
    r4: "run (pos p) nap (closing 0 fd ends) l1 w3 = Done ([Closed 0 fd, Note ''DONE''], l1, w4)"
    and s4: "sane V w4" "uses V w4 = uses V w" "box V w4 = box V w3" "delayed V w4 = delayed V w3" by blast
  have got: "got_lines ?buf ?msgs = map (\<lambda>i. Got 16 (bytes_of (from_userspace i))) [0..<5]"
    using got_over_text [of "[0..<5]" from_userspace 16 k ?buf] buf k
    by (simp add: clean_texts length_greeting MESSAGE_SIZE_def)
  have "run (pos p) nap revoke_main l w = Done (
      [Note ''EXECUTING'', Opened 0 fd, Writing 5] @ map (\<lambda>i. Written (bytes_of (from_userspace i))) [0..<5]
      @ [Reading 6, No_more, Note ''Delayed messages revoked'', Reading 6]
      @ map (\<lambda>i. Got 16 (bytes_of (from_userspace i))) [0..<5] @ [No_more, Closed 0 fd, Note ''DONE''], l1, w4)"
    unfolding r0 r1 r2 r3 r4 got by simp
  moreover have "box V w4 = box V w" using assms(3) by (auto simp: s4 s3)
  ultimately show ?thesis using s4 s3 s1 by auto
qed

end

section \<open>Programs with many groups\<close>

abbreviation opened_lines :: "(u8 \<times> int) list \<Rightarrow> line list" where
  "opened_lines fds \<equiv> map (\<lambda>(b, fd). Opened b fd) fds"

abbreviation closed_lines :: "(u8 \<times> int) list \<Rightarrow> line list" where
  "closed_lines fds \<equiv> map (\<lambda>(b, fd). Closed b fd) fds"

context group_client
begin

text \<open>Opening groups one after the other: all succeed, with different descriptors.\<close>

lemma open_groups_run:
  assumes "sane V w" and "lib_max_message_size l = 0 \<or> lib_max_message_size l = size_of V w"
  shows "\<exists>new l' w'. run (pos p) nap (open_groups is fds ok fail) l w = after (opened_lines new) (run (pos p) nap (ok (fds @ new)) l' w')
    \<and> map fst new = map word_of_nat is \<and> distinct (map snd new) \<and> (\<forall>(b, fd) \<in> set new. \<forall>c. \<not> uses V w p fd c)
    \<and> sane V w' \<and> box V w' = box V w \<and> delayed V w' = delayed V w
    \<and> (\<forall>q fd c. uses V w' q fd c \<longleftrightarrow> uses V w q fd c \<or> (q = p \<and> (c, fd) \<in> set new))"
  using assms
proof (induction "is" arbitrary: w l fds)
  case Nil
  show ?case by (intro exI [of _ "[]"] exI [of _ l] exI [of _ w]) (simp add: Nil after_def)
next
  case (Cons i "is")
  let ?b = "word_of_nat i :: u8"
  from run_open_or [OF Cons.prems, of p ?b "fail fds" "\<lambda>fd. open_groups is (fds @ [(?b, fd)]) ok fail"]
  obtain fd l1 w1 where r1: "run (pos p) nap (open_groups (i # is) fds ok fail) l w
      = after [Opened ?b fd] (run (pos p) nap (open_groups is (fds @ [(?b, fd)]) ok fail) l1 w1)"
    and l1: "lib_max_message_size l1 = size_of V w1" and free: "\<forall>c. \<not> uses V w p fd c" and s1: "sane V w1"
    and u1: "\<forall>q fd' c. uses V w1 q fd' c \<longleftrightarrow> uses V w q fd' c \<or> (q, fd', c) = (p, fd, ?b)"
    and b1: "box V w1 = box V w" "delayed V w1 = delayed V w" by auto
  from Cons.IH [OF s1, of l1 "fds @ [(?b, fd)]"] l1 obtain new l2 w2 where
    r2: "run (pos p) nap (open_groups is (fds @ [(?b, fd)]) ok fail) l1 w1
      = after (opened_lines new) (run (pos p) nap (ok ((fds @ [(?b, fd)]) @ new)) l2 w2)"
    and n2: "map fst new = map word_of_nat is" "distinct (map snd new)" "\<forall>(b, fd) \<in> set new. \<forall>c. \<not> uses V w1 p fd c"
    and s2: "sane V w2" "box V w2 = box V w1" "delayed V w2 = delayed V w1"
    and u2: "\<forall>q fd c. uses V w2 q fd c \<longleftrightarrow> uses V w1 q fd c \<or> (q = p \<and> (c, fd) \<in> set new)" by blast
  have "fd \<notin> snd ` set new" using n2(3) u1 by fastforce
  with n2 u1 have "distinct (map snd ((?b, fd) # new))" "\<forall>(b, fd) \<in> set ((?b, fd) # new). \<forall>c. \<not> uses V w p fd c"
    using free by auto
  moreover have "run (pos p) nap (open_groups (i # is) fds ok fail) l w
      = after (opened_lines ((?b, fd) # new)) (run (pos p) nap (ok (fds @ (?b, fd) # new)) l2 w2)"
    unfolding r1 r2 by simp
  moreover have "\<forall>q fd' c. uses V w2 q fd' c \<longleftrightarrow> uses V w q fd' c \<or> (q = p \<and> (c, fd') \<in> set ((?b, fd) # new))"
    using u1 u2 by auto
  moreover have "map fst ((?b, fd) # new) = map word_of_nat (i # is)" using n2(1) by simp
  ultimately show ?case using s2 b1
    by (intro exI [of _ "(?b, fd) # new"] exI [of _ l2] exI [of _ w2]) simp
qed

lemma close_groups_run:
  assumes "\<forall>(b, fd) \<in> set fds. uses V w p fd b" and "distinct (map snd fds)"
  shows "\<exists>w'. run (pos p) nap (close_groups fds q) l w = after (closed_lines fds) (run (pos p) nap q l w')
    \<and> (sane V w \<longrightarrow> sane V w') \<and> box V w' = box V w \<and> delayed V w' = delayed V w
    \<and> (\<forall>u fd c. uses V w' u fd c \<longleftrightarrow> uses V w u fd c \<and> (u \<noteq> p \<or> fd \<notin> snd ` set fds))"
  using assms
proof (induction fds arbitrary: w)
  case Nil
  show ?case by (intro exI [of _ w]) (simp add: after_def)
next
  case (Cons x fds)
  obtain b fd where x: "x = (b, fd)" by (cases x)
  with Cons.prems have use: "uses V w p fd b" by simp
  from run_closing [OF use, of "close_groups fds q" l] obtain w1 where
    r1: "run (pos p) nap (closing b fd (close_groups fds q)) l w = after [Closed b fd] (run (pos p) nap (close_groups fds q) l w1)"
    and s1: "sane V w1" "box V w1 = box V w" "delayed V w1 = delayed V w"
    and u1: "\<forall>q fd' c. uses V w1 q fd' c \<longleftrightarrow> uses V w q fd' c \<and> (q, fd') \<noteq> (p, fd)" by blast
  have "\<forall>(b', fd') \<in> set fds. uses V w1 p fd' b'"
  proof clarify
    fix b' fd'
    assume m: "(b', fd') \<in> set fds"
    then have "fd' \<in> snd ` set fds" by force
    with Cons.prems(2) have "fd' \<noteq> fd" by (auto simp: x)
    moreover from m Cons.prems(1) have "uses V w p fd' b'" by auto
    ultimately show "uses V w1 p fd' b'" using u1 by simp
  qed
  from Cons.IH [OF this] Cons.prems(2) obtain w2 where
    r2: "run (pos p) nap (close_groups fds q) l w1 = after (closed_lines fds) (run (pos p) nap q l w2)"
    and s2: "sane V w1 \<longrightarrow> sane V w2" "box V w2 = box V w1" "delayed V w2 = delayed V w1"
    and u2: "\<forall>u fd c. uses V w2 u fd c \<longleftrightarrow> uses V w1 u fd c \<and> (u \<noteq> p \<or> fd \<notin> snd ` set fds)" by auto
  have "run (pos p) nap (close_groups (x # fds) q) l w = after (closed_lines (x # fds)) (run (pos p) nap q l w2)"
    using r1 r2 by (simp add: x)
  moreover have "\<forall>u fd' c. uses V w2 u fd' c \<longleftrightarrow> uses V w u fd' c \<and> (u \<noteq> p \<or> fd' \<notin> snd ` set (x # fds))"
    unfolding x using u1 u2 by (simp, blast)
  ultimately show ?case using s1 s2 by (intro exI [of _ w2]) simp
qed

text \<open>A program that opens groups, may wait for a key, and closes them again.\<close>

lemma open_close_run:
  assumes "sane V w" and "lib_max_message_size l = 0 \<or> lib_max_message_size l = size_of V w"
    and "\<And>q l w. run (pos p) nap (wait q) l w = run (pos p) nap q l w"
  shows "\<exists>fds l' w'. run (pos p) nap (begins (open_groups is [] (\<lambda>fds. wait (close_groups fds ends)) fail)) l w =
      Done (Note ''EXECUTING'' # opened_lines fds @ closed_lines fds @ [Note ''DONE''], l', w')
    \<and> map fst fds = map word_of_nat is \<and> distinct (map snd fds)
    \<and> sane V w' \<and> uses V w' = uses V w \<and> box V w' = box V w \<and> delayed V w' = delayed V w"
proof -
  from open_groups_run [OF assms(1,2), of p "is" "[]" "\<lambda>fds. wait (close_groups fds ends)" fail]
  obtain fds l1 w1 where
    r1: "run (pos p) nap (open_groups is [] (\<lambda>fds. wait (close_groups fds ends)) fail) l w
      = after (opened_lines fds) (run (pos p) nap (close_groups fds ends) l1 w1)"
    and n1: "map fst fds = map word_of_nat is" "distinct (map snd fds)" "\<forall>(b, fd) \<in> set fds. \<forall>c. \<not> uses V w p fd c"
    and s1: "sane V w1" "box V w1 = box V w" "delayed V w1 = delayed V w"
    and u1: "\<forall>q fd c. uses V w1 q fd c \<longleftrightarrow> uses V w q fd c \<or> (q = p \<and> (c, fd) \<in> set fds)" by (auto simp: assms(3))
  have "\<forall>(b, fd) \<in> set fds. uses V w1 p fd b" using u1 by auto
  from close_groups_run [OF this n1(2), of ends l1] obtain w2 where
    r2: "run (pos p) nap (close_groups fds ends) l1 w1 = after (closed_lines fds) (run (pos p) nap ends l1 w2)"
    and s2: "sane V w1 \<longrightarrow> sane V w2" "box V w2 = box V w1" "delayed V w2 = delayed V w1"
    and u2: "\<forall>u fd c. uses V w2 u fd c \<longleftrightarrow> uses V w1 u fd c \<and> (u \<noteq> p \<or> fd \<notin> snd ` set fds)" by blast
  have "uses V w2 u fd c \<longleftrightarrow> uses V w u fd c" for u fd c
    using u1 u2 n1(3) by (auto simp: image_iff)
  then have "uses V w2 = uses V w" by (intro ext) simp
  moreover have "run (pos p) nap (begins (open_groups is [] (\<lambda>fds. wait (close_groups fds ends)) fail)) l w =
      Done (Note ''EXECUTING'' # opened_lines fds @ closed_lines fds @ [Note ''DONE''], l1, w2)"
    unfolding begins_def run.simps(3) r1 r2 by (simp add: ends_def)
  ultimately show ?thesis using n1 s1 s2 by auto
qed

text \<open>\<open>exceed_groups\<close>: opening never fails, because the descriptors wrap around after 256.\<close>

lemma exceed_groups_run:
  assumes "sane V w" and "lib_max_message_size l = 0 \<or> lib_max_message_size l = size_of V w"
  shows "\<exists>fds l' w'. run (pos p) nap exceed_groups_main l w =
      Done (Note ''EXECUTING'' # opened_lines fds @ closed_lines fds @ [Note ''DONE''], l', w')
    \<and> map fst fds = map word_of_nat [0..<GROUPS_TO_EXCEED] \<and> distinct (map snd fds)
    \<and> sane V w' \<and> uses V w' = uses V w \<and> box V w' = box V w \<and> delayed V w' = delayed V w"
  using open_close_run [OF assms, of p "\<lambda>q. q"] unfolding exceed_groups_main_def by simp

lemma multigroup_run:
  assumes "sane V w" and "lib_max_message_size l = 0 \<or> lib_max_message_size l = size_of V w"
  shows "\<exists>fds l' w'. run (pos p) nap multigroup_main l w =
      Done (Note ''EXECUTING'' # opened_lines fds @ closed_lines fds @ [Note ''DONE''], l', w')
    \<and> map fst fds = map word_of_nat [0..<MULTIGROUP_TO_INSTALL] \<and> distinct (map snd fds)
    \<and> sane V w' \<and> uses V w' = uses V w \<and> box V w' = box V w \<and> delayed V w' = delayed V w"
  using open_close_run [OF assms, of p Key] unfolding multigroup_main_def by simp

text \<open>\<open>install\<close> and \<open>doubleopen\<close>: the second opening gives another descriptor of the same group.\<close>

lemma install_run:
  assumes "sane V w" and "lib_max_message_size l = 0 \<or> lib_max_message_size l = size_of V w"
  shows "\<exists>fd l' w'. run (pos p) nap install_main l w = Done ([Note ''EXECUTING'', Opened 0 fd, Closed 0 fd, Note ''DONE''], l', w')
    \<and> sane V w' \<and> uses V w' = uses V w \<and> box V w' = box V w \<and> delayed V w' = delayed V w"
proof -
  from run_open_or [OF assms, of p 0 ends "\<lambda>fd. Key (closing 0 fd ends)"] obtain fd l1 w1 where
    r1: "run (pos p) nap (open_or 0 ends (\<lambda>fd. Key (closing 0 fd ends))) l w = after [Opened 0 fd] (run (pos p) nap (closing 0 fd ends) l1 w1)"
    and new: "\<forall>c. \<not> uses V w p fd c" and u1: "\<forall>q fd' c. uses V w1 q fd' c \<longleftrightarrow> uses V w q fd' c \<or> (q, fd', c) = (p, fd, 0)"
    and s1: "box V w1 = box V w" "delayed V w1 = delayed V w" by (auto simp: run.simps(13))
  from u1 have use1: "uses V w1 p fd 0" by simp
  from run_closing_ends [OF use1 new u1, of l1] obtain w2 where
    "run (pos p) nap (closing 0 fd ends) l1 w1 = Done ([Closed 0 fd, Note ''DONE''], l1, w2)"
    and s2: "sane V w2" "uses V w2 = uses V w" "box V w2 = box V w1" "delayed V w2 = delayed V w1" by blast
  then have "run (pos p) nap install_main l w = Done ([Note ''EXECUTING'', Opened 0 fd, Closed 0 fd, Note ''DONE''], l1, w2)"
    unfolding install_main_def begins_def run.simps(3) r1 by simp
  with s1 s2 show ?thesis by auto
qed

lemma doubleopen_run:
  assumes "sane V w" and "lib_max_message_size l = 0 \<or> lib_max_message_size l = size_of V w"
  shows "\<exists>fd1 fd2 l' w'. run (pos p) nap doubleopen_main l w = Done ([Note ''EXECUTING'', Opened 0 fd1, Opened 0 fd2,
      Closed 0 fd2, Closed 0 fd1, Note ''DONE''], l', w') \<and> fd1 \<noteq> fd2
    \<and> sane V w' \<and> uses V w' = uses V w \<and> box V w' = box V w \<and> delayed V w' = delayed V w"
proof -
  let ?k = "\<lambda>fd1 fd2. Key (closing 0 fd2 (closing 0 fd1 ends))"
  let ?main = "\<lambda>fd1. open_or 0 (closing 0 fd1 ends) (?k fd1)"
  from run_open_or [OF assms, of p 0 ends ?main] obtain fd1 l1 w1 where
    r1: "run (pos p) nap (open_or 0 ends ?main) l w = after [Opened 0 fd1] (run (pos p) nap (?main fd1) l1 w1)"
    and l1: "lib_max_message_size l1 = size_of V w1" and new1: "\<forall>c. \<not> uses V w p fd1 c" and sane1: "sane V w1"
    and u1: "\<forall>q fd' c. uses V w1 q fd' c \<longleftrightarrow> uses V w q fd' c \<or> (q, fd', c) = (p, fd1, 0)"
    and s1: "box V w1 = box V w" "delayed V w1 = delayed V w" by auto
  from run_open_or [OF sane1, of l1 p 0 "closing 0 fd1 ends" "?k fd1"] l1 obtain fd2 l2 w2 where
    r2: "run (pos p) nap (?main fd1) l1 w1 = after [Opened 0 fd2] (run (pos p) nap (closing 0 fd2 (closing 0 fd1 ends)) l2 w2)"
    and new2: "\<forall>c. \<not> uses V w1 p fd2 c" and u2: "\<forall>q fd' c. uses V w2 q fd' c \<longleftrightarrow> uses V w1 q fd' c \<or> (q, fd', c) = (p, fd2, 0)"
    and s2: "box V w2 = box V w1" "delayed V w2 = delayed V w1" by (auto simp: run.simps(13))
  from u2 have use2: "uses V w2 p fd2 0" by simp
  from run_closing [OF use2, of "closing 0 fd1 ends" l2] obtain w3 where
    r3: "run (pos p) nap (closing 0 fd2 (closing 0 fd1 ends)) l2 w2 = after [Closed 0 fd2] (run (pos p) nap (closing 0 fd1 ends) l2 w3)"
    and u3: "\<forall>q fd' c. uses V w3 q fd' c \<longleftrightarrow> uses V w2 q fd' c \<and> (q, fd') \<noteq> (p, fd2)"
    and s3: "box V w3 = box V w2" "delayed V w3 = delayed V w2" by blast
  from u1 new2 have diff: "fd1 \<noteq> fd2" by auto
  have same: "\<forall>q fd' c. uses V w3 q fd' c \<longleftrightarrow> uses V w q fd' c \<or> (q, fd', c) = (p, fd1, 0)"
    using u1 u2 u3 new2 by auto
  then have use3: "uses V w3 p fd1 0" by simp
  from run_closing_ends [OF use3 new1 same, of l2] obtain w4 where
    r4: "run (pos p) nap (closing 0 fd1 ends) l2 w3 = Done ([Closed 0 fd1, Note ''DONE''], l2, w4)"
    and s4: "sane V w4" "uses V w4 = uses V w" "box V w4 = box V w3" "delayed V w4 = delayed V w3" by blast
  have "run (pos p) nap doubleopen_main l w = Done ([Note ''EXECUTING'', Opened 0 fd1, Opened 0 fd2,
      Closed 0 fd2, Closed 0 fd1, Note ''DONE''], l2, w4)"
    unfolding doubleopen_main_def begins_def run.simps(3) r1 r2 r3 r4 by simp
  with diff s1 s2 s3 s4 show ?thesis by auto
qed

end

end
