(* ===== verification/Module_Client.thy ===== *)
theory Module_Client
  imports Program_Laws Lib_Module
begin

text \<open>
  The module with several processes, each with its own table of open files, keeps the laws of
  \<open>group_client\<close>: the interpretation that turns the correctness of a program on any lawful
  system into its correctness on the module.
\<close>

section \<open>Processes on the module\<close>

record system =
  kern :: tsm
  tables :: "nat \<Rightarrow> ofile list \<times> nat list"

definition world_of :: "system \<Rightarrow> nat \<Rightarrow> world" where
  "world_of s p = \<lparr>kmod = kern s, files = fst (tables s p), closed = snd (tables s p)\<rparr>"

definition put_world :: "nat \<Rightarrow> world \<Rightarrow> system \<Rightarrow> system" where
  "put_world p w s = s\<lparr>kern := kmod w, tables := (tables s)(p := (files w, closed w))\<rparr>"

definition proc_os :: "('x) tsm_env_scheme \<Rightarrow> nat \<Rightarrow> system os" where
  "proc_os env p = \<lparr>
     os_open = (\<lambda>name s. obind (sys_open name (world_of s p)) (\<lambda>(fd, w). Done (fd, put_world p w s))),
     os_close = (\<lambda>fd s. obind (sys_close env fd (world_of s p)) (\<lambda>w. Done (put_world p w s))),
     os_ioctl = (\<lambda>fd cmd arg s. obind (sys_ioctl env fd cmd arg (world_of s p)) (\<lambda>(r, arg, w). Done (r, arg, put_world p w s))),
     os_write = (\<lambda>fd buf n s. obind (sys_write env fd buf n (world_of s p)) (\<lambda>(r, w). Done (r, put_world p w s))),
     os_read = (\<lambda>fd buf n s. obind (sys_read env fd buf n (world_of s p)) (\<lambda>(r, buf, w). Done (r, buf, put_world p w s))),
     os_malloc = (\<lambda>_ _. True)\<rparr>"

text \<open>Timers that expire one after the other, by group and address of the work.\<close>

fun timers_go :: "('x) tsm_env_scheme \<Rightarrow> (u8 \<times> addr) list \<Rightarrow> tsm \<Rightarrow> tsm outcome" where
  "timers_go env [] t = Done t"
| "timers_go env ((b, a) # ts) t = obind (mod_exec env t (MDev b (EvTimer a))) (\<lambda>(_, t). timers_go env ts t)"

text \<open>
  \<open>sleep(n)\<close>: which timers expire meanwhile is up to the kernel (\<open>due\<close>). \<open>sleep(0)\<close> returns at once.
\<close>

definition passing :: "('x) tsm_env_scheme \<Rightarrow> (nat \<Rightarrow> system \<Rightarrow> (u8 \<times> addr) list) \<Rightarrow> nat \<Rightarrow> system \<Rightarrow> system outcome" where
  "passing env due n s = (if n = 0 then Done s else obind (timers_go env (due n s) (kern s)) (\<lambda>t. Done (s\<lparr>kern := t\<rparr>)))"

lemma world_of_simps [simp]:
  "world_of (put_world p w s) p = w" "put_world p w (put_world p w' s) = put_world p w s"
  "kern (put_world p w s) = kmod w" "tables (put_world p w s) = (tables s)(p := (files w, closed w))"
  "kmod (world_of s p) = kern s" "files (world_of s p) = fst (tables s p)" "closed (world_of s p) = snd (tables s p)"
  by (simp_all add: world_of_def put_world_def)

lemma proc_os_simps [simp]:
  "os_open (proc_os env p) name s = obind (sys_open name (world_of s p)) (\<lambda>(fd, w). Done (fd, put_world p w s))"
  "os_close (proc_os env p) fd s = obind (sys_close env fd (world_of s p)) (\<lambda>w. Done (put_world p w s))"
  "os_ioctl (proc_os env p) fd cmd arg s = obind (sys_ioctl env fd cmd arg (world_of s p)) (\<lambda>(r, arg, w). Done (r, arg, put_world p w s))"
  "os_write (proc_os env p) fd buf n s = obind (sys_write env fd buf n (world_of s p)) (\<lambda>(r, w). Done (r, put_world p w s))"
  "os_read (proc_os env p) fd buf n s = obind (sys_read env fd buf n (world_of s p)) (\<lambda>(r, buf, w). Done (r, buf, put_world p w s))"
  "os_malloc (proc_os env p) n s"
  by (simp_all add: proc_os_def)

text \<open>The library works on the files of its process.\<close>

lemma obind_cong: "(\<And>x. f x = g x) \<Longrightarrow> obind m f = obind m g"
  by (cases m) auto

lemma await_device_proc:
  "await_device (proc_os env p) name n s
    = obind (await_device (mod_os env) name n (world_of s p)) (\<lambda>(fd, w). Done (fd, put_world p w s))"
proof (induction n arbitrary: s)
  case 0
  have "put_world p (world_of s p) s = s" by (simp add: world_of_def put_world_def)
  then show ?case by simp
next
  case (Suc n)
  show ?case by (auto simp: obind_assoc Suc intro!: obind_cong)
qed

lemma open_group_proc:
  "open_group (proc_os env p) d l s
    = obind (open_group (mod_os env) d l (world_of s p)) (\<lambda>(fd, l, w). Done (fd, l, put_world p w s))"
proof (cases d)
  case None
  have "put_world p (world_of s p) s = s" by (simp add: world_of_def put_world_def)
  with None show ?thesis by (simp add: open_group_def)
next
  case (Some b)
  then show ?thesis
    by (auto simp: open_group_def obind_assoc await_device_proc intro!: obind_cong)
qed

section \<open>What a client sees of the module\<close>

definition env_good :: "('x) tsm_env_scheme \<Rightarrow> bool" where
  "env_good env \<longleftrightarrow> kernel_docs env \<and> (\<forall>k. alloc_ok env k) \<and> (\<forall>n. 0 < n \<longrightarrow> n < usable_size env n)
     \<and> (\<forall>k. 0 \<le> fst (chrdev_region env k)) \<and> (\<forall>k. 0 \<le> stack_garbage env k)"

definition sys_sane :: "('x) tsm_env_scheme \<Rightarrow> system \<Rightarrow> bool" where
  "sys_sane env s \<longleftrightarrow> env_good env \<and> mgr_ok (tsm_mgr (kern s)) \<and> 0 < max_message_size (tsm_params (kern s))
     \<and> (\<forall>p. files_ok (world_of s p))
     \<and> (\<forall>p fd b. fd_file fd (world_of s p) = Some (Group_file b) \<longrightarrow> lookup_dev (devs_of (tsm_mgr (kern s))) b \<noteq> None)"

definition late_in :: "tsm \<Rightarrow> u8 \<Rightarrow> bool" where
  "late_in t b = (case lookup_dev (devs_of (tsm_mgr t)) b of None \<Rightarrow> False | Some d \<Rightarrow> delay d \<noteq> 0)"

definition mod_view :: "('x) tsm_env_scheme \<Rightarrow> system view" where
  "mod_view env = \<lparr>sane = sys_sane env,
     uses = (\<lambda>s p fd b. sys_sane env s \<and> fd_file fd (world_of s p) = Some (Group_file b)),
     box = (\<lambda>s b. box_of b (kern s)), delayed = (\<lambda>s b. late_in (kern s) b),
     cap = (\<lambda>s. unat (max_storage_size (tsm_params (kern s)))), size_of = (\<lambda>s. max_message_size (tsm_params (kern s)))\<rparr>"

lemma mod_view_simps [simp]:
  "sane (mod_view env) s = sys_sane env s"
  "uses (mod_view env) s p fd b \<longleftrightarrow> sys_sane env s \<and> fd_file fd (world_of s p) = Some (Group_file b)"
  "box (mod_view env) s b = box_of b (kern s)" "delayed (mod_view env) s b = late_in (kern s) b"
  "cap (mod_view env) s = unat (max_storage_size (tsm_params (kern s)))"
  "size_of (mod_view env) s = max_message_size (tsm_params (kern s))"
  by (simp_all add: mod_view_def)

lemma fd_file_kern [simp]: "fd_file fd (world_of (s\<lparr>kern := t\<rparr>) p) = fd_file fd (world_of s p)"
  by (simp add: fd_file_def world_of_def)

lemma files_ok_kern [simp]: "files_ok (world_of (s\<lparr>kern := t\<rparr>) p) = files_ok (world_of s p)"
  by (simp add: files_ok_def world_of_def)

lemma put_kern: "put_world p ((world_of s p)\<lparr>kmod := t\<rparr>) s = s\<lparr>kern := t\<rparr>"
  by (simp add: put_world_def world_of_def)

text \<open>One event on an installed group, as the clients see it.\<close>

lemma client_event:
  assumes sane: "sys_sane env s" and look: "lookup_dev (devs_of (tsm_mgr (kern s))) b = Some d"
    and run: "gd_exec env (dev_sys (kern s) d) e = Done (ob, g)" and par: "\<not> is_params e"
  defines "t \<equiv> (kern s)\<lparr>tsm_mgr := (put_dev (dev g) (tsm_mgr (kern s)))\<lparr>mheap := heap g\<rparr>\<rparr>"
  shows "on_group env b e (world_of s p) = Done (ADev ob, (world_of s p)\<lparr>kmod := t\<rparr>)"
    and "sys_sane env (s\<lparr>kern := t\<rparr>)" and "box (mod_view env) (s\<lparr>kern := t\<rparr>)
       = (box (mod_view env) s)(b := mb_step (box_of b (kern s)) (op_of (dev_sys (kern s) d) e ob))"
    and "delayed (mod_view env) (s\<lparr>kern := t\<rparr>) = (delayed (mod_view env) s)(b := delay (dev g) \<noteq> 0)"
    and "mod_exec env (kern s) (MDev b e) = Done (ADev ob, t)"
proof -
  from sane have ok: "mgr_ok (tsm_mgr (kern s))" and docs: "kernel_docs env" by (simp_all add: sys_sane_def env_good_def)
  have prm: "params g = tsm_params (kern s)" using exec_params [OF run par] by (simp add: dev_sys_def)
  have sys: "gsys_ok (dev_sys (kern s) d)" using device_mem_ok [OF ok look] by (simp add: gsys_ok_def dev_sys_def)
  note ev = device_event(1,2) [OF ok look sys run]
  show "on_group env b e (world_of s p) = Done (ADev ob, (world_of s p)\<lparr>kmod := t\<rparr>)"
    using on_group_device [of "world_of s p" b d env e ob g] look run prm by (simp add: t_def)
  have mgr: "tsm_mgr t = (put_dev (dev g) (tsm_mgr (kern s)))\<lparr>mheap := heap g\<rparr>" "tsm_params t = tsm_params (kern s)"
    by (simp_all add: t_def)
  have looks: "lookup_dev (devs_of (tsm_mgr t)) c = (if c = b then Some (dev g) else lookup_dev (devs_of (tsm_mgr (kern s))) c)" for c
    unfolding mgr by (rule ev(2))
  show "sys_sane env (s\<lparr>kern := t\<rparr>)" using sane ev(1) looks by (simp add: sys_sane_def mgr)
  show step: "mod_exec env (kern s) (MDev b e) = Done (ADev ob, t)"
    using look run prm by (simp add: mod_exec_def dev_sys_def t_def)
  show "box (mod_view env) (s\<lparr>kern := t\<rparr>)
      = (box (mod_view env) s)(b := mb_step (box_of b (kern s)) (op_of (dev_sys (kern s) d) e ob))"
    using mod_exec_box [OF docs ok step] look by (intro ext) (simp add: op_at_def)
  show "delayed (mod_view env) (s\<lparr>kern := t\<rparr>) = (delayed (mod_view env) s)(b := delay (dev g) \<noteq> 0)"
    by (intro ext) (simp add: late_in_def looks)
qed

lemma client_acts:
  assumes sane: "sys_sane env s" and look: "lookup_dev (devs_of (tsm_mgr (kern s))) b = Some d"
    and run: "gd_exec env (dev_sys (kern s) d) e = Done (ob, g)" and par: "\<not> is_params e" "\<not> is_set_delay e"
  shows "\<exists>t. on_group env b e (world_of s p) = Done (ADev ob, (world_of s p)\<lparr>kmod := t\<rparr>)
    \<and> acts (mod_view env) b [op_of (dev_sys (kern s) d) e ob] s (s\<lparr>kern := t\<rparr>)"
proof -
  let ?t = "(kern s)\<lparr>tsm_mgr := (put_dev (dev g) (tsm_mgr (kern s)))\<lparr>mheap := heap g\<rparr>\<rparr>"
  note ev = client_event [OF sane look run par(1)]
  from sane have "mgr_ok (tsm_mgr (kern s))" by (simp add: sys_sane_def)
  from device_mem_ok [OF this look] have "gsys_ok (dev_sys (kern s) d)" by (simp add: gsys_ok_def dev_sys_def)
  from gd_exec_delay [OF this run par(2)] have "delay (dev g) = delay d" by (simp add: dev_sys_def)
  then have "delayed (mod_view env) (s\<lparr>kern := ?t\<rparr>) = delayed (mod_view env) s"
    unfolding ev(4) using look by (intro ext) (simp add: late_in_def)
  moreover have "uses (mod_view env) (s\<lparr>kern := ?t\<rparr>) = uses (mod_view env) s"
    using sane ev(2) by (intro ext) simp
  ultimately have "acts (mod_view env) b [op_of (dev_sys (kern s) d) e ob] s (s\<lparr>kern := ?t\<rparr>)"
    unfolding acts_def ev(3) using ev(2) by simp
  with ev(1) show ?thesis by blast
qed

section \<open>The laws\<close>

lemma uses_group:
  assumes "uses (mod_view env) s p fd b"
  obtains d where "sys_sane env s" and "fd_file fd (world_of s p) = Some (Group_file b)"
    and "lookup_dev (devs_of (tsm_mgr (kern s))) b = Some d" and "dev_ok d" and "mem_ok (mheap (tsm_mgr (kern s))) d"
    and "box_of b (kern s) = gd_abs (dev_sys (kern s) d)" and "late_in (kern s) b \<longleftrightarrow> delay d \<noteq> 0"
proof -
  from assms have sane: "sys_sane env s" and fd: "fd_file fd (world_of s p) = Some (Group_file b)" by simp_all
  then obtain d where look: "lookup_dev (devs_of (tsm_mgr (kern s))) b = Some d" unfolding sys_sane_def by blast
  from sane have "mgr_ok (tsm_mgr (kern s))" by (simp add: sys_sane_def)
  from device_mem_ok(1,2) [OF this look] sane fd look show thesis
    by (intro that) (simp_all add: box_of_def late_in_def)
qed

text \<open>A write for which the kernel has memory is stored if there is room, and returns 0 otherwise.\<close>

lemma write_with_memory:
  assumes "dev_ok d" and "heap_ok h" and env: "\<forall>k. alloc_ok env k" "n < usable_size env n" and "0 < n"
    and wl: "write_len prm n = n" and buf: "n \<le> length buf"
  shows "\<exists>h' d'. group_write_dev env prm h d buf n
    = Done (if messages_number d < max_storage_size prm then int n else 0, h', d')"
proof (cases "messages_number d < max_storage_size prm")
  case True
  note m = msg_ok_new [OF buf env(2)]
  have acc: "\<exists>h' d'. write_accept env h2 d (new_msg env a c buf n) = Done (int n, h', d')" for h2 a c
    using write_accept_total [OF assms(1) m(1) [of a c] True, of env h2] m(4) [of a c] by simp
  have room: "\<not> max_storage_size prm \<le> messages_number d" using True by (simp add: linorder_not_le)
  have few: "\<not> length buf < n" "\<not> usable_size env n \<le> n" "n \<noteq> 0" using buf env(2) assms(5) by simp_all
  show ?thesis
    unfolding group_write_cases [OF assms(1,2)] wl kmalloc_def
    using env(1) few room True acc by simp
next
  case False
  then show ?thesis using assms(5) env(1)
    by (simp add: group_write_cases [OF assms(1,2)] kmalloc_def wl linorder_not_less)
qed

lemma mod_writes:
  assumes "uses (mod_view env) s p fd b" and "0 < n" and "n \<le> unat (size_of (mod_view env) s)" and "n \<le> length buf"
  shows "\<exists>s'. os_write (proc_os env p) fd buf n s
      = Done (if Client.stored (box (mod_view env) s b) < cap (mod_view env) s then int n else 0, s')
    \<and> acts (mod_view env) b [if Client.stored (box (mod_view env) s b) < cap (mod_view env) s
        then (if delayed (mod_view env) s b then Hold (take n buf) else Post (take n buf)) else Idle] s s'"
  using assms(1)
proof (rule uses_group)
  fix d
  let ?prm = "tsm_params (kern s)" and ?h = "mheap (tsm_mgr (kern s))" and ?sys = "dev_sys (kern s) d"
  let ?room = "messages_number d < max_storage_size ?prm"
  assume sane: "sys_sane env s" and fd: "fd_file fd (world_of s p) = Some (Group_file b)"
    and look: "lookup_dev (devs_of (tsm_mgr (kern s))) b = Some d" and ok: "dev_ok d" "mem_ok ?h d"
    and box: "box_of b (kern s) = gd_abs ?sys" and late: "late_in (kern s) b \<longleftrightarrow> delay d \<noteq> 0"
  from sane have env: "\<forall>k. alloc_ok env k" "\<forall>n. 0 < n \<longrightarrow> n < usable_size env n" by (simp_all add: sys_sane_def env_good_def)
  have wl: "write_len ?prm n = n" using assms(3) by (simp add: write_len_def)
  have room: "?room \<longleftrightarrow> Client.stored (box (mod_view env) s b) < cap (mod_view env) s"
    using ok(1) by (simp add: box dev_ok_def gd_abs_def dev_sys_def Client.stored_def word_less_nat_alt)
  have heap: "heap_ok ?h" using ok(2) by (simp add: mem_ok_def)
  have slack: "n < usable_size env n" using env(2) assms(2) by simp
  from write_with_memory [OF ok(1) heap env(1) slack assms(2) wl assms(4)] obtain h' d' where
    "group_write_dev env ?prm ?h d buf n = Done (if ?room then int n else 0, h', d')" by blast
  then have run: "gd_exec env ?sys (EvWrite buf n) = Done (AInt (if ?room then int n else 0), ?sys\<lparr>heap := h', dev := d'\<rparr>)"
    by (simp add: gd_exec_def dev_sys_def)
  have op: "op_of ?sys (EvWrite buf n) (AInt (if ?room then int n else 0))
      = (if ?room then (if late_in (kern s) b then Hold (take n buf) else Post (take n buf)) else Idle)"
    using assms(2) late by (simp add: op_of_def dev_sys_def)
  from client_acts [OF sane look run, of p] obtain t where
    on: "on_group env b (EvWrite buf n) (world_of s p)
        = Done (ADev (AInt (if ?room then int n else 0)), (world_of s p)\<lparr>kmod := t\<rparr>)"
    and act: "acts (mod_view env) b [if ?room then (if late_in (kern s) b then Hold (take n buf) else Post (take n buf)) else Idle]
        s (s\<lparr>kern := t\<rparr>)" unfolding op by auto
  have "os_write (proc_os env p) fd buf n s = Done (if ?room then int n else 0, s\<lparr>kern := t\<rparr>)"
    using fd on by (simp add: sys_write_def put_kern)
  with act show ?thesis unfolding room by auto
qed

lemma mod_reads:
  assumes "uses (mod_view env) s p fd b"
    and fit: "list_all (\<lambda>m. length m \<le> min len (length buf)) (avail (box (mod_view env) s b))"
  shows "\<exists>s'. os_read (proc_os env p) fd buf len s = Done (case avail (box (mod_view env) s b) of [] \<Rightarrow> (0, buf, s')
        | m # ms \<Rightarrow> (int (length m), m @ drop (length m) buf, s'))
    \<and> acts (mod_view env) b [Fetch] s s'"
  using assms(1)
proof (rule uses_group)
  fix d
  let ?h = "mheap (tsm_mgr (kern s))" and ?sys = "dev_sys (kern s) d"
  assume sane: "sys_sane env s" and fd: "fd_file fd (world_of s p) = Some (Group_file b)"
    and look: "lookup_dev (devs_of (tsm_mgr (kern s))) b = Some d" and ok: "dev_ok d" "mem_ok ?h d"
    and box: "box_of b (kern s) = gd_abs ?sys"
  have avail: "avail (box (mod_view env) s b) = map content (rev (msgs d))"
    by (simp add: box gd_abs_def dev_sys_def)
  obtain r out h' d' where rd: "group_read_dev ?h d buf len = Done (r, out, h', d')"
    and res: "(case avail (box (mod_view env) s b) of [] \<Rightarrow> (0, buf) | m # ms \<Rightarrow> (int (length m), m @ drop (length m) buf)) = (r, out)"
  proof (cases "msgs d = []")
    case True
    with that group_read_empty [OF ok(1) True, of ?h buf len] show thesis unfolding avail by simp
  next
    case False
    let ?m = "last (msgs d)"
    have first: "avail (box (mod_view env) s b) = content ?m # map content (rev (butlast (msgs d)))"
      unfolding avail by (rule map_content_last [OF False])
    have size: "length (content ?m) = data_size ?m" using last_msg_facts(1) [OF ok False] by (rule msg_ok_length)
    have le: "data_size ?m \<le> len" "data_size ?m \<le> length buf" using fit unfolding first by (simp_all add: size)
    then have "group_read_dev ?h d buf len
        = Done (int (data_size ?m), content ?m @ drop (data_size ?m) buf, ?h\<lparr>live := live ?h - set (msg_owned ?m)\<rparr>, taken d)"
      unfolding group_read_ok [OF ok False] by (simp add: size min_def)
    then show thesis by (rule that) (use first in \<open>simp add: size\<close>)
  qed
  let ?g = "?sys\<lparr>heap := h', dev := d'\<rparr>"
  from rd have run: "gd_exec env ?sys (EvRead buf len) = Done (ARead r out, ?g)" by (simp add: gd_exec_def dev_sys_def)
  have op: "op_of ?sys (EvRead buf len) (ARead r out) = Fetch" by (simp add: op_of_def)
  from client_acts [OF sane look run, of p] obtain t where
    on: "on_group env b (EvRead buf len) (world_of s p) = Done (ADev (ARead r out), (world_of s p)\<lparr>kmod := t\<rparr>)"
    and act: "acts (mod_view env) b [Fetch] s (s\<lparr>kern := t\<rparr>)" unfolding op by auto
  have "os_read (proc_os env p) fd buf len s = Done (r, out, s\<lparr>kern := t\<rparr>)"
    using fd on by (simp add: sys_read_def put_kern)
  with act res show ?thesis by (auto split: list.splits)
qed

text \<open>The ioctls that leave the delay alone.\<close>

lemma mod_ioctl:
  assumes "uses (mod_view env) s p fd b" and cmd: "cmd \<in> {IOCTL_REVOKE_DELAYED_MESSAGES, IOCTL_AWAKE_BARRIER}"
  shows "\<exists>s'. os_ioctl (proc_os env p) fd cmd No_arg s = Done (0, No_arg, s')
    \<and> acts (mod_view env) b [if cmd = IOCTL_REVOKE_DELAYED_MESSAGES then Flush else Idle] s s'"
  using assms(1)
proof (rule uses_group)
  fix d
  let ?h = "mheap (tsm_mgr (kern s))" and ?sys = "dev_sys (kern s) d"
  assume sane: "sys_sane env s" and fd: "fd_file fd (world_of s p) = Some (Group_file b)"
    and look: "lookup_dev (devs_of (tsm_mgr (kern s))) b = Some d" and ok: "dev_ok d" "mem_ok ?h d"
  have "\<exists>h' d'. group_ioctl_dev env ?h d 0 cmd 0 = Done (Returns 0, h', d')"
    using cmd by (auto simp: ioctl_revoke ioctl_awake fflush_workqueue_ok [OF ok])
  then obtain g where run: "gd_exec env ?sys (EvIoctl 0 cmd 0) = Done (ASys (Returns 0), g)"
    by (auto simp: gd_exec_def dev_sys_def)
  have op: "op_of ?sys (EvIoctl 0 cmd 0) (ASys (Returns 0)) = (if cmd = IOCTL_REVOKE_DELAYED_MESSAGES then Flush else Idle)"
    by (simp add: op_of_def)
  have other: "\<not> is_set_delay (EvIoctl 0 cmd 0)" using cmd ioctl_distinct by auto
  from client_acts [OF sane look run _ other, of p] obtain t where
    on: "on_group env b (EvIoctl 0 cmd 0) (world_of s p) = Done (ADev (ASys (Returns 0)), (world_of s p)\<lparr>kmod := t\<rparr>)"
    and act: "acts (mod_view env) b [if cmd = IOCTL_REVOKE_DELAYED_MESSAGES then Flush else Idle] s (s\<lparr>kern := t\<rparr>)"
    unfolding op by auto
  have "os_ioctl (proc_os env p) fd cmd No_arg s = Done (0, No_arg, s\<lparr>kern := t\<rparr>)"
    using fd on by (simp add: sys_ioctl_def put_kern)
  with act show ?thesis by blast
qed

lemma acts_Idle:
  assumes "acts V b [Idle] s s'"
  shows "sane V s'" and "uses V s' = uses V s" and "box V s' = box V s" and "delayed V s' = delayed V s"
    and "cap V s' = cap V s" and "size_of V s' = size_of V s"
  using assms by (simp_all add: acts_def)

lemma acts_timer:
  assumes "acts V b [x] s s'" and "x = Release \<or> x = Idle" and "held (box V s c) = []"
  shows "box V s' c = box V s c"
  using assms by (auto simp: acts_def)

lemma mod_sets_delay:
  assumes "uses (mod_view env) s p fd b" and ms: "0 \<le> sint ms"
  shows "\<exists>s'. os_ioctl (proc_os env p) fd IOCTL_SET_SEND_DELAY (Num ms) s = Done (0, Num ms, s')
    \<and> sys_sane env s' \<and> uses (mod_view env) s' = uses (mod_view env) s \<and> box (mod_view env) s' = box (mod_view env) s
    \<and> delayed (mod_view env) s' = (delayed (mod_view env) s)(b := msecs_to_jiffies env (ucast ms) \<noteq> 0)
    \<and> cap (mod_view env) s' = cap (mod_view env) s \<and> size_of (mod_view env) s' = size_of (mod_view env) s"
  using assms(1)
proof (rule uses_group)
  fix d
  let ?h = "mheap (tsm_mgr (kern s))" and ?sys = "dev_sys (kern s) d" and ?e = "EvIoctl 0 IOCTL_SET_SEND_DELAY ms"
  assume sane: "sys_sane env s" and fd: "fd_file fd (world_of s p) = Some (Group_file b)"
    and look: "lookup_dev (devs_of (tsm_mgr (kern s))) b = Some d"
  let ?g = "?sys\<lparr>dev := raw_set_delay env d ms\<rparr>"
  have run: "gd_exec env ?sys ?e = Done (ASys (Returns 0), ?g)"
    using ms by (simp add: gd_exec_def dev_sys_def ioctl_set_delay)
  have op: "op_of ?sys ?e (ASys (Returns 0)) = Idle" using ioctl_distinct by (simp add: op_of_def)
  let ?t = "(kern s)\<lparr>tsm_mgr := (put_dev (dev ?g) (tsm_mgr (kern s)))\<lparr>mheap := heap ?g\<rparr>\<rparr>"
  have "os_ioctl (proc_os env p) fd IOCTL_SET_SEND_DELAY (Num ms) s = Done (0, Num ms, s\<lparr>kern := ?t\<rparr>)"
    using fd client_event(1) [OF sane look run, of p] by (simp add: sys_ioctl_def put_kern)
  moreover have "sys_sane env (s\<lparr>kern := ?t\<rparr>)" using client_event(2) [OF sane look run] by simp
  moreover have "uses (mod_view env) (s\<lparr>kern := ?t\<rparr>) = uses (mod_view env) s"
    using sane client_event(2) [OF sane look run] by (intro ext) simp
  moreover have "box (mod_view env) (s\<lparr>kern := ?t\<rparr>) = box (mod_view env) s"
    using client_event(3) [OF sane look run] unfolding op by (auto simp: fun_eq_iff)
  moreover have "delayed (mod_view env) (s\<lparr>kern := ?t\<rparr>)
      = (delayed (mod_view env) s)(b := msecs_to_jiffies env (ucast ms) \<noteq> 0)"
    using client_event(4) [OF sane look run] by (simp add: raw_set_delay_def)
  ultimately show ?thesis by (intro exI [of _ "s\<lparr>kern := ?t\<rparr>"]) simp
qed

lemma fd_file_closed: "nat fd \<in> set (closed w) \<Longrightarrow> fd_file fd w = None"
  by (simp add: fd_file_def)

lemma world_put: "world_of (put_world p w s) q = (if q = p then w else (world_of s q)\<lparr>kmod := kmod w\<rparr>)"
  by (simp add: world_of_def put_world_def)

lemma fd_file_kmod [simp]: "fd_file fd (w\<lparr>kmod := t\<rparr>) = fd_file fd w"
  by (simp add: fd_file_def)

lemma mod_closes:
  assumes "uses (mod_view env) s p fd b"
  shows "\<exists>s'. os_close (proc_os env p) fd s = Done s' \<and> sys_sane env s'
    \<and> (\<forall>q fd' c. uses (mod_view env) s' q fd' c \<longleftrightarrow> uses (mod_view env) s q fd' c \<and> (q, fd') \<noteq> (p, fd))
    \<and> box (mod_view env) s' = box (mod_view env) s \<and> delayed (mod_view env) s' = delayed (mod_view env) s
    \<and> cap (mod_view env) s' = cap (mod_view env) s \<and> size_of (mod_view env) s' = size_of (mod_view env) s"
  using assms
proof (rule uses_group)
  fix d
  let ?sys = "dev_sys (kern s) d"
  assume sane: "sys_sane env s" and fd: "fd_file fd (world_of s p) = Some (Group_file b)"
    and look: "lookup_dev (devs_of (tsm_mgr (kern s))) b = Some d"
  have run: "gd_exec env ?sys EvFlush = Done (AInt 0, ?sys)" by (simp add: gd_exec_def group_flush_def dev_sys_def)
  from client_acts [OF sane look run, of p] obtain t where
    on: "on_group env b EvFlush (world_of s p) = Done (ADev (AInt 0), (world_of s p)\<lparr>kmod := t\<rparr>)"
    and act: "acts (mod_view env) b [Idle] s (s\<lparr>kern := t\<rparr>)" by (auto simp: op_of_def)
  let ?w = "(world_of s p)\<lparr>kmod := t, closed := nat fd # closed (world_of s p)\<rparr>"
  let ?s' = "put_world p ?w s"
  have close: "os_close (proc_os env p) fd s = Done ?s'" using fd on by (simp add: sys_close_def)
  have range: "0 \<le> fd" "nat fd < length (files (world_of s p))" using fd by (auto simp: fd_file_def split: if_splits)
  have other: "fd_file fd' (world_of ?s' q) = (if (q, fd') = (p, fd) then None else fd_file fd' (world_of s q))" for q fd'
    using range(1) by (auto simp: world_put fd_file_def)
  note same = acts_Idle(1,3,4,5,6) [OF act, unfolded mod_view_simps(1)]
  have "files_ok (world_of ?s' q)" for q
    using same(1) range(2) by (simp add: world_put sys_sane_def files_ok_def)
  moreover have "lookup_dev (devs_of (tsm_mgr (kern ?s'))) c \<noteq> None" if "fd_file fd' (world_of ?s' q) = Some (Group_file c)" for q fd' c
    using that same(1) unfolding other sys_sane_def by (auto split: if_splits)
  ultimately have sane': "sys_sane env ?s'" using same(1) by (simp add: sys_sane_def)
  then have "\<forall>q fd' c. uses (mod_view env) ?s' q fd' c \<longleftrightarrow> uses (mod_view env) s q fd' c \<and> (q, fd') \<noteq> (p, fd)"
    using sane other by auto
  moreover have "box (mod_view env) ?s' = box (mod_view env) s" "delayed (mod_view env) ?s' = delayed (mod_view env) s"
    using same(2,3) by (simp_all add: fun_eq_iff)
  ultimately show ?thesis using close sane' same(4,5) by (intro exI [of _ ?s']) simp
qed

text \<open>Timers that expire while a process sleeps concern delayed messages only.\<close>

lemma timers_go_ok:
  assumes "sys_sane env s"
  shows "\<exists>t. timers_go env ts (kern s) = Done t \<and> sys_sane env (s\<lparr>kern := t\<rparr>)
    \<and> delayed (mod_view env) (s\<lparr>kern := t\<rparr>) = delayed (mod_view env) s
    \<and> cap (mod_view env) (s\<lparr>kern := t\<rparr>) = cap (mod_view env) s \<and> size_of (mod_view env) (s\<lparr>kern := t\<rparr>) = size_of (mod_view env) s
    \<and> (\<forall>c. held (box (mod_view env) s c) = [] \<longrightarrow> box (mod_view env) (s\<lparr>kern := t\<rparr>) c = box (mod_view env) s c)"
  using assms
proof (induction ts arbitrary: s)
  case Nil
  have "s\<lparr>kern := kern s\<rparr> = s" by simp
  with Nil show ?case by simp
next
  case (Cons x ts)
  obtain b a where x: "x = (b, a)" by (cases x)
  have "\<exists>ob u. mod_exec env (kern s) (MDev b (EvTimer a)) = Done (ob, u) \<and> sys_sane env (s\<lparr>kern := u\<rparr>)
    \<and> delayed (mod_view env) (s\<lparr>kern := u\<rparr>) = delayed (mod_view env) s
    \<and> cap (mod_view env) (s\<lparr>kern := u\<rparr>) = cap (mod_view env) s \<and> size_of (mod_view env) (s\<lparr>kern := u\<rparr>) = size_of (mod_view env) s
    \<and> (\<forall>c. held (box (mod_view env) s c) = [] \<longrightarrow> box (mod_view env) (s\<lparr>kern := u\<rparr>) c = box (mod_view env) s c)"
  proof (cases "lookup_dev (devs_of (tsm_mgr (kern s))) b")
    case None
    have "s\<lparr>kern := kern s\<rparr> = s" by simp
    with None Cons.prems show ?thesis by (auto simp: mod_exec_def)
  next
    case (Some d)
    let ?sys = "dev_sys (kern s) d"
    from Cons.prems have "mgr_ok (tsm_mgr (kern s))" by (simp add: sys_sane_def)
    note ok = device_mem_ok(1,2) [OF this Some]
    from timer_expires_total [OF ok, of a] obtain g where run: "gd_exec env ?sys (EvTimer a) = Done (ANone, g)"
      by (auto simp: gd_exec_def dev_sys_def)
    let ?op = "op_of ?sys (EvTimer a) ANone"
    have op: "?op = Release \<or> ?op = Idle" by (simp add: op_of_def)
    let ?u = "(kern s)\<lparr>tsm_mgr := (put_dev (dev g) (tsm_mgr (kern s)))\<lparr>mheap := heap g\<rparr>\<rparr>"
    have "mod_exec env (kern s) (MDev b (EvTimer a)) = Done (ADev ANone, ?u)"
      using client_event(5) [OF Cons.prems Some run] by simp
    moreover from client_acts [OF Cons.prems Some run, of 0] client_event(1) [OF Cons.prems Some run, of 0]
    have "acts (mod_view env) b [?op] s (s\<lparr>kern := ?u\<rparr>)"
      by (auto dest: arg_cong [where f = kmod])
    moreover from this have "\<forall>c. held (box (mod_view env) s c) = [] \<longrightarrow> box (mod_view env) (s\<lparr>kern := ?u\<rparr>) c = box (mod_view env) s c"
      using op by (blast intro: acts_timer)
    ultimately show ?thesis unfolding acts_def mod_view_simps(1) by blast
  qed
  then obtain ob u where step: "mod_exec env (kern s) (MDev b (EvTimer a)) = Done (ob, u)" and sane: "sys_sane env (s\<lparr>kern := u\<rparr>)"
    and same: "delayed (mod_view env) (s\<lparr>kern := u\<rparr>) = delayed (mod_view env) s"
      "cap (mod_view env) (s\<lparr>kern := u\<rparr>) = cap (mod_view env) s" "size_of (mod_view env) (s\<lparr>kern := u\<rparr>) = size_of (mod_view env) s"
    and box: "\<And>c. held (box (mod_view env) s c) = [] \<Longrightarrow> box (mod_view env) (s\<lparr>kern := u\<rparr>) c = box (mod_view env) s c"
    by blast
  from Cons.IH [OF sane] same box step show ?case by (auto simp: x)
qed

lemma mod_naps:
  assumes "sys_sane env s"
  shows "\<exists>s'. passing env due n s = Done s' \<and> sys_sane env s' \<and> uses (mod_view env) s' = uses (mod_view env) s
    \<and> delayed (mod_view env) s' = delayed (mod_view env) s
    \<and> cap (mod_view env) s' = cap (mod_view env) s \<and> size_of (mod_view env) s' = size_of (mod_view env) s
    \<and> (\<forall>c. held (box (mod_view env) s c) = [] \<longrightarrow> box (mod_view env) s' c = box (mod_view env) s c)"
proof (cases "n = 0")
  case True
  with assms show ?thesis by (simp add: passing_def)
next
  case False
  from timers_go_ok [OF assms, of "due n s"] obtain t where go: "timers_go env (due n s) (kern s) = Done t"
    and sane: "sys_sane env (s\<lparr>kern := t\<rparr>)"
    and rest: "delayed (mod_view env) (s\<lparr>kern := t\<rparr>) = delayed (mod_view env) s"
    "cap (mod_view env) (s\<lparr>kern := t\<rparr>) = cap (mod_view env) s" "size_of (mod_view env) (s\<lparr>kern := t\<rparr>) = size_of (mod_view env) s"
    "\<forall>c. held (box (mod_view env) s c) = [] \<longrightarrow> box (mod_view env) (s\<lparr>kern := t\<rparr>) c = box (mod_view env) s c" by blast
  have "uses (mod_view env) (s\<lparr>kern := t\<rparr>) = uses (mod_view env) s" using assms sane by (intro ext) simp
  moreover have "passing env due n s = Done (s\<lparr>kern := t\<rparr>)" using False go by (simp add: passing_def)
  ultimately show ?thesis using sane rest by blast
qed

text \<open>Opening a group installs it if it is not there; the groups that are there stay as they are.\<close>

lemma mod_opens:
  assumes sane: "sys_sane env s" and size: "lib_max_message_size l = 0 \<or> lib_max_message_size l = size_of (mod_view env) s"
  shows "\<exists>fd l' s'. open_group (proc_os env p) (Some b) l s = Done (fd, l', s') \<and> lib_max_message_size l' = size_of (mod_view env) s
    \<and> sys_sane env s' \<and> 0 \<le> fd \<and> (\<forall>c. \<not> uses (mod_view env) s p fd c)
    \<and> (\<forall>q fd' c. uses (mod_view env) s' q fd' c \<longleftrightarrow> uses (mod_view env) s q fd' c \<or> (q, fd', c) = (p, fd, b))
    \<and> box (mod_view env) s' = box (mod_view env) s \<and> delayed (mod_view env) s' = delayed (mod_view env) s
    \<and> cap (mod_view env) s' = cap (mod_view env) s \<and> size_of (mod_view env) s' = size_of (mod_view env) s"
proof -
  let ?w = "world_of s p" and ?k = "length (files (world_of s p))"
  from sane have ok: "mgr_ok (tsm_mgr (kern s))" and fok: "files_ok ?w" and docs: "grants env" "dynamic_major env"
    and env: "\<forall>k. alloc_ok env k" "\<forall>k. 0 \<le> fst (chrdev_region env k)" "\<forall>k. 0 \<le> stack_garbage env k"
    by (simp_all add: sys_sane_def env_good_def kernel_docs_def)
  from install_succeeds [OF ok docs env, of b] obtain m where
    inst: "install_group env (Some b) (tsm_mgr (kmod ?w)) = Done (0, m)" and there: "lookup_dev (devs_of m) b \<noteq> None"
    by auto
  let ?t = "(kern s)\<lparr>tsm_mgr := m\<rparr>"
  let ?w' = "?w\<lparr>kmod := ?t, files := files ?w @ [Tsm_file, Group_file b], closed := ?k # closed ?w\<rparr>"
  let ?s' = "put_world p ?w' s"
  from open_group_ok [OF fok inst there, of l] size obtain l' where
    "open_group (mod_os env) (Some b) l ?w = Done (int (Suc ?k), l', ?w')"
    and l': "lib_max_message_size l' = size_of (mod_view env) s" by auto
  then have run: "open_group (proc_os env p) (Some b) l s = Done (int (Suc ?k), l', ?s')" by (simp add: open_group_proc)
  from install_step [OF ok docs inst [simplified]] have ok': "mgr_ok m"
    and devs: "devs_of m = devs_of (tsm_mgr (kern s)) \<or> lookup_dev (devs_of (tsm_mgr (kern s))) b = None
         \<and> (\<exists>x y. devs_of m = installed_dev env b x y # devs_of (tsm_mgr (kern s)))" by blast+
  from devs have look: "lookup_dev (devs_of m) c = lookup_dev (devs_of (tsm_mgr (kern s))) c
      \<or> c = b \<and> lookup_dev (devs_of (tsm_mgr (kern s))) b = None \<and> (\<exists>x y. lookup_dev (devs_of m) b = Some (installed_dev env b x y))" for c
    by (cases "c = b") (auto simp: lookup_dev_def, blast)
  have box: "box_of c ?t = box_of c (kern s)" for c using box_of_installed [OF _ devs, of ?t c] by simp
  have "delay (installed_dev env b x y) = 0" for x y by (simp add: installed_dev_def fresh_dev_def blank_dev_def)
  then have late: "late_in ?t c = late_in (kern s) c" for c using look [of c] by (auto simp: late_in_def)
  have none: "fd_file (int (Suc ?k)) ?w = None" by (simp add: fd_file_def del: of_nat_Suc)
  have new: "fd_file fd ?w' = (if fd = int (Suc ?k) then Some (Group_file b) else fd_file fd ?w)" for fd
    using fok by (auto simp: fd_file_def files_ok_def nth_append simp del: of_nat_Suc)
  have other: "fd_file fd (world_of ?s' q) = (if (q, fd) = (p, int (Suc ?k)) then Some (Group_file b) else fd_file fd (world_of s q))" for q fd
    using new by (simp add: world_put del: of_nat_Suc)
  have "files_ok (world_of ?s' q)" for q
    using sane fok by (auto simp: world_put sys_sane_def files_ok_def dest!: subsetD intro!: less_SucI)
  moreover have "lookup_dev (devs_of m) c \<noteq> None" if "fd_file fd (world_of ?s' q) = Some (Group_file c)" for q fd c
  proof (cases "(q, fd) = (p, int (Suc ?k))")
    case True
    have "c = b" using that unfolding other if_P [OF True] by simp
    with there show ?thesis by simp
  next
    case False
    have "fd_file fd (world_of s q) = Some (Group_file c)" using that unfolding other if_not_P [OF False] .
    with sane have "lookup_dev (devs_of (tsm_mgr (kern s))) c \<noteq> None" unfolding sys_sane_def by blast
    with look [of c] show ?thesis by auto
  qed
  ultimately have sane': "sys_sane env ?s'" using sane ok' by (simp add: sys_sane_def)
  then have "uses (mod_view env) ?s' q fd' c \<longleftrightarrow> uses (mod_view env) s q fd' c \<or> (q, fd', c) = (p, int (Suc ?k), b)" for q fd' c
    using sane other none by (auto simp del: of_nat_Suc)
  moreover have "\<not> uses (mod_view env) s p (int (Suc ?k)) c" for c using none by simp
  moreover have "box (mod_view env) ?s' = box (mod_view env) s" "delayed (mod_view env) ?s' = delayed (mod_view env) s"
    using box late by (simp_all add: fun_eq_iff)
  ultimately show ?thesis using run l' sane'
    by (intro exI [of _ "int (Suc ?k)"] exI [of _ l'] exI [of _ ?s']) (simp del: mod_view_simps(2-4) of_nat_Suc)
qed

text \<open>
  So every program that is correct on a lawful system is correct on the module, for any kernel
  that has memory and any timers that expire while a program sleeps.
\<close>

interpretation mod_client: group_client "proc_os env" "passing env due"
  "\<lambda>ms. msecs_to_jiffies env (ucast ms) \<noteq> 0" "mod_view env" for env :: "'x tsm_env_scheme" and due
proof unfold_locales
  fix s p fd b assume "uses (mod_view env) s p fd b"
  then show "sane (mod_view env) s \<and> 0 \<le> fd" by (auto simp: fd_file_def split: if_splits)
next
  fix s assume "sane (mod_view env) s"
  then show "size_of (mod_view env) s \<noteq> 0" by (auto simp: sys_sane_def)
next
  fix s :: system and l :: lib and p b
  assume "sane (mod_view env) s" and "lib_max_message_size l = 0 \<or> lib_max_message_size l = size_of (mod_view env) s"
  then show "\<exists>fd l' w'. open_group (proc_os env p) (Some b) l s = Done (fd, l', w') \<and> lib_max_message_size l' = size_of (mod_view env) s
        \<and> sane (mod_view env) w' \<and> 0 \<le> fd \<and> (\<forall>c. \<not> uses (mod_view env) s p fd c)
        \<and> (\<forall>q fd' c. uses (mod_view env) w' q fd' c \<longleftrightarrow> uses (mod_view env) s q fd' c \<or> (q, fd', c) = (p, fd, b))
        \<and> box (mod_view env) w' = box (mod_view env) s \<and> delayed (mod_view env) w' = delayed (mod_view env) s
        \<and> cap (mod_view env) w' = cap (mod_view env) s \<and> size_of (mod_view env) w' = size_of (mod_view env) s"
    using mod_opens [of env s l p b] unfolding mod_view_simps(1) by blast
next
  fix s p fd b n and buf :: "u8 list"
  assume "uses (mod_view env) s p fd b" and "0 < n" and "n \<le> unat (size_of (mod_view env) s)" and "n \<le> length buf"
  then show "\<exists>w'. os_write (proc_os env p) fd buf n s
      = Done (if Client.stored (box (mod_view env) s b) < cap (mod_view env) s then int n else 0, w')
    \<and> acts (mod_view env) b [if Client.stored (box (mod_view env) s b) < cap (mod_view env) s
        then (if delayed (mod_view env) s b then Hold (take n buf) else Post (take n buf)) else Idle] s w'"
    by (rule mod_writes)
next
  fix s p fd b len and buf :: "u8 list"
  assume "uses (mod_view env) s p fd b" and "list_all (\<lambda>m. length m \<le> min len (length buf)) (avail (box (mod_view env) s b))"
  then show "\<exists>w'. os_read (proc_os env p) fd buf len s = Done (case avail (box (mod_view env) s b) of [] \<Rightarrow> (0, buf, w')
          | m # ms \<Rightarrow> (int (length m), m @ drop (length m) buf, w')) \<and> acts (mod_view env) b [Fetch] s w'"
    by (rule mod_reads)
next
  fix s p fd b assume "uses (mod_view env) s p fd b"
  from mod_ioctl [OF this, of IOCTL_REVOKE_DELAYED_MESSAGES]
  show "\<exists>w'. os_ioctl (proc_os env p) fd IOCTL_REVOKE_DELAYED_MESSAGES No_arg s = Done (0, No_arg, w') \<and> acts (mod_view env) b [Flush] s w'"
    by simp
next
  fix s p fd b assume u: "uses (mod_view env) s p fd b"
  have "IOCTL_AWAKE_BARRIER \<noteq> IOCTL_REVOKE_DELAYED_MESSAGES" using ioctl_distinct by simp
  with mod_ioctl [OF u, of IOCTL_AWAKE_BARRIER]
  show "\<exists>w'. os_ioctl (proc_os env p) fd IOCTL_AWAKE_BARRIER No_arg s = Done (0, No_arg, w') \<and> acts (mod_view env) b [] s w'"
    by (simp add: acts_def)
next
  fix s p fd b and ms :: u64 assume "uses (mod_view env) s p fd b" and "0 \<le> sint ms"
  from mod_sets_delay [OF this]
  show "\<exists>w'. os_ioctl (proc_os env p) fd IOCTL_SET_SEND_DELAY (Num ms) s = Done (0, Num ms, w')
        \<and> sane (mod_view env) w' \<and> uses (mod_view env) w' = uses (mod_view env) s \<and> box (mod_view env) w' = box (mod_view env) s
        \<and> delayed (mod_view env) w' = (delayed (mod_view env) s)(b := msecs_to_jiffies env (ucast ms) \<noteq> 0)
        \<and> cap (mod_view env) w' = cap (mod_view env) s \<and> size_of (mod_view env) w' = size_of (mod_view env) s"
    unfolding mod_view_simps(1) .
next
  fix s p fd b assume "uses (mod_view env) s p fd b"
  from mod_closes [OF this]
  show "\<exists>w'. os_close (proc_os env p) fd s = Done w' \<and> sane (mod_view env) w'
        \<and> (\<forall>q fd' c. uses (mod_view env) w' q fd' c \<longleftrightarrow> uses (mod_view env) s q fd' c \<and> (q, fd') \<noteq> (p, fd))
        \<and> box (mod_view env) w' = box (mod_view env) s \<and> delayed (mod_view env) w' = delayed (mod_view env) s
        \<and> cap (mod_view env) w' = cap (mod_view env) s \<and> size_of (mod_view env) w' = size_of (mod_view env) s"
    unfolding mod_view_simps(1) .
next
  fix s n assume "sane (mod_view env) s"
  then show "\<exists>w'. passing env due n s = Done w' \<and> sane (mod_view env) w' \<and> uses (mod_view env) w' = uses (mod_view env) s
      \<and> delayed (mod_view env) w' = delayed (mod_view env) s
      \<and> cap (mod_view env) w' = cap (mod_view env) s \<and> size_of (mod_view env) w' = size_of (mod_view env) s
      \<and> (\<forall>c. held (box (mod_view env) s c) = [] \<longrightarrow> box (mod_view env) w' c = box (mod_view env) s c)"
    unfolding mod_view_simps(1) by (rule mod_naps)
next
  show "passing env due 0 s = Done s" for s by (simp add: passing_def)
qed

end
