(* ===== verification/Client_Properties.thy ===== *)
theory Client_Properties
  imports Module_Client Lib_Properties
begin

text \<open>
  The test programs of one process on the module: what they print and leave, from the laws of
  \<open>group_client\<close>, which the module keeps (\<open>mod_client\<close>).
\<close>

text \<open>Every process has the same groups open, with the same descriptors.\<close>

definition same_files :: "system \<Rightarrow> system \<Rightarrow> bool" where
  "same_files s s' \<longleftrightarrow> (\<forall>p fd b. fd_file fd (world_of s p) = Some (Group_file b) \<longleftrightarrow> fd_file fd (world_of s' p) = Some (Group_file b))"

text \<open>From the view back to the module.\<close>

lemma seen:
  assumes "sys_sane env s'" and "uses (mod_view env) s' = uses (mod_view env) s" and "sys_sane env s"
  shows "same_files s s'"
  using assms by (auto simp: same_files_def fun_eq_iff)

lemma seen_box: "box (mod_view env) s' = B \<Longrightarrow> box_of b (kern s') = B b"
  and seen_late: "delayed (mod_view env) s' = D \<Longrightarrow> late_in (kern s') b = D b"
  by (auto simp: fun_eq_iff)

definition ex_system :: system where
  "ex_system = \<lparr>kern = ex_tsm, tables = (\<lambda>_. ([], []))\<rparr>"

lemma ex_system_sane [simp]: "sys_sane ex_tsm_env ex_system"
proof -
  have "env_good ex_tsm_env" using ex_docs by (simp add: env_good_def ex_tsm_env_def)
  then show ?thesis
    by (simp add: sys_sane_def ex_system_def files_ok_def world_of_def fd_file_def)
qed

lemma ex_system_facts [simp]:
  "box_of b (kern ex_system) = empty_box" "\<not> late_in (kern ex_system) b"
  "max_message_size (tsm_params (kern ex_system)) = 32" "max_storage_size (tsm_params (kern ex_system)) = 64"
  "lib_max_message_size ex_lib = 0"
  by (simp_all add: ex_system_def box_of_def late_in_def lookup_dev_def ex_lib_def)
    (simp_all add: ex_tsm_def default_params_def DEFAULT_MAX_MESSAGE_SIZE_def DEFAULT_MAX_STORAGE_SIZE_def)



text \<open>\<open>revoke\<close> on the module, with timers that do not expire before the revocation. Under a delay of
  five seconds the five messages are not available at first; after
  \<open>revoke_delayed_messages\<close> all five are, complete and in the order they were written, and the
  delay of the group stays set.\<close>

theorem revoke_shows_all:
  assumes "sys_sane env s" and "lib_max_message_size l = 0 \<or> lib_max_message_size l = max_message_size (tsm_params (kern s))"
    and "box_of 0 (kern s) = empty_box" and "msecs_to_jiffies env 5000 \<noteq> 0"
    and "MSG_TO_WRITE \<le> unat (max_storage_size (tsm_params (kern s)))"
    and "unat (max_message_size (tsm_params (kern s))) < MESSAGE_SIZE" and "16 \<le> unat (max_message_size (tsm_params (kern s)))"
  shows "\<exists>fd l' s'. run (proc_os env p) (passing env due) revoke_main l s = Done (
      [Note ''EXECUTING'', Opened 0 fd, Writing 5] @ map (\<lambda>i. Written (bytes_of (from_userspace i))) [0..<5]
      @ [Reading 6, No_more, Note ''Delayed messages revoked'', Reading 6]
      @ map (\<lambda>i. Got 16 (bytes_of (from_userspace i))) [0..<5] @ [No_more, Closed 0 fd, Note ''DONE''], l', s')
    \<and> same_files s s' \<and> box_of 0 (kern s') = empty_box \<and> late_in (kern s') 0"
proof -
  have "sane (mod_view env) s" "lib_max_message_size l = 0 \<or> lib_max_message_size l = size_of (mod_view env) s"
    "box (mod_view env) s 0 = empty_box" "msecs_to_jiffies env (ucast (5000 :: u64)) \<noteq> 0" "MSG_TO_WRITE \<le> cap (mod_view env) s"
    "unat (size_of (mod_view env) s) < MESSAGE_SIZE" "16 \<le> unat (size_of (mod_view env) s)"
    using assms by simp_all
  from mod_client.revoke_run [OF this, of p due]
  obtain fd l' s' where "run (proc_os env p) (passing env due) revoke_main l s = Done (
      [Note ''EXECUTING'', Opened 0 fd, Writing 5] @ map (\<lambda>i. Written (bytes_of (from_userspace i))) [0..<5]
      @ [Reading 6, No_more, Note ''Delayed messages revoked'', Reading 6]
      @ map (\<lambda>i. Got 16 (bytes_of (from_userspace i))) [0..<5] @ [No_more, Closed 0 fd, Note ''DONE''], l', s')"
    and s': "sane (mod_view env) s'" "uses (mod_view env) s' = uses (mod_view env) s" "box (mod_view env) s' = box (mod_view env) s"
      "delayed (mod_view env) s' = (delayed (mod_view env) s)(0 := True)" by blast
  moreover have "box_of 0 (kern s') = empty_box" "late_in (kern s') 0"
    using seen_box [OF s'(3), of 0] seen_late [OF s'(4), of 0] assms(3) by simp_all
  moreover have "same_files s s'" using seen [OF _ s'(2) assms(1)] s'(1) by simp
  ultimately show ?thesis by blast
qed

theorem revoke_shows_all_witness:
  "\<exists>fd l' s'. run (proc_os ex_tsm_env 3) (passing ex_tsm_env (\<lambda>_ _. [])) revoke_main ex_lib ex_system = Done (
      [Note ''EXECUTING'', Opened 0 fd, Writing 5] @ map (\<lambda>i. Written (bytes_of (from_userspace i))) [0..<5]
      @ [Reading 6, No_more, Note ''Delayed messages revoked'', Reading 6]
      @ map (\<lambda>i. Got 16 (bytes_of (from_userspace i))) [0..<5] @ [No_more, Closed 0 fd, Note ''DONE''], l', s')
    \<and> late_in (kern s') 0"
proof -
  have "MSG_TO_WRITE \<le> 64" "(32::nat) < MESSAGE_SIZE" by (simp_all add: MSG_TO_WRITE_def MESSAGE_SIZE_def)
  moreover have "msecs_to_jiffies ex_tsm_env 5000 \<noteq> 0" by (simp add: ex_tsm_env_def)
  ultimately show ?thesis using revoke_shows_all [of ex_tsm_env ex_system ex_lib 3 "\<lambda>_ _. []"] by auto
qed

text \<open>\<open>exceed_messages\<close> on the module. The program writes 128 messages to a group that stores fewer,
  and reports every one of them as written: \<open>write\<close> returns 0 when the group is full, and only
  negative results count as errors. The group keeps the first ones, up to its limit, and the
  others are lost.\<close>

theorem exceed_messages_unnoticed:
  assumes "sys_sane env s" and "lib_max_message_size l = 0 \<or> lib_max_message_size l = max_message_size (tsm_params (kern s))"
    and "box_of 0 (kern s) = empty_box" and "\<not> late_in (kern s) 0"
    and "unat (max_message_size (tsm_params (kern s))) < MESSAGE_SIZE"
  shows "\<exists>fd l' s'. run (proc_os env p) (passing env due) exceed_messages_main l s = Done (
      [Note ''EXECUTING'', Opened 0 fd, Writing E_MSG_TO_WRITE] @ map (\<lambda>i. Written (bytes_of (from_userspace i))) [0..<E_MSG_TO_WRITE]
      @ [Closed 0 fd, Note ''DONE''], l', s')
    \<and> avail (box_of 0 (kern s')) = map (\<lambda>i. payload (unat (max_message_size (tsm_params (kern s)))) (from_userspace i))
         (take (unat (max_storage_size (tsm_params (kern s)))) [0..<E_MSG_TO_WRITE])"
proof -
  have "sane (mod_view env) s" "lib_max_message_size l = 0 \<or> lib_max_message_size l = size_of (mod_view env) s"
    "box (mod_view env) s 0 = empty_box" "\<not> delayed (mod_view env) s 0" "unat (size_of (mod_view env) s) < MESSAGE_SIZE"
    using assms by simp_all
  from mod_client.exceed_messages_run [OF this, of p due, unfolded mod_view_simps(5,6)] obtain fd l' s' where
    "run (proc_os env p) (passing env due) exceed_messages_main l s = Done (
      [Note ''EXECUTING'', Opened 0 fd, Writing E_MSG_TO_WRITE] @ map (\<lambda>i. Written (bytes_of (from_userspace i))) [0..<E_MSG_TO_WRITE]
      @ [Closed 0 fd, Note ''DONE''], l', s')"
    and box: "box (mod_view env) s' = (box (mod_view env) s)(0 := \<lparr>avail = map (\<lambda>i. payload (unat (max_message_size (tsm_params (kern s)))) (from_userspace i))
         (take (unat (max_storage_size (tsm_params (kern s)))) [0..<E_MSG_TO_WRITE]), held = []\<rparr>)" by blast
  moreover from seen_box [OF box, of 0] have "avail (box_of 0 (kern s')) = map (\<lambda>i. payload (unat (max_message_size (tsm_params (kern s)))) (from_userspace i))
         (take (unat (max_storage_size (tsm_params (kern s)))) [0..<E_MSG_TO_WRITE])" by simp
  ultimately show ?thesis by blast
qed

theorem exceed_messages_unnoticed_witness:
  "\<exists>fd l' s' out. run (proc_os ex_tsm_env 3) (passing ex_tsm_env (\<lambda>_ _. [])) exceed_messages_main ex_lib ex_system = Done (out, l', s')
    \<and> length (filter (\<lambda>x. \<exists>m. x = Written m) out) = 128 \<and> length (avail (box_of 0 (kern s'))) = 64"
proof -
  have few: "unat (max_message_size (tsm_params (kern ex_system))) < MESSAGE_SIZE" by (simp add: MESSAGE_SIZE_def)
  from exceed_messages_unnoticed [OF ex_system_sane disjI1 [OF ex_system_facts(5)] ex_system_facts(1,2) few, of 3 "\<lambda>_ _. []"]
  obtain fd l' s' where
    "run (proc_os ex_tsm_env 3) (passing ex_tsm_env (\<lambda>_ _. [])) exceed_messages_main ex_lib ex_system = Done (
      [Note ''EXECUTING'', Opened 0 fd, Writing E_MSG_TO_WRITE] @ map (\<lambda>i. Written (bytes_of (from_userspace i))) [0..<E_MSG_TO_WRITE]
      @ [Closed 0 fd, Note ''DONE''], l', s')"
    and "length (avail (box_of 0 (kern s'))) = 64" by (auto simp: E_MSG_TO_WRITE_def simp del: upt_conv_Cons)
  then show ?thesis by (auto simp: E_MSG_TO_WRITE_def filter_map o_def simp del: upt_conv_Cons)
qed



text \<open>\<open>readwrite_delay\<close> on the module. The program asks for a delay of -1 milliseconds, which the library
  refuses, so it ends without having written or read anything.\<close>

theorem readwrite_delay_does_nothing:
  assumes "sys_sane env s" and "lib_max_message_size l = 0 \<or> lib_max_message_size l = max_message_size (tsm_params (kern s))"
  shows "\<exists>fd l' s'. run (proc_os env p) (passing env due) readwrite_delay_main l s =
      Done ([Note ''EXECUTING'', Opened 0 fd, Delay_err (-1), Closed 0 fd, Note ''DONE''], l', s')
    \<and> same_files s s' \<and> (\<forall>b. box_of b (kern s') = box_of b (kern s) \<and> late_in (kern s') b = late_in (kern s) b)"
proof -
  have "sane (mod_view env) s" "lib_max_message_size l = 0 \<or> lib_max_message_size l = size_of (mod_view env) s"
    using assms by simp_all
  from mod_client.readwrite_delay_run [OF this, of p due] obtain fd l' s' where
    "run (proc_os env p) (passing env due) readwrite_delay_main l s =
      Done ([Note ''EXECUTING'', Opened 0 fd, Delay_err (-1), Closed 0 fd, Note ''DONE''], l', s')"
    and s': "sane (mod_view env) s'" "uses (mod_view env) s' = uses (mod_view env) s"
      "box (mod_view env) s' = box (mod_view env) s" "delayed (mod_view env) s' = delayed (mod_view env) s" by blast
  moreover have "\<forall>b. box_of b (kern s') = box_of b (kern s) \<and> late_in (kern s') b = late_in (kern s) b"
    using seen_box [OF s'(3)] seen_late [OF s'(4)] by simp
  moreover have "same_files s s'" using seen [OF _ s'(2) assms(1)] s'(1) by simp
  ultimately show ?thesis by blast
qed

theorem readwrite_delay_does_nothing_witness:
  "\<exists>fd l' s'. run (proc_os ex_tsm_env 3) (passing ex_tsm_env (\<lambda>_ _. [])) readwrite_delay_main ex_lib ex_system =
      Done ([Note ''EXECUTING'', Opened 0 fd, Delay_err (-1), Closed 0 fd, Note ''DONE''], l', s') \<and> box_of 0 (kern s') = empty_box"
  using readwrite_delay_does_nothing [OF ex_system_sane disjI1 [OF ex_system_facts(5)], of 3 "\<lambda>_ _. []"] by auto

end
