(* ===== verification/Processes.thy ===== *)
theory Processes
  imports Program_Laws "HOL-Library.Multiset"
begin

text \<open>
  Programs of several processes and threads: tasks that run trees of \<open>Client\<close> in any
  interleaving. A call of the library is one step; what happens when calls overlap inside the
  module is the subject of \<open>Sharing\<close> and \<open>Barrier\<close>. A task that sleeps on a barrier stays in the
  call until it has left the wait queue.
\<close>

section \<open>The system\<close>

record ('w, 'x) platform =
  calls :: "nat \<Rightarrow> ('w, 'x) os_scheme"              \<comment> \<open>the system calls of a process\<close>
  pass :: "nat \<Rightarrow> 'w \<Rightarrow> 'w outcome"                 \<comment> \<open>time passes\<close>
  spawn :: "nat \<Rightarrow> nat \<Rightarrow> 'w \<Rightarrow> 'w"                 \<comment> \<open>\<open>fork\<close>: the new process gets a copy of the open files\<close>
  bed :: "nat \<Rightarrow> nat \<Rightarrow> int \<Rightarrow> 'w \<Rightarrow> 'w outcome"    \<comment> \<open>a task goes to sleep on the barrier of a file\<close>
  resting :: "nat \<Rightarrow> nat \<Rightarrow> int \<Rightarrow> 'w \<Rightarrow> bool"      \<comment> \<open>it is on the wait queue\<close>
  may_fail :: bool                                \<comment> \<open>\<open>fork\<close> and \<open>pthread_create\<close> may fail\<close>

record task =
  t_proc :: nat
  t_parent :: nat
  t_code :: prog

text \<open>The library's state belongs to a process; the semaphore and the counter to the process with threads.\<close>

record 'w conf =
  c_tasks :: "task list"
  c_libs :: "nat \<Rightarrow> lib"
  c_world :: 'w
  c_sem :: nat
  c_var :: int
  c_lines :: "(nat \<times> line) list"

abbreviation code_of :: "'w conf \<Rightarrow> nat \<Rightarrow> prog" where
  "code_of c i \<equiv> t_code (c_tasks c ! i)"

abbreviation proc_of :: "'w conf \<Rightarrow> nat \<Rightarrow> nat" where
  "proc_of c i \<equiv> t_proc (c_tasks c ! i)"

definition goes_on :: "nat \<Rightarrow> prog \<Rightarrow> 'w conf \<Rightarrow> 'w conf" where
  "goes_on i p c = c\<lparr>c_tasks := (c_tasks c)[i := (c_tasks c ! i)\<lparr>t_code := p\<rparr>]\<rparr>"

definition adds :: "nat \<Rightarrow> nat \<Rightarrow> prog \<Rightarrow> 'w conf \<Rightarrow> 'w conf" where
  "adds i q p c = c\<lparr>c_tasks := c_tasks c @ [\<lparr>t_proc = q, t_parent = i, t_code = p\<rparr>]\<rparr>"

text \<open>Task identifiers are process identifiers of the kernel.\<close>

definition PID_LIMIT :: nat where "PID_LIMIT = 2 ^ 22"

text \<open>A step of task \<open>i\<close>.\<close>

inductive tstep :: "('w, 'x) platform \<Rightarrow> nat \<Rightarrow> 'w conf \<Rightarrow> 'w conf \<Rightarrow> bool" for P i where
  say: "i < length (c_tasks c) \<Longrightarrow> code_of c i = Say x p \<Longrightarrow>
    tstep P i c (goes_on i p c\<lparr>c_lines := c_lines c @ [(i, x)]\<rparr>)"
| call: "i < length (c_tasks c) \<Longrightarrow>
    lib_call (calls P (proc_of c i)) (pass P) (code_of c i) (c_libs c (proc_of c i)) (c_world c) = Some (Done (p, l, w)) \<Longrightarrow>
    tstep P i c (goes_on i p c\<lparr>c_libs := (c_libs c)(proc_of c i := l), c_world := w\<rparr>)"
| fork: "i < length (c_tasks c) \<Longrightarrow> code_of c i = Fork ch k \<Longrightarrow> q = length (c_tasks c) \<Longrightarrow>
    tstep P i c (adds i q ch (goes_on i (k True) c)\<lparr>c_libs := (c_libs c)(q := c_libs c (proc_of c i)),
      c_world := spawn P (proc_of c i) q (c_world c)\<rparr>)"
| create: "i < length (c_tasks c) \<Longrightarrow> code_of c i = Create ch k \<Longrightarrow>
    tstep P i c (adds i (proc_of c i) ch (goes_on i (k True) c))"
| no_fork: "may_fail P \<Longrightarrow> i < length (c_tasks c) \<Longrightarrow> code_of c i = Fork ch k \<Longrightarrow> tstep P i c (goes_on i (k False) c)"
| no_create: "may_fail P \<Longrightarrow> i < length (c_tasks c) \<Longrightarrow> code_of c i = Create ch k \<Longrightarrow> tstep P i c (goes_on i (k False) c)"
| join: "i < length (c_tasks c) \<Longrightarrow> code_of c i = Join p \<Longrightarrow>
    list_all (\<lambda>t. t_parent t = i \<longrightarrow> t_code t = Exit) (drop (Suc i) (c_tasks c)) \<Longrightarrow> tstep P i c (goes_on i p c)"
| rand: "i < length (c_tasks c) \<Longrightarrow> code_of c i = Rand n k \<Longrightarrow> x < n \<Longrightarrow> tstep P i c (goes_on i (k x) c)"
| gettid: "i < length (c_tasks c) \<Longrightarrow> code_of c i = Get_tid k \<Longrightarrow> x < PID_LIMIT \<Longrightarrow> tstep P i c (goes_on i (k x) c)"
| sem_init: "i < length (c_tasks c) \<Longrightarrow> code_of c i = Sem_init n p \<Longrightarrow> tstep P i c (goes_on i p c\<lparr>c_sem := n\<rparr>)"
| sem_wait: "i < length (c_tasks c) \<Longrightarrow> code_of c i = Sem_wait p \<Longrightarrow> 0 < c_sem c \<Longrightarrow>
    tstep P i c (goes_on i p c\<lparr>c_sem := c_sem c - 1\<rparr>)"
| sem_post: "i < length (c_tasks c) \<Longrightarrow> code_of c i = Sem_post p \<Longrightarrow> tstep P i c (goes_on i p c\<lparr>c_sem := c_sem c + 1\<rparr>)"
| load: "i < length (c_tasks c) \<Longrightarrow> code_of c i = Load_var k \<Longrightarrow> tstep P i c (goes_on i (k (c_var c)) c)"
| store: "i < length (c_tasks c) \<Longrightarrow> code_of c i = Store_var x p \<Longrightarrow> tstep P i c (goes_on i p c\<lparr>c_var := x\<rparr>)"
| nap: "i < length (c_tasks c) \<Longrightarrow> code_of c i = Nap fd k \<Longrightarrow> bed P i (proc_of c i) fd (c_world c) = Done w \<Longrightarrow>
    tstep P i c (goes_on i (Asleep fd k) c\<lparr>c_world := w\<rparr>)"
| wake: "i < length (c_tasks c) \<Longrightarrow> code_of c i = Asleep fd k \<Longrightarrow> \<not> resting P i (proc_of c i) fd (c_world c) \<Longrightarrow>
    tstep P i c (goes_on i (k 0) c)"

definition cstep :: "('w, 'x) platform \<Rightarrow> 'w conf \<Rightarrow> 'w conf \<Rightarrow> bool" where
  "cstep P c c' \<longleftrightarrow> (\<exists>i. tstep P i c c')"

text \<open>An execution starts with one task in process 0; it is over when no task can go on.\<close>

definition starts :: "prog \<Rightarrow> lib \<Rightarrow> 'w \<Rightarrow> 'w conf" where
  "starts p l w = \<lparr>c_tasks = [\<lparr>t_proc = 0, t_parent = 0, t_code = p\<rparr>], c_libs = (\<lambda>_. l), c_world = w,
     c_sem = 0, c_var = 0, c_lines = []\<rparr>"

definition over :: "('w, 'x) platform \<Rightarrow> 'w conf \<Rightarrow> bool" where
  "over P c \<longleftrightarrow> (\<nexists>c'. cstep P c c')"

definition lines_of :: "nat \<Rightarrow> 'w conf \<Rightarrow> line list" where
  "lines_of i c = map snd (filter (\<lambda>(j, x). j = i) (c_lines c))"

abbreviation all_done :: "'w conf \<Rightarrow> bool" where
  "all_done c \<equiv> list_all (\<lambda>t. t_code t = Exit) (c_tasks c)"

lemma conf_simps [simp]:
  "c_tasks (goes_on i p c) = (c_tasks c)[i := (c_tasks c ! i)\<lparr>t_code := p\<rparr>]"
  "c_libs (goes_on i p c) = c_libs c" "c_world (goes_on i p c) = c_world c" "c_lines (goes_on i p c) = c_lines c"
  "c_sem (goes_on i p c) = c_sem c" "c_var (goes_on i p c) = c_var c"
  "c_sem (adds i q p c) = c_sem c" "c_var (adds i q p c) = c_var c"
  "c_tasks (adds i q p c) = c_tasks c @ [\<lparr>t_proc = q, t_parent = i, t_code = p\<rparr>]"
  "c_libs (adds i q p c) = c_libs c" "c_world (adds i q p c) = c_world c" "c_lines (adds i q p c) = c_lines c"
  by (simp_all add: goes_on_def adds_def)

section \<open>Every execution is finite\<close>

text \<open>
  A step puts a task to a subtree of its program, and may add another task with a subtree. Trees
  are well founded, and so are multisets of them.
\<close>

inductive below :: "prog \<Rightarrow> prog \<Rightarrow> bool" where
  "below p (Say x p)"
| "below (k fd) (Open_group b k)" | "below p (Close_group fd p)" | "below (k r m) (Send fd m' k)"
| "below (k r m) (Retrieve fd m' n k)" | "below (k r) (Set_delay fd ms k)" | "below (k r) (Revoke fd k)"
| "below (k r) (Awake fd k)" | "below (k r) (Nap fd k)" | "below (Asleep fd k) (Nap fd k)" | "below (k r) (Asleep fd k)"
| "below p (Pause n p)" | "below p (Key p)" | "below (k x) (Rand n k)"
| "below p (Fork p k)" | "below (k r) (Fork p k)" | "below p (Create p k)" | "below (k r) (Create p k)" | "below p (Join p)"
| "below (k x) (Get_tid k)" | "below p (Sem_init n p)" | "below p (Sem_wait p)" | "below p (Sem_post p)"
| "below (k v) (Load_var k)" | "below p (Store_var v p)"

inductive_cases belowE: "below q p"

lemma below_accI: "(\<And>q. below q p \<Longrightarrow> Wellfounded.accp below q) \<Longrightarrow> Wellfounded.accp below p"
  by (rule accp.accI)

lemma below_acc: "Wellfounded.accp below p"
proof (induction p)
  case (Nap fd k)
  have k: "Wellfounded.accp below (k r)" for r by (rule Nap) simp
  have a: "Wellfounded.accp below (Asleep fd k)" by (rule below_accI, erule belowE) (simp_all, metis k)
  show ?case by (rule below_accI, erule belowE) (simp_all, metis k, metis a)
next
  case (Send fd m k)
  have k: "Wellfounded.accp below (k r m)" for r m by (rule Send [of "k r"]) simp_all
  show ?case by (rule below_accI, erule belowE) (simp_all, metis k)
next
  case (Retrieve fd m n k)
  have k: "Wellfounded.accp below (k r m)" for r m by (rule Retrieve [of "k r"]) simp_all
  show ?case by (rule below_accI, erule belowE) (simp_all, metis k)
qed (rule below_accI, erule belowE, simp_all)+

lemma wf_below: "wf {(q, p). below q p}"
  using below_acc by (simp add: accp_wfpI wfp_def [symmetric])

lemma lib_call_below: "lib_call os nap p l w = Some (Done (q, l', w')) \<Longrightarrow> below q p"
  by (cases p) (auto simp: obind_eq_Done intro: below.intros)

abbreviation codes :: "'w conf \<Rightarrow> prog multiset" where
  "codes c \<equiv> image_mset t_code (mset (c_tasks c))"

lemma codes_step:
  assumes "i < length ts" and "below q (t_code (ts ! i))" and "\<forall>p \<in># N. below p (t_code (ts ! i))"
  shows "(image_mset t_code (mset (ts[i := (ts ! i)\<lparr>t_code := q\<rparr>])) + N, image_mset t_code (mset ts)) \<in> mult {(q, p). below q p}"
proof -
  let ?p = "t_code (ts ! i)" and ?M = "image_mset t_code (mset ts)"
  have p: "?p \<in># ?M" using assms(1) by simp
  have "image_mset t_code (mset (ts[i := (ts ! i)\<lparr>t_code := q\<rparr>])) = ?M - {#?p#} + {#q#}"
    using assms(1) by (simp add: mset_update image_mset_Diff)
  then have "image_mset t_code (mset (ts[i := (ts ! i)\<lparr>t_code := q\<rparr>])) + N = (?M - {#?p#}) + (add_mset q N)" by simp
  moreover have "((?M - {#?p#}) + add_mset q N, (?M - {#?p#}) + {#?p#}) \<in> mult {(q, p). below q p}"
    using assms(2,3) by (intro one_step_implies_mult) auto
  moreover have "(?M - {#?p#}) + {#?p#} = ?M" using p by simp
  ultimately show ?thesis by simp
qed

lemma tstep_codes: "tstep P i c c' \<Longrightarrow> (codes c', codes c) \<in> mult {(q, p). below q p}"
proof (induction rule: tstep.induct)
  case (call c p l w)
  from codes_step [OF call(1) lib_call_below [OF call(2)], of "{#}"] show ?case by simp
next
  case (fork c ch k q)
  have "below (k True) (code_of c i)" "\<forall>p \<in># {#ch#}. below p (code_of c i)" unfolding fork(2) by (auto intro: below.intros)
  from codes_step [OF fork(1) this] show ?case by simp
next
  case (create c ch k)
  have "below (k True) (code_of c i)" "\<forall>p \<in># {#ch#}. below p (code_of c i)" unfolding create(2) by (auto intro: below.intros)
  from codes_step [OF create(1) this] show ?case by simp
qed (auto intro!: codes_step [where N = "{#}", simplified] intro: below.intros)

lemma cstep_wf: "wfP (\<lambda>c' c. cstep P c c')"
proof -
  have "wf (inv_image (mult {(q, p). below q p}) codes)" by (intro wf_inv_image wf_mult wf_below)
  then have "wf {(c', c). cstep P c c'}" by (rule wf_subset) (auto simp: cstep_def dest: tstep_codes)
  then show ?thesis by (simp add: wfp_def)
qed

section \<open>Steps by the form of the program\<close>

lemma lines_of_simps [simp]:
  "lines_of j (goes_on i p c) = lines_of j c" "lines_of j (adds i q p c) = lines_of j c"
  "lines_of j (c\<lparr>c_lines := c_lines c' @ [(i, x)]\<rparr>) = lines_of j c' @ (if i = j then [x] else [])"
  "lines_of j (c\<lparr>c_libs := ls\<rparr>) = lines_of j c" "lines_of j (c\<lparr>c_world := w\<rparr>) = lines_of j c"
  "lines_of j (c\<lparr>c_tasks := ts\<rparr>) = lines_of j c" "lines_of j (c\<lparr>c_sem := n\<rparr>) = lines_of j c"
  "lines_of j (c\<lparr>c_var := v\<rparr>) = lines_of j c"
  by (simp_all add: lines_of_def goes_on_def adds_def)

lemma step_index: "tstep P i c c' \<Longrightarrow> i < length (c_tasks c)"
  by (auto elim: tstep.cases)

lemma step_Exit: "code_of c i = Exit \<Longrightarrow> \<not> tstep P i c c'"
  by (auto elim: tstep.cases)

lemma step_Say: "code_of c i = Say x p \<Longrightarrow>
  tstep P i c c' \<longleftrightarrow> i < length (c_tasks c) \<and> c' = goes_on i p c\<lparr>c_lines := c_lines c @ [(i, x)]\<rparr>"
  by (auto elim: tstep.cases intro: tstep.say)

lemma step_Get_tid: "code_of c i = Get_tid k \<Longrightarrow>
  tstep P i c c' \<longleftrightarrow> i < length (c_tasks c) \<and> (\<exists>x < PID_LIMIT. c' = goes_on i (k x) c)"
  by (auto elim!: tstep.cases intro: tstep.gettid)

lemma step_Join: "code_of c i = Join p \<Longrightarrow> tstep P i c c' \<longleftrightarrow> i < length (c_tasks c)
   \<and> list_all (\<lambda>t. t_parent t = i \<longrightarrow> t_code t = Exit) (drop (Suc i) (c_tasks c)) \<and> c' = goes_on i p c"
  by (auto elim: tstep.cases intro: tstep.join)

lemma step_Fork: "code_of c i = Fork ch k \<Longrightarrow> tstep P i c c' \<longleftrightarrow> i < length (c_tasks c) \<and>
  (c' = adds i (length (c_tasks c)) ch (goes_on i (k True) c)\<lparr>c_libs := (c_libs c)(length (c_tasks c) := c_libs c (proc_of c i)),
      c_world := spawn P (proc_of c i) (length (c_tasks c)) (c_world c)\<rparr> \<or> may_fail P \<and> c' = goes_on i (k False) c)"
  by (auto elim: tstep.cases intro: tstep.fork tstep.no_fork)

lemma step_Create: "code_of c i = Create ch k \<Longrightarrow> tstep P i c c' \<longleftrightarrow> i < length (c_tasks c) \<and>
  (c' = adds i (proc_of c i) ch (goes_on i (k True) c) \<or> may_fail P \<and> c' = goes_on i (k False) c)"
  by (auto elim: tstep.cases intro: tstep.create tstep.no_create)

lemma step_Rand: "code_of c i = Rand n k \<Longrightarrow>
  tstep P i c c' \<longleftrightarrow> i < length (c_tasks c) \<and> (\<exists>x < n. c' = goes_on i (k x) c)"
  by (auto elim!: tstep.cases intro: tstep.rand)

lemma step_Load_var: "code_of c i = Load_var k \<Longrightarrow>
  tstep P i c c' \<longleftrightarrow> i < length (c_tasks c) \<and> c' = goes_on i (k (c_var c)) c"
  by (auto elim: tstep.cases intro: tstep.load)

lemma step_Store_var: "code_of c i = Store_var x p \<Longrightarrow>
  tstep P i c c' \<longleftrightarrow> i < length (c_tasks c) \<and> c' = goes_on i p c\<lparr>c_var := x\<rparr>"
  by (auto elim: tstep.cases intro: tstep.store)

lemma step_Sem_init: "code_of c i = Sem_init n p \<Longrightarrow>
  tstep P i c c' \<longleftrightarrow> i < length (c_tasks c) \<and> c' = goes_on i p c\<lparr>c_sem := n\<rparr>"
  by (auto elim: tstep.cases intro: tstep.sem_init)

lemma step_Sem_wait: "code_of c i = Sem_wait p \<Longrightarrow>
  tstep P i c c' \<longleftrightarrow> i < length (c_tasks c) \<and> 0 < c_sem c \<and> c' = goes_on i p c\<lparr>c_sem := c_sem c - 1\<rparr>"
  by (auto elim: tstep.cases intro: tstep.sem_wait [simplified])

lemma step_Sem_post: "code_of c i = Sem_post p \<Longrightarrow>
  tstep P i c c' \<longleftrightarrow> i < length (c_tasks c) \<and> c' = goes_on i p c\<lparr>c_sem := c_sem c + 1\<rparr>"
  by (auto elim: tstep.cases intro: tstep.sem_post [simplified])

lemma step_Asleep: "code_of c i = Asleep fd k \<Longrightarrow>
  tstep P i c c' \<longleftrightarrow> i < length (c_tasks c) \<and> \<not> resting P i (proc_of c i) fd (c_world c) \<and> c' = goes_on i (k 0) c"
  by (auto elim!: tstep.cases intro: tstep.wake)

text \<open>Going to bed, when the command itself would not come back.\<close>

lemma step_Nap: "code_of c i = Nap fd k \<Longrightarrow>
  sleep_on_barrier (calls P (proc_of c i)) fd (c_libs c (proc_of c i)) (c_world c) = Block \<Longrightarrow>
  tstep P i c c' \<longleftrightarrow> i < length (c_tasks c)
    \<and> (\<exists>w. bed P i (proc_of c i) fd (c_world c) = Done w \<and> c' = goes_on i (Asleep fd k) c\<lparr>c_world := w\<rparr>)"
  by (auto elim!: tstep.cases intro: tstep.nap)

fun is_nap :: "prog \<Rightarrow> bool" where
  "is_nap (Nap fd k) = True"
| "is_nap p = False"

lemma step_call: "lib_call (calls P (proc_of c i)) (pass P) (code_of c i) (c_libs c (proc_of c i)) (c_world c) = Some r \<Longrightarrow>
  \<not> is_nap (code_of c i) \<Longrightarrow> tstep P i c c' \<longleftrightarrow> i < length (c_tasks c) \<and> (\<exists>p l w. r = Done (p, l, w)
    \<and> c' = goes_on i p c\<lparr>c_libs := (c_libs c)(proc_of c i := l), c_world := w\<rparr>)"
  by (auto elim!: tstep.cases intro: tstep.call)

text \<open>A call that leaves the library alone.\<close>

lemma step_lib: "lib_call (calls P (proc_of c i)) (pass P) (code_of c i) (c_libs c (proc_of c i)) (c_world c)
    = Some (Done (p, c_libs c (proc_of c i), w)) \<Longrightarrow> \<not> is_nap (code_of c i) \<Longrightarrow>
  tstep P i c c' \<longleftrightarrow> i < length (c_tasks c) \<and> c' = goes_on i p c\<lparr>c_world := w\<rparr>"
  by (simp add: step_call goes_on_def)

text \<open>A step leaves the other tasks alone, and nothing that was printed disappears.\<close>

lemma step_frame:
  assumes "tstep P i c c'"
  shows "set (lines_of j c) \<subseteq> set (lines_of j c')" and "length (c_tasks c) \<le> length (c_tasks c')"
    and "k < length (c_tasks c) \<Longrightarrow> k \<noteq> i \<Longrightarrow> c_tasks c' ! k = c_tasks c ! k"
  using assms by (induction rule: tstep.induct) (auto simp: nth_append lines_of_def)

lemma reaches_over: "\<exists>c'. (cstep P)\<^sup>*\<^sup>* c c' \<and> over P c'"
proof (induction c rule: wfp_induct_rule [OF cstep_wf [of P]])
  case (1 c)
  show ?case
  proof (cases "over P c")
    case False
    then obtain c1 where "cstep P c c1" by (auto simp: over_def)
    with 1 show ?thesis by (meson converse_rtranclp_into_rtranclp)
  qed blast
qed

end
