(* ===== verification/Parallel_Laws.thy ===== *)
theory Parallel_Laws
  imports Processes
begin

text \<open>
  Test programs of several processes or threads, on any system that keeps the laws of
  \<open>parallel_client\<close>: one task opens a group, starts tasks that write to it, waits for them and
  reads. What the tasks may do is given by predicates on trees.
\<close>

section \<open>Writers and readers\<close>

lemma was_here_eq: "was_here t = dec t @ '' was here''"
  by (simp add: was_here_def dec_int_def)

lemma was_here_facts: "nul_free (was_here t)" "was_here t \<noteq> []" "t < PID_LIMIT \<Longrightarrow> length (was_here t) < MESSAGE_SIZE"
  using length_dec_bound [of t 7]
  by (simp_all add: was_here_eq nul_free_dec PID_LIMIT_def MESSAGE_SIZE_def) (simp add: nul_free_def)

text \<open>A buffer with the text of a task.\<close>

definition signed :: "u8 list \<Rightarrow> bool" where
  "signed m \<longleftrightarrow> (\<exists>t < PID_LIMIT. \<exists>r. m = bytes_of (was_here t) @ 0 # r) \<and> length m = MESSAGE_SIZE"

text \<open>A message with the first \<open>k\<close> bytes of such a text.\<close>

definition signature :: "nat \<Rightarrow> u8 list \<Rightarrow> bool" where
  "signature k m \<longleftrightarrow> (\<exists>t < PID_LIMIT. m = payload k (was_here t))"

inductive plain :: "prog \<Rightarrow> bool" where
  plain_exit: "plain Exit"
| plain_say: "plain p \<Longrightarrow> plain (Say x p)"

text \<open>
  A program that sends \<open>n\<close> more texts to \<open>fd\<close>, whatever happens, and may close the file at the end
  if it is its own (\<open>cl\<close>).
\<close>

inductive writer :: "int \<Rightarrow> bool \<Rightarrow> nat \<Rightarrow> prog \<Rightarrow> bool" for fd cl where
  w_plain: "plain p \<Longrightarrow> writer fd cl 0 p"
| w_close: "cl \<Longrightarrow> plain p \<Longrightarrow> writer fd cl 0 (Close_group fd p)"
| w_say: "writer fd cl n p \<Longrightarrow> writer fd cl n (Say x p)"
| w_tid: "(\<And>t. t < PID_LIMIT \<Longrightarrow> writer fd cl n (k t)) \<Longrightarrow> writer fd cl n (Get_tid k)"
| w_send: "signed m \<Longrightarrow> (\<And>r. 0 \<le> r \<Longrightarrow> writer fd cl n (k r m)) \<Longrightarrow> writer fd cl (Suc n) (Send fd m k)"

inductive_cases plainE: "plain p"
inductive_cases writerE: "writer fd cl n p"

text \<open>
  A program that starts writers of \<open>n\<close> texts altogether, prints \<open>out\<close>, waits and goes on with \<open>R\<close>. If
  a task cannot be started it prints \<open>err\<close>.
\<close>

inductive starter :: "int \<Rightarrow> bool \<Rightarrow> line \<Rightarrow> prog \<Rightarrow> nat \<Rightarrow> line list \<Rightarrow> prog \<Rightarrow> bool" for fd cl err R where
  s_say: "starter fd cl err R n out p \<Longrightarrow> starter fd cl err R n (x # out) (Say x p)"
| s_fork: "cl \<Longrightarrow> writer fd cl n ch \<Longrightarrow> starter fd cl err R m out (k True) \<Longrightarrow> k False = Say err q \<Longrightarrow>
    starter fd cl err R (n + m) out (Fork ch k)"
| s_create: "\<not> cl \<Longrightarrow> writer fd cl n ch \<Longrightarrow> starter fd cl err R m out (k True) \<Longrightarrow> k False = Say err q \<Longrightarrow>
    starter fd cl err R (n + m) out (Create ch k)"
| s_join: "starter fd cl err R 0 [] (Join R)"

inductive_cases starterE: "starter fd cl err R n out p"

lemma writer_not_nap: "writer fd cl n p \<Longrightarrow> \<not> is_nap p"
  by (induction rule: writer.induct) (auto elim: plain.cases)

lemma sends_writer:
  assumes "t < PID_LIMIT" and "length msg = MESSAGE_SIZE" and "\<And>m. length m = MESSAGE_SIZE \<Longrightarrow> writer fd cl 0 (ok m)"
  shows "writer fd cl (length is) (send_loop fd (\<lambda>_. was_here t) is msg ok fail)"
  using assms(2)
proof (induction "is" arbitrary: msg)
  case Nil
  with assms(3) show ?case by simp
next
  case (Cons i "is")
  let ?m = "bytes_of (was_here t) @ 0 # drop (length (was_here t) + 1) msg"
  have len: "length (was_here t) < MESSAGE_SIZE" by (rule was_here_facts(3) [OF assms(1)])
  with Cons.prems have m: "length ?m = MESSAGE_SIZE" by simp
  with assms(1) have "signed ?m" unfolding signed_def by blast
  then have "writer fd cl (Suc (length is)) (Send fd ?m (\<lambda>ret msg. if ret < 0 then Say (Write_err i) (fail msg)
      else Say (Written (cstr msg)) (send_loop fd (\<lambda>_. was_here t) is msg ok fail)))"
    using Cons.IH [OF m] by (intro w_send) (auto intro: w_say)
  moreover have "\<not> length msg < length (was_here t) + 1" using len Cons.prems by simp
  ultimately show ?case by (simp add: sprintf_to_def)
qed

lemma plain_ends: "plain ends"
  by (simp add: ends_def plain_exit plain_say)

text \<open>The children and threads of the test programs.\<close>

lemma mp_child_writer: "writer fd True n (mp_child fd n)"
  using sends_writer [of _ zeros fd True "\<lambda>_. Close_group fd ends" "[0..<n]"]
  by (auto simp: mp_child_def intro!: w_say w_tid w_close plain_ends)

lemma mt_thread_writer: "0 \<le> fd \<Longrightarrow> writer fd False (ITERATIONS + 1) (mt_thread fd)"
  using sends_writer [of _ zeros fd False "\<lambda>_. ends" "[0..<ITERATIONS + 1]"]
  by (auto simp: mt_thread_def intro!: w_say w_tid w_plain plain_ends)

text \<open>The loops that start them.\<close>

lemma fork_starter:
  assumes "\<And>i. writer fd True (f i) (child i)" and "starter fd True (Note ''ERR: fork'') R m out ok"
  shows "starter fd True (Note ''ERR: fork'') R (sum_list (map f xs) + m) out (fork_all child xs ok fail)"
proof (induction xs)
  case (Cons i xs)
  from s_fork [OF _ assms(1) [of i], of "Note ''ERR: fork''" R _ out "\<lambda>done. if done then fork_all child xs ok fail else Say (Note ''ERR: fork'') fail"] Cons
  show ?case by (simp add: add.assoc)
qed (simp add: assms(2))

lemma create_starter:
  assumes "writer fd False n thread" and "starter fd False (Note ''ERR: pthread_create'') R m out ok"
  shows "starter fd False (Note ''ERR: pthread_create'') R (length xs * n + m) out (create_all thread xs ok fail)"
proof (induction xs)
  case (Cons i xs)
  from s_create [OF _ assms(1), of "Note ''ERR: pthread_create''" R _ out "\<lambda>done. if done then create_all thread xs ok fail else Say (Note ''ERR: pthread_create'') fail"] Cons
  show ?case by (simp add: add.assoc)
qed (simp add: assms(2))

section \<open>The states of such a program\<close>

text \<open>A task that still writes: its program, its file and its process.\<close>

definition writing :: "'w view \<Rightarrow> int \<Rightarrow> bool \<Rightarrow> u8 \<Rightarrow> 'w \<Rightarrow> (nat \<Rightarrow> lib) \<Rightarrow> nat \<Rightarrow> task \<Rightarrow> bool" where
  "writing V fd cl b w libs n t \<longleftrightarrow> writer fd cl n (t_code t) \<and> t_parent t = 0 \<and> (plain (t_code t) \<or> uses V w (t_proc t) fd b)
     \<and> lib_max_message_size (libs (t_proc t)) = size_of V w"

text \<open>The group as the first task sees it.\<close>

definition filled :: "'w view \<Rightarrow> nat \<Rightarrow> int \<Rightarrow> u8 \<Rightarrow> 'w \<Rightarrow> (nat \<Rightarrow> lib) \<Rightarrow> u8 list list \<Rightarrow> bool" where
  "filled V K fd b w libs ms \<longleftrightarrow> sane V w \<and> uses V w 0 fd b \<and> lib_max_message_size (libs 0) = size_of V w
     \<and> \<not> delayed V w b \<and> box V w b = \<lparr>avail = ms, held = []\<rparr> \<and> list_all (signature K) ms
     \<and> unat (size_of V w) = K \<and> K < MESSAGE_SIZE"

text \<open>Forked tasks have a process each; threads share process 0.\<close>

definition apart :: "bool \<Rightarrow> task list \<Rightarrow> bool" where
  "apart cl ts \<longleftrightarrow> (let ps = map t_proc ts in if cl then distinct ps \<and> (\<forall>q \<in> set ps. q < length ps) else set ps \<subseteq> {0})"

lemma apart_code: "map t_proc ts' = map t_proc ts \<Longrightarrow> apart cl ts' = apart cl ts"
  unfolding apart_def by simp

text \<open>
  Before the first task has waited; after that, when it runs alone, as if it had started \<open>R\<close> with
  the library \<open>l\<close> in the world \<open>w\<close> and the lines \<open>pre\<close>; and after a failure.
\<close>

definition filling :: "'w view \<Rightarrow> nat \<Rightarrow> int \<Rightarrow> bool \<Rightarrow> line \<Rightarrow> u8 \<Rightarrow> prog \<Rightarrow> nat \<Rightarrow> line list \<Rightarrow> 'w conf \<Rightarrow> bool" where
  "filling V K fd cl err b R T pre c \<longleftrightarrow> (\<exists>t ts ns n out ms. c_tasks c = t # ts \<and> t_proc t = 0
     \<and> starter fd cl err R n out (t_code t) \<and> lines_of 0 c @ out = pre
     \<and> list_all2 (writing V fd cl b (c_world c) (c_libs c)) ns ts \<and> filled V K fd b (c_world c) (c_libs c) ms
     \<and> length ms + sum_list ns + n = T \<and> T \<le> cap V (c_world c) \<and> apart cl (t # ts))"

definition alone :: "('w, 'x) platform \<Rightarrow> prog \<Rightarrow> line list \<Rightarrow> lib \<Rightarrow> 'w \<Rightarrow> 'w conf \<Rightarrow> bool" where
  "alone P R pre l w c \<longleftrightarrow> (\<exists>t ts. c_tasks c = t # ts \<and> t_proc t = 0 \<and> list_all (\<lambda>t. t_code t = Exit) ts
     \<and> after (lines_of 0 c) (run (calls P 0) (pass P) (t_code t) (c_libs c 0) (c_world c)) = after pre (run (calls P 0) (pass P) R l w))"

definition reading :: "'w view \<Rightarrow> ('w, 'x) platform \<Rightarrow> nat \<Rightarrow> int \<Rightarrow> u8 \<Rightarrow> prog \<Rightarrow> nat \<Rightarrow> line list \<Rightarrow> 'w conf \<Rightarrow> bool" where
  "reading V P K fd b R T pre c \<longleftrightarrow> (\<exists>libs w ms. filled V K fd b w libs ms \<and> length ms = T \<and> alone P R pre (libs 0) w c)"

definition failed :: "('w, 'x) platform \<Rightarrow> line \<Rightarrow> 'w conf \<Rightarrow> bool" where
  "failed P err c \<longleftrightarrow> may_fail P \<and> c_tasks c \<noteq> [] \<and> (err \<in> set (lines_of 0 c) \<or> (\<exists>q. code_of c 0 = Say err q))"

text \<open>Before the group is opened.\<close>

definition unopened :: "u8 \<Rightarrow> (int \<Rightarrow> prog) \<Rightarrow> lib \<Rightarrow> 'w \<Rightarrow> 'w conf \<Rightarrow> bool" where
  "unopened b SP l w c \<longleftrightarrow> (\<exists>t. c_tasks c = [t] \<and> t_proc t = 0 \<and> c_libs c 0 = l \<and> c_world c = w
     \<and> (t_code t = begins (open_or b ends SP) \<and> lines_of 0 c = []
       \<or> t_code t = open_or b ends SP \<and> lines_of 0 c = [Note ''EXECUTING'']))"

text \<open>Just after that.\<close>

definition opened :: "'w view \<Rightarrow> nat \<Rightarrow> nat \<Rightarrow> int \<Rightarrow> u8 \<Rightarrow> (int \<Rightarrow> prog) \<Rightarrow> 'w conf \<Rightarrow> bool" where
  "opened V K C fd b SP c \<longleftrightarrow> (\<exists>t. c_tasks c = [t] \<and> t_proc t = 0 \<and> t_code t = Say (Opened b fd) (SP fd)
     \<and> lines_of 0 c = [Note ''EXECUTING''] \<and> filled V K fd b (c_world c) (c_libs c) [] \<and> cap V (c_world c) = C)"

text \<open>
  What a writer in process \<open>q\<close> with \<open>n\<close> texts to send does to the world, when \<open>n'\<close> are left: texts come to
  its group, and only its own files may be closed.
\<close>

definition writes_on :: "'w view \<Rightarrow> nat \<Rightarrow> bool \<Rightarrow> nat \<Rightarrow> u8 \<Rightarrow> nat \<Rightarrow> nat \<Rightarrow> 'w \<Rightarrow> 'w \<Rightarrow> bool" where
  "writes_on V K cl q b n n' w w' \<longleftrightarrow> sane V w' \<and> delayed V w' = delayed V w \<and> cap V w' = cap V w \<and> size_of V w' = size_of V w
     \<and> (\<forall>r. cl \<and> r = q \<or> uses V w' r = uses V w r)
     \<and> (\<exists>xs. list_all (signature K) xs \<and> n = n' + length xs \<and> box V w' = (box V w)(b := (box V w b)\<lparr>avail := avail (box V w b) @ xs\<rparr>))"

lemma writes_on_same:
  "sane V w' \<Longrightarrow> delayed V w' = delayed V w \<Longrightarrow> cap V w' = cap V w \<Longrightarrow> size_of V w' = size_of V w \<Longrightarrow> box V w' = box V w \<Longrightarrow>
   (\<forall>r. cl \<and> r = q \<or> uses V w' r = uses V w r) \<Longrightarrow> writes_on V K cl q b n n w w'"
  unfolding writes_on_def by (intro conjI exI [of _ "[]"]) simp_all

lemma writing_frame:
  assumes "writing V fd cl b w libs n t" and "plain (t_code t) \<or> uses V w' (t_proc t) fd b = uses V w (t_proc t) fd b"
    and "size_of V w' = size_of V w" and "lib_max_message_size (libs' (t_proc t)) = lib_max_message_size (libs (t_proc t))"
  shows "writing V fd cl b w' libs' n t"
  using assms by (auto simp: writing_def)

lemma writers_frame:
  assumes "list_all2 (writing V fd cl b w libs) ns ts" and "\<forall>u \<in> set ts. uses V w' (t_proc u) fd b = uses V w (t_proc u) fd b"
    and "size_of V w' = size_of V w" and "\<forall>u \<in> set ts. lib_max_message_size (libs' (t_proc u)) = lib_max_message_size (libs (t_proc u))"
  shows "list_all2 (writing V fd cl b w' libs') ns ts"
  using assms(1)
proof (rule list.rel_mono_strong)
  fix n u assume "u \<in> set ts" and "writing V fd cl b w libs n u"
  with assms(2-4) show "writing V fd cl b w' libs' n u" by (simp add: writing_frame [of V fd cl b w libs])
qed

lemma after_DoneD: "after a X = after b (Done r) \<Longrightarrow> \<exists>r'. X = Done r'"
  by (cases X) (auto simp: after_def split: prod.splits)

lemma writer_exit: "writer fd cl n Exit \<longleftrightarrow> n = 0"
  by (auto elim: writerE plainE intro: w_plain plain_exit)

text \<open>When all other tasks have ended only the first one goes on.\<close>

lemma exits_stop:
  assumes "c_tasks c = t # ts" and "list_all (\<lambda>u. t_code u = Exit) ts" and "tstep P i c c'"
  shows "i = 0"
proof (cases i)
  case (Suc j)
  with step_index [OF assms(3)] assms(1,2) have "code_of c i = Exit" by (simp add: list_all_length)
  with assms(3) step_Exit show ?thesis by blast
qed

section \<open>Systems with several processes\<close>

locale parallel_client = group_client "calls P" "pass P" delays V
  for P :: "('w, 'x) platform" and delays and V :: "'w view" +
  assumes spawns: "sane V w \<Longrightarrow> sane V (spawn P p q w)
      \<and> (\<forall>r fd b. uses V (spawn P p q w) r fd b \<longleftrightarrow> uses V w (if r = q then p else r) fd b)
      \<and> box V (spawn P p q w) = box V w \<and> delayed V (spawn P p q w) = delayed V w
      \<and> cap V (spawn P p q w) = cap V w \<and> size_of V (spawn P p q w) = size_of V w"
    and beds: "uses V w p fd b \<Longrightarrow> \<exists>w'. bed P i p fd w = Done w' \<and> sane V w' \<and> uses V w' = uses V w \<and> box V w' = box V w
      \<and> delayed V w' = delayed V w \<and> cap V w' = cap V w \<and> size_of V w' = size_of V w \<and> resting P i p fd w'"
    and beds_block: "bed P i p fd w = Done w' \<Longrightarrow> 0 \<le> fd \<and> os_ioctl (calls P p) fd IOCTL_SLEEP_ON_BARRIER No_arg w = Block"
begin

text \<open>A task that runs alone does what \<open>run\<close> says.\<close>

lemma alone_step:
  assumes "tstep P 0 c c'" and "c_tasks c = t # ts" and "t_proc t = 0"
    and "run (calls P 0) (pass P) (t_code t) (c_libs c 0) (c_world c) = Done r"
  shows "\<exists>p. c_tasks c' = t\<lparr>t_code := p\<rparr> # ts
    \<and> after (lines_of 0 c') (run (calls P 0) (pass P) p (c_libs c' 0) (c_world c')) = after (lines_of 0 c) (Done r)"
  using assms
proof (cases rule: tstep.cases)
  case (say x p)
  with assms(2-4) show ?thesis by (cases "run (calls P 0) (pass P) p (c_libs c 0) (c_world c)") (auto simp: after_def)
next
  case (call p l w)
  with assms(2,3) have "lib_call (calls P 0) (pass P) (t_code t) (c_libs c 0) (c_world c) = Some (Done (p, l, w))" by simp
  from run_lib_call [OF this] assms(4) call(1) assms(2,3) show ?thesis by (intro exI [of _ p]) simp
next
  case (nap fd k w)
  with assms(2,3) have "bed P 0 0 fd (c_world c) = Done w" by simp
  from beds_block [OF this] assms(4) nap assms(2) show ?thesis by (simp add: sleep_on_barrier_def)
qed (use assms in auto)

lemma alone_goes_on:
  assumes "0 < length (c_tasks c)" and "proc_of c 0 = 0" and "run (calls P 0) (pass P) (code_of c 0) (c_libs c 0) (c_world c) = Done r"
    and "code_of c 0 \<noteq> Exit"
  shows "\<exists>c'. tstep P 0 c c'"
proof (cases "lib_call (calls P 0) (pass P) (code_of c 0) (c_libs c 0) (c_world c)")
  case (Some q)
  from run_lib_call [OF Some] assms(3) obtain p l w where "q = Done (p, l, w)" by (cases q) auto
  with Some assms(2) have "lib_call (calls P (proc_of c 0)) (pass P) (code_of c 0) (c_libs c (proc_of c 0)) (c_world c) = Some (Done (p, l, w))"
    by simp
  from tstep.call [OF assms(1) this] show ?thesis by blast
next
  case None
  with assms(3,4) obtain x p where "code_of c 0 = Say x p" by (cases "code_of c 0") auto
  with assms(1) show ?thesis by (auto intro: tstep.say)
qed

lemma sends_signed:
  assumes "uses V w p fd b" and "lib_max_message_size l = size_of V w" and "unat (size_of V w) < MESSAGE_SIZE"
    and "signed m" and "\<not> delayed V w b" and "stored (box V w b) < cap V w"
  shows "\<exists>ret w' x. send_message (calls P p) fd (Some m) l w = Done (ret, Some m, l, w') \<and> 0 \<le> ret
    \<and> signature (unat (size_of V w)) x \<and> acts V b [Post x] w w'"
proof -
  from assms(4) obtain t r where t: "t < PID_LIMIT" and m: "m = bytes_of (was_here t) @ 0 # r" and len: "length m = MESSAGE_SIZE"
    unfolding signed_def by blast
  let ?x = "payload (unat (size_of V w)) (was_here t)"
  from sends_text [OF assms(1-3) was_here_facts(1,2) len [unfolded m]] assms(5,6) obtain w' where
    "send_message (calls P p) fd (Some m) l w = Done (int (length ?x), Some m, l, w')" and "acts V b [Post ?x] w w'"
    by (auto simp: m store_op_def)
  with t show ?thesis unfolding signature_def by fastforce
qed

text \<open>One step of a writer, and that it can make one.\<close>

lemma writer_move:
  assumes step: "tstep P i c c'" and t: "c_tasks c ! i = t" and wr: "writer fd cl n (t_code t)"
    and u: "plain (t_code t) \<or> uses V (c_world c) (t_proc t) fd b" and l: "lib_max_message_size (c_libs c (t_proc t)) = size_of V (c_world c)"
    and sane: "sane V (c_world c)" and K: "unat (size_of V (c_world c)) = K" "K < MESSAGE_SIZE"
    and room: "\<not> delayed V (c_world c) b" "stored (box V (c_world c) b) + n \<le> cap V (c_world c)"
  shows "\<exists>p n'. c_tasks c' = (c_tasks c)[i := t\<lparr>t_code := p\<rparr>] \<and> (\<forall>j. j \<noteq> i \<longrightarrow> lines_of j c' = lines_of j c) \<and> c_libs c' = c_libs c
    \<and> writer fd cl n' p \<and> (plain p \<or> uses V (c_world c') (t_proc t) fd b) \<and> writes_on V K cl (t_proc t) b n n' (c_world c) (c_world c')"
proof -
  let ?w = "c_world c" and ?l = "c_libs c (t_proc t)"
  have stay: "writes_on V K cl (t_proc t) b m m ?w ?w" for m by (rule writes_on_same [OF sane]) simp_all
  have call: "c' = goes_on i p c\<lparr>c_world := w'\<rparr>"
    if "lib_call (calls P (t_proc t)) (pass P) (t_code t) ?l ?w = Some (Done (p, ?l, w'))" for p w'
    using step_lib [of P c i p w' c'] step that writer_not_nap [OF wr] by (simp add: t)
  from wr show ?thesis
  proof (cases rule: writer.cases)
    case w_plain
    from w_plain(2) show ?thesis
    proof (cases rule: plain.cases)
      case plain_exit
      with step step_Exit [of c i P c'] t show ?thesis by simp
    next
      case (plain_say p x)
      with step t w_plain(1) stay show ?thesis
        by (intro exI [of _ p] exI [of _ 0]) (auto simp: step_Say intro: writer.w_plain)
    qed
  next
    case (w_close p)
    then have use: "uses V ?w (t_proc t) fd b" using u by (auto elim: plainE)
    from closes [OF use] uses_sane [OF use] obtain w' where close: "close_group (calls P (t_proc t)) fd ?l ?w = Done (?l, w')"
      and s': "sane V w'" "\<forall>q fd' e. uses V w' q fd' e \<longleftrightarrow> uses V ?w q fd' e \<and> (q, fd') \<noteq> (t_proc t, fd)"
      "box V w' = box V ?w" "delayed V w' = delayed V ?w" "cap V w' = cap V ?w" "size_of V w' = size_of V ?w"
      by (auto simp: close_group_def)
    have c': "c' = goes_on i p c\<lparr>c_world := w'\<rparr>" by (rule call) (simp add: close w_close)
    have "writes_on V K cl (t_proc t) b 0 0 ?w w'"
      using s' w_close(3) by (intro writes_on_same) (auto simp: fun_eq_iff)
    with w_close t show ?thesis by (intro exI [of _ p] exI [of _ 0]) (simp add: c' writer.w_plain)
  next
    case (w_say p x)
    then have use: "uses V ?w (t_proc t) fd b \<or> plain p" using u by (auto elim: plainE)
    from w_say step have c': "c' = goes_on i p c\<lparr>c_lines := c_lines c @ [(i, x)]\<rparr>" by (simp add: step_Say t)
    show ?thesis using w_say use t stay by (intro exI [of _ p] exI [of _ n]) (auto simp: c')
  next
    case (w_tid k)
    then have use: "uses V ?w (t_proc t) fd b" using u by (auto elim: plainE)
    from w_tid step obtain x where x: "x < PID_LIMIT" and c': "c' = goes_on i (k x) c" by (auto simp: step_Get_tid t)
    show ?thesis using w_tid(2) [OF x] use t stay by (intro exI [of _ "k x"] exI [of _ n]) (simp add: c')
  next
    case (w_send m n1 k)
    then have use: "uses V ?w (t_proc t) fd b" using u by (auto elim: plainE)
    from room w_send(1) have less: "stored (box V ?w b) < cap V ?w" by simp
    from sends_signed [OF use l K(2) [folded K(1)] w_send(3) room(1) less] obtain ret w' x where
      send: "send_message (calls P (t_proc t)) fd (Some m) ?l ?w = Done (ret, Some m, ?l, w')" and ret: "0 \<le> ret"
      and x: "signature (unat (size_of V ?w)) x" and act: "acts V b [Post x] ?w w'" by blast
    have c': "c' = goes_on i (k ret m) c\<lparr>c_world := w'\<rparr>" by (rule call) (simp add: send w_send)
    have "writes_on V K cl (t_proc t) b n n1 ?w w'"
      unfolding writes_on_def using act x K(1) w_send(1) by (intro conjI exI [of _ "[x]"]) (auto simp: acts_def)
    with w_send(4) [OF ret] t use act show ?thesis by (intro exI [of _ "k ret m"] exI [of _ n1]) (simp add: c' acts_def)
  qed
qed

lemma writer_goes_on:
  assumes i: "i < length (c_tasks c)" and t: "c_tasks c ! i = t" and wr: "writer fd cl n (t_code t)" and ne: "t_code t \<noteq> Exit"
    and u: "plain (t_code t) \<or> uses V (c_world c) (t_proc t) fd b" and l: "lib_max_message_size (c_libs c (t_proc t)) = size_of V (c_world c)"
    and K: "unat (size_of V (c_world c)) < MESSAGE_SIZE"
    and room: "\<not> delayed V (c_world c) b" "stored (box V (c_world c) b) + n \<le> cap V (c_world c)"
  shows "\<exists>c'. tstep P i c c'"
proof -
  let ?w = "c_world c" and ?l = "c_libs c (t_proc t)"
  have call: "\<exists>c'. tstep P i c c'"
    if "lib_call (calls P (t_proc t)) (pass P) (t_code t) ?l ?w = Some (Done (p, ?l, w'))" for p w'
    using tstep.call [OF i, of P p ?l w'] that by (auto simp: t)
  from wr show ?thesis
  proof (cases rule: writer.cases)
    case w_plain
    with ne show ?thesis using i by (auto simp: step_Say t elim: plain.cases)
  next
    case (w_close p)
    then have use: "uses V ?w (t_proc t) fd b" using u by (auto elim: plainE)
    from closes [OF use] uses_sane [OF use] w_close show ?thesis by (auto simp: close_group_def intro: call)
  next
    case (w_say p x)
    then show ?thesis using i by (simp add: step_Say t)
  next
    case (w_tid k)
    then show ?thesis using i by (auto simp: step_Get_tid t PID_LIMIT_def intro: exI [of _ 0])
  next
    case (w_send m n1 k)
    then have use: "uses V ?w (t_proc t) fd b" using u by (auto elim: plainE)
    from room w_send(1) have "stored (box V ?w b) < cap V ?w" by simp
    from sends_signed [OF use l K w_send(3) room(1) this] w_send show ?thesis by (auto intro: call)
  qed
qed

text \<open>The same for a task that writes to the group of the first task.\<close>

lemma writer_step:
  assumes step: "tstep P i c c'" and tasks: "c_tasks c = t0 # ts" and i: "i = Suc j" and j: "j < length ts"
    and wr: "writing V fd cl b (c_world c) (c_libs c) n (ts ! j)" and fd: "filled V K fd b (c_world c) (c_libs c) ms"
    and room: "length ms + n \<le> cap V (c_world c)" and own: "cl \<Longrightarrow> t_proc (ts ! j) \<noteq> 0"
  shows "\<exists>p n' ms'. c_tasks c' = t0 # ts[j := (ts ! j)\<lparr>t_code := p\<rparr>] \<and> lines_of 0 c' = lines_of 0 c
    \<and> writing V fd cl b (c_world c') (c_libs c') n' ((ts ! j)\<lparr>t_code := p\<rparr>) \<and> filled V K fd b (c_world c') (c_libs c') ms'
    \<and> length ms' + n' = length ms + n \<and> cap V (c_world c') = cap V (c_world c) \<and> size_of V (c_world c') = size_of V (c_world c)
    \<and> (\<forall>q. lib_max_message_size (c_libs c' q) = lib_max_message_size (c_libs c q))
    \<and> (\<forall>q. cl \<and> q = t_proc (ts ! j) \<or> uses V (c_world c') q fd b = uses V (c_world c) q fd b)"
proof -
  let ?t = "ts ! j" and ?w = "c_world c"
  have at: "c_tasks c ! i = ?t" using tasks i by simp
  from wr have w: "writer fd cl n (t_code ?t)" and u: "plain (t_code ?t) \<or> uses V ?w (t_proc ?t) fd b"
    and l: "lib_max_message_size (c_libs c (t_proc ?t)) = size_of V ?w" and par: "t_parent ?t = 0" by (simp_all add: writing_def)
  from fd have f: "sane V ?w" "unat (size_of V ?w) = K" "K < MESSAGE_SIZE" "\<not> delayed V ?w b" "box V ?w b = \<lparr>avail = ms, held = []\<rparr>"
    by (simp_all add: filled_def)
  have "stored (box V ?w b) + n \<le> cap V ?w" using room f(5) by (simp add: stored_def)
  from writer_move [OF step at w u l f(1-4) this] obtain p n' where
    c': "c_tasks c' = (c_tasks c)[i := ?t\<lparr>t_code := p\<rparr>]" "\<forall>j. j \<noteq> i \<longrightarrow> lines_of j c' = lines_of j c" "c_libs c' = c_libs c"
    and w': "writer fd cl n' p" "plain p \<or> uses V (c_world c') (t_proc ?t) fd b" and on: "writes_on V K cl (t_proc ?t) b n n' ?w (c_world c')"
    by blast
  from on obtain xs where xs: "list_all (signature K) xs" "n = n' + length xs"
    "box V (c_world c') = (box V ?w)(b := (box V ?w b)\<lparr>avail := avail (box V ?w b) @ xs\<rparr>)" unfolding writes_on_def by blast
  have others: "cl \<and> r = t_proc ?t \<or> uses V (c_world c') r = uses V ?w r" for r using on unfolding writes_on_def by blast
  from others [of 0] own have "uses V (c_world c') 0 fd b = uses V ?w 0 fd b" by metis
  with fd on xs c'(3) have "filled V K fd b (c_world c') (c_libs c') (ms @ xs)" by (simp add: filled_def writes_on_def)
  moreover have "writing V fd cl b (c_world c') (c_libs c') n' (?t\<lparr>t_code := p\<rparr>)"
    using w' l par on c'(3) by (simp add: writing_def writes_on_def)
  moreover have "\<forall>q. cl \<and> q = t_proc ?t \<or> uses V (c_world c') q fd b = uses V ?w q fd b" using others by metis
  ultimately show ?thesis using c' tasks i xs(2) on
    by (intro exI [of _ p] exI [of _ n'] exI [of _ "ms @ xs"]) (simp add: writes_on_def)
qed

text \<open>One step of the first task while it starts the others.\<close>

lemma starter_step:
  assumes "filling V K fd cl err b R T pre c" and step: "tstep P 0 c c'"
  shows "filling V K fd cl err b R T pre c' \<or> reading V P K fd b R T pre c' \<or> failed P err c'"
proof -
  from assms(1) obtain t ts ns n out ms where tasks: "c_tasks c = t # ts" and p0: "t_proc t = 0"
    and st: "starter fd cl err R n out (t_code t)" and lines: "lines_of 0 c @ out = pre"
    and wr: "list_all2 (writing V fd cl b (c_world c) (c_libs c)) ns ts" and fd: "filled V K fd b (c_world c) (c_libs c) ms"
    and T: "length ms + sum_list ns + n = T" "T \<le> cap V (c_world c)" and ap: "apart cl (t # ts)"
    unfolding filling_def by blast
  have at: "c_tasks c ! 0 = t" using tasks by simp
  from st show ?thesis
  proof (cases rule: starter.cases)
    case (s_say out' p x)
    with step have c': "c' = goes_on 0 p c\<lparr>c_lines := c_lines c @ [(0, x)]\<rparr>" by (simp add: step_Say at)
    have "apart cl (t\<lparr>t_code := p\<rparr> # ts)" using ap apart_code [of "t\<lparr>t_code := p\<rparr> # ts" "t # ts" cl] by simp
    then have "filling V K fd cl err b R T pre c'"
      unfolding filling_def c' using s_say tasks p0 lines wr fd T
      by (intro exI [of _ "t\<lparr>t_code := p\<rparr>"] exI [of _ ts] exI [of _ ns] exI [of _ n] exI [of _ out'] exI [of _ ms]) simp
    then show ?thesis by blast
  next
    case (s_fork n ch m k q)
    let ?q = "length (c_tasks c)" and ?w = "c_world c"
    let ?new = "\<lparr>t_proc = ?q, t_parent = 0, t_code = ch\<rparr>"
    let ?c = "adds 0 ?q ch (goes_on 0 (k True) c)\<lparr>c_libs := (c_libs c)(?q := c_libs c 0), c_world := spawn P 0 ?q ?w\<rparr>"
    from s_fork step consider (good) "c' = ?c" | (bad) "may_fail P" "c' = goes_on 0 (k False) c"
      using p0 by (auto simp: step_Fork at)
    then show ?thesis
    proof cases
      case bad
      then have "failed P err c'" using s_fork tasks by (simp add: failed_def)
      then show ?thesis by blast
    next
      case good
      from fd have sane: "sane V ?w" by (simp add: filled_def)
      note sp = spawns [OF sane, of 0 ?q]
      have q: "0 < ?q" using tasks by simp
      have fd': "filled V K fd b (spawn P 0 ?q ?w) ((c_libs c)(?q := c_libs c 0)) ms" using fd sp q by (simp add: filled_def)
      from ap s_fork(3) have procs: "distinct (map t_proc (t # ts))" "\<forall>u \<in> set (t # ts). t_proc u < ?q"
        using tasks by (auto simp: apart_def list_all_iff)
      have "list_all2 (writing V fd cl b (spawn P 0 ?q ?w) ((c_libs c)(?q := c_libs c 0))) ns ts"
        using wr by (rule writers_frame) (use sp procs in auto)
      moreover have "writing V fd cl b (spawn P 0 ?q ?w) ((c_libs c)(?q := c_libs c 0)) n ?new"
        using s_fork(4) fd sp by (simp add: writing_def filled_def)
      ultimately have all: "list_all2 (writing V fd cl b (spawn P 0 ?q ?w) ((c_libs c)(?q := c_libs c 0))) (ns @ [n]) (ts @ [?new])"
        by (simp add: list_all2_appendI)
      have ap': "apart cl (t\<lparr>t_code := k True\<rparr> # ts @ [?new])"
        using procs s_fork(3) tasks unfolding apart_def by auto
      have "filling V K fd cl err b R T pre c'"
        unfolding filling_def good using s_fork tasks p0 lines all fd' T ap' sp fd
        by (intro exI [of _ "t\<lparr>t_code := k True\<rparr>"] exI [of _ "ts @ [?new]"] exI [of _ "ns @ [n]"] exI [of _ m]
            exI [of _ out] exI [of _ ms]) (simp add: filled_def)
      then show ?thesis by blast
    qed
  next
    case (s_create n ch m k q)
    let ?new = "\<lparr>t_proc = 0, t_parent = 0, t_code = ch\<rparr>"
    from s_create step consider (good) "c' = adds 0 0 ch (goes_on 0 (k True) c)" | (bad) "may_fail P" "c' = goes_on 0 (k False) c"
      using p0 by (auto simp: step_Create at)
    then show ?thesis
    proof cases
      case bad
      then have "failed P err c'" using s_create tasks by (simp add: failed_def)
      then show ?thesis by blast
    next
      case good
      have "writing V fd cl b (c_world c) (c_libs c) n ?new" using s_create(4) fd by (simp add: writing_def filled_def)
      with wr have all: "list_all2 (writing V fd cl b (c_world c) (c_libs c)) (ns @ [n]) (ts @ [?new])"
        by (simp add: list_all2_appendI)
      have ap': "apart cl (t\<lparr>t_code := k True\<rparr> # ts @ [?new])" using ap s_create(3) by (simp add: apart_def)
      have "filling V K fd cl err b R T pre c'"
        unfolding filling_def good using s_create tasks p0 lines all fd T ap'
        by (intro exI [of _ "t\<lparr>t_code := k True\<rparr>"] exI [of _ "ts @ [?new]"] exI [of _ "ns @ [n]"] exI [of _ m]
            exI [of _ out] exI [of _ ms]) simp
      then show ?thesis by blast
    qed
  next
    case s_join
    with step have c': "c' = goes_on 0 R c" and gone: "list_all (\<lambda>u. t_parent u = 0 \<longrightarrow> t_code u = Exit) ts"
      using tasks by (auto simp: step_Join at)
    have "list_all (\<lambda>u. t_code u = Exit) ts"
      using wr gone by (auto simp: list_all_length list_all2_conv_all_nth writing_def)
    moreover from wr this have "sum_list ns = 0"
      by (auto simp: list_all_length list_all2_conv_all_nth writing_def writer_exit in_set_conv_nth)
    then have "length ms = T" using T(1) s_join(1) by linarith
    ultimately have "reading V P K fd b R T pre c'"
      unfolding reading_def alone_def c' using s_join tasks p0 lines fd
      by (intro exI [of _ "c_libs c"] exI [of _ "c_world c"] exI [of _ ms]) simp
    then show ?thesis by blast
  qed
qed

text \<open>One step of another task.\<close>

lemma filling_step:
  assumes "filling V K fd cl err b R T pre c" and step: "tstep P i c c'"
  shows "filling V K fd cl err b R T pre c' \<or> reading V P K fd b R T pre c' \<or> failed P err c'"
proof (cases i)
  case 0
  with starter_step [OF assms(1)] step show ?thesis by simp
next
  case (Suc j)
  from assms(1) obtain t ts ns n out ms where tasks: "c_tasks c = t # ts" and p0: "t_proc t = 0"
    and st: "starter fd cl err R n out (t_code t)" and lines: "lines_of 0 c @ out = pre"
    and wr: "list_all2 (writing V fd cl b (c_world c) (c_libs c)) ns ts" and fd: "filled V K fd b (c_world c) (c_libs c) ms"
    and T: "length ms + sum_list ns + n = T" "T \<le> cap V (c_world c)" and ap: "apart cl (t # ts)"
    unfolding filling_def by blast
  from step_index [OF step] have j: "j < length ts" "j < length ns" using tasks Suc list_all2_lengthD [OF wr] by simp_all
  from list_all2_nthD2 [OF wr j(1)] have w: "writing V fd cl b (c_world c) (c_libs c) (ns ! j) (ts ! j)" .
  from j(2) have le: "ns ! j \<le> sum_list ns" by (simp add: member_le_sum_list)
  with T have room: "length ms + ns ! j \<le> cap V (c_world c)" by linarith
  have own: "t_proc (ts ! j) \<noteq> 0" if cl using ap p0 that j(1) by (auto simp: apart_def)
  from writer_step [OF step tasks Suc j(1) w fd room own] obtain p n' ms' where
    tasks': "c_tasks c' = t # ts[j := (ts ! j)\<lparr>t_code := p\<rparr>]" and lines': "lines_of 0 c' = lines_of 0 c"
    and w': "writing V fd cl b (c_world c') (c_libs c') n' ((ts ! j)\<lparr>t_code := p\<rparr>)" and fd': "filled V K fd b (c_world c') (c_libs c') ms'"
    and sum: "length ms' + n' = length ms + ns ! j" and cap: "cap V (c_world c') = cap V (c_world c)"
    and size: "size_of V (c_world c') = size_of V (c_world c)"
    and libs: "\<forall>q. lib_max_message_size (c_libs c' q) = lib_max_message_size (c_libs c q)"
    and uses: "\<forall>q. cl \<and> q = t_proc (ts ! j) \<or> uses V (c_world c') q fd b = uses V (c_world c) q fd b" by blast
  have all: "list_all2 (writing V fd cl b (c_world c') (c_libs c')) (ns[j := n']) (ts[j := (ts ! j)\<lparr>t_code := p\<rparr>])"
  proof (rule list_all2_all_nthI)
    fix i assume i: "i < length (ns[j := n'])"
    show "writing V fd cl b (c_world c') (c_libs c') (ns[j := n'] ! i) (ts[j := (ts ! j)\<lparr>t_code := p\<rparr>] ! i)"
    proof (cases "i = j")
      case True
      with w' j show ?thesis by simp
    next
      case False
      have "t_proc (ts ! i) \<noteq> t_proc (ts ! j)" if cl
      proof -
        from ap that have "distinct (map t_proc ts)" by (simp add: apart_def)
        from nth_eq_iff_index_eq [OF this, of i j] show ?thesis using False i j list_all2_lengthD [OF wr] by simp
      qed
      with uses have "uses V (c_world c') (t_proc (ts ! i)) fd b = uses V (c_world c) (t_proc (ts ! i)) fd b" by blast
      with list_all2_nthD [OF wr, of i] i False size libs show ?thesis by (auto intro: writing_frame)
    qed
  qed (use list_all2_lengthD [OF wr] in simp)
  have "sum_list (ns[j := n']) = sum_list ns + n' - ns ! j" using j(2) by (rule sum_list_update)
  with sum le T(1) have T': "length ms' + sum_list (ns[j := n']) + n = T" by simp
  have "map t_proc (ts[j := (ts ! j)\<lparr>t_code := p\<rparr>]) = map t_proc ts" using j(1) by (simp add: map_update list_update_same_conv)
  then have ap': "apart cl (t # ts[j := (ts ! j)\<lparr>t_code := p\<rparr>])"
    using ap apart_code [of "t # ts[j := (ts ! j)\<lparr>t_code := p\<rparr>]" "t # ts" cl] by simp
  have "filling V K fd cl err b R T pre c'"
    unfolding filling_def using tasks' p0 st lines lines' all fd' T' T(2) cap ap' by auto
  then show ?thesis by blast
qed

lemma filling_goes_on:
  assumes "filling V K fd cl err b R T pre c"
  shows "\<not> over P c"
proof -
  from assms obtain t ts ns n out ms where tasks: "c_tasks c = t # ts" and p0: "t_proc t = 0"
    and st: "starter fd cl err R n out (t_code t)"
    and wr: "list_all2 (writing V fd cl b (c_world c) (c_libs c)) ns ts" and fd: "filled V K fd b (c_world c) (c_libs c) ms"
    and T: "length ms + sum_list ns + n = T" "T \<le> cap V (c_world c)"
    unfolding filling_def by blast
  show ?thesis
  proof (cases "list_all (\<lambda>u. t_code u = Exit) ts")
    case True
    have at: "c_tasks c ! 0 = t" using tasks by simp
    from st have "\<exists>c'. tstep P 0 c c'"
      by (cases rule: starter.cases) (use tasks True in \<open>auto simp: step_Say step_Fork step_Create step_Join at list_all_iff\<close>)
    then show ?thesis by (auto simp: over_def cstep_def)
  next
    case False
    then obtain j where j: "j < length ts" "t_code (ts ! j) \<noteq> Exit" by (auto simp: list_all_iff in_set_conv_nth)
    let ?t = "ts ! j" and ?i = "Suc j"
    have at: "c_tasks c ! ?i = ?t" and i: "?i < length (c_tasks c)" using tasks j by simp_all
    from list_all2_nthD2 [OF wr j(1)] have w: "writer fd cl (ns ! j) (t_code ?t)" and u: "plain (t_code ?t) \<or> uses V (c_world c) (t_proc ?t) fd b"
      and l: "lib_max_message_size (c_libs c (t_proc ?t)) = size_of V (c_world c)" by (simp_all add: writing_def)
    have le: "ns ! j \<le> sum_list ns" using j(1) list_all2_lengthD [OF wr] by (simp add: member_le_sum_list)
    from fd T le have "unat (size_of V (c_world c)) < MESSAGE_SIZE" "\<not> delayed V (c_world c) b"
      "stored (box V (c_world c) b) + ns ! j \<le> cap V (c_world c)" by (simp_all add: filled_def stored_def)
    from writer_goes_on [OF i at w j(2) u l this] have "\<exists>c'. tstep P ?i c c'" .
    then show ?thesis by (auto simp: over_def cstep_def)
  qed
qed

text \<open>After the waiting the first task is alone.\<close>

lemma alone_keeps:
  assumes "alone P R pre l w c" and step: "tstep P i c c'" and R: "run (calls P 0) (pass P) R l w = Done r"
  shows "alone P R pre l w c'"
proof -
  from assms(1) obtain t ts where tasks: "c_tasks c = t # ts" and p0: "t_proc t = 0" and ex: "list_all (\<lambda>t. t_code t = Exit) ts"
    and eq: "after (lines_of 0 c) (run (calls P 0) (pass P) (t_code t) (c_libs c 0) (c_world c)) = after pre (run (calls P 0) (pass P) R l w)"
    unfolding alone_def by blast
  note i = exits_stop [OF tasks ex step]
  from after_DoneD [OF eq [unfolded R]] obtain r' where
    r': "run (calls P 0) (pass P) (t_code t) (c_libs c 0) (c_world c) = Done r'" by blast
  from alone_step [OF step [unfolded i] tasks p0 r'] obtain p where
    "c_tasks c' = t\<lparr>t_code := p\<rparr> # ts"
    "after (lines_of 0 c') (run (calls P 0) (pass P) p (c_libs c' 0) (c_world c')) = after (lines_of 0 c) (Done r')" by blast
  with p0 ex eq r' show ?thesis unfolding alone_def by (intro exI [of _ "t\<lparr>t_code := p\<rparr>"] exI [of _ ts]) simp
qed

lemma alone_over:
  assumes "alone P R pre l w c" and fin: "over P c" and R: "run (calls P 0) (pass P) R l w = Done (out, l', w')"
  shows "all_done c \<and> c_libs c 0 = l' \<and> c_world c = w' \<and> lines_of 0 c = pre @ out"
proof -
  from assms(1) obtain t ts where tasks: "c_tasks c = t # ts" and p0: "t_proc t = 0" and ex: "list_all (\<lambda>t. t_code t = Exit) ts"
    and eq: "after (lines_of 0 c) (run (calls P 0) (pass P) (t_code t) (c_libs c 0) (c_world c)) = after pre (run (calls P 0) (pass P) R l w)"
    unfolding alone_def by blast
  have first: "c_tasks c ! 0 = t" "0 < length (c_tasks c)" using tasks by simp_all
  from after_DoneD [OF eq [unfolded R]] obtain r' where
    r': "run (calls P 0) (pass P) (code_of c 0) (c_libs c 0) (c_world c) = Done r'" by (auto simp: first)
  have exit: "t_code t = Exit"
    using alone_goes_on [OF first(2) _ r'] fin p0 by (auto simp: over_def cstep_def first)
  with eq R have "lines_of 0 c = pre @ out" "l' = c_libs c 0" "w' = c_world c" by simp_all
  with tasks ex exit show ?thesis by simp
qed

lemma reading_step:
  assumes "reading V P K fd b R T pre c" and step: "tstep P i c c'"
    and R: "\<And>libs w ms. filled V K fd b w libs ms \<Longrightarrow> length ms = T \<Longrightarrow> \<exists>r. run (calls P 0) (pass P) R (libs 0) w = Done r"
  shows "reading V P K fd b R T pre c'"
proof -
  from assms(1) obtain libs w ms where fd: "filled V K fd b w libs ms" "length ms = T" and al: "alone P R pre (libs 0) w c"
    unfolding reading_def by blast
  from R [OF fd] obtain r where "run (calls P 0) (pass P) R (libs 0) w = Done r" by blast
  from alone_keeps [OF al step this] fd show ?thesis unfolding reading_def by blast
qed

lemma reading_over:
  assumes "reading V P K fd b R T pre c" and fin: "over P c"
    and R: "\<And>libs w ms. filled V K fd b w libs ms \<Longrightarrow> length ms = T \<Longrightarrow> \<exists>r. run (calls P 0) (pass P) R (libs 0) w = Done r"
  shows "all_done c \<and> (\<exists>libs w ms out. filled V K fd b w libs ms \<and> length ms = T
    \<and> run (calls P 0) (pass P) R (libs 0) w = Done (out, c_libs c 0, c_world c) \<and> lines_of 0 c = pre @ out)"
proof -
  from assms(1) obtain libs w ms where fd: "filled V K fd b w libs ms" "length ms = T" and al: "alone P R pre (libs 0) w c"
    unfolding reading_def by blast
  from R [OF fd] obtain out l' w' where r: "run (calls P 0) (pass P) R (libs 0) w = Done (out, l', w')" by (metis prod_cases3)
  from alone_over [OF al fin r] fd r show ?thesis by (intro conjI exI [of _ libs] exI [of _ w] exI [of _ ms] exI [of _ out]) simp_all
qed

lemma failed_step:
  assumes "failed P err c" and "tstep P i c c'"
  shows "failed P err c'"
proof -
  from assms(1) have may: "may_fail P" and ne: "c_tasks c \<noteq> []" and err: "err \<in> set (lines_of 0 c) \<or> (\<exists>q. code_of c 0 = Say err q)"
    by (simp_all add: failed_def)
  note frame = step_frame [OF assms(2)]
  have "err \<in> set (lines_of 0 c') \<or> (\<exists>q. code_of c' 0 = Say err q)"
  proof (cases "err \<in> set (lines_of 0 c)")
    case True
    with frame(1) [of 0] show ?thesis by blast
  next
    case False
    with err obtain q where q: "code_of c 0 = Say err q" by blast
    show ?thesis
    proof (cases "i = 0")
      case True
      with assms(2) q show ?thesis by (simp add: step_Say)
    next
      case False
      with frame(3) [of 0] ne q show ?thesis by simp
    qed
  qed
  moreover from frame(2) ne have "c_tasks c' \<noteq> []" by auto
  ultimately show ?thesis using may by (simp add: failed_def)
qed

lemma failed_over: "failed P err c \<Longrightarrow> over P c \<Longrightarrow> err \<in> set (lines_of 0 c)"
  using tstep.say [of 0 c err _ P] by (auto simp: failed_def over_def cstep_def)

text \<open>The whole program, from its start.\<close>

lemma opens_step:
  assumes "unopened b SP l w c" and step: "tstep P i c c'"
    and w: "sane V w" "lib_max_message_size l = 0 \<or> lib_max_message_size l = size_of V w" "box V w b = empty_box" "\<not> delayed V w b"
      "unat (size_of V w) < MESSAGE_SIZE"
  shows "unopened b SP l w c' \<or> (\<exists>fd. 0 \<le> fd \<and> opened V (unat (size_of V w)) (cap V w) fd b SP c')"
proof -
  from assms(1) obtain t where t: "c_tasks c = [t]" "t_proc t = 0" "c_libs c 0 = l" "c_world c = w"
    and stage: "t_code t = begins (open_or b ends SP) \<and> lines_of 0 c = []
       \<or> t_code t = open_or b ends SP \<and> lines_of 0 c = [Note ''EXECUTING'']" unfolding unopened_def by blast
  from step_index [OF step] t have i: "i = 0" by simp
  from stage show ?thesis
  proof
    assume "t_code t = begins (open_or b ends SP) \<and> lines_of 0 c = []"
    with step t have "unopened b SP l w c'" by (auto simp: i begins_def step_Say unopened_def)
    then show ?thesis by blast
  next
    assume at: "t_code t = open_or b ends SP \<and> lines_of 0 c = [Note ''EXECUTING'']"
    let ?k = "\<lambda>fd. if fd < 0 then Say Open_err ends else Say (Opened b fd) (SP fd)"
    from opens [OF w(1,2), of 0 b] obtain fd l1 w1 where
      op: "open_group (calls P 0) (Some b) l w = Done (fd, l1, w1)" and l1: "lib_max_message_size l1 = size_of V w" and fd: "0 \<le> fd"
      and s1: "sane V w1" "\<forall>q fd' c. uses V w1 q fd' c \<longleftrightarrow> uses V w q fd' c \<or> (q, fd', c) = (0, fd, b)"
      "box V w1 = box V w" "delayed V w1 = delayed V w" "cap V w1 = cap V w" "size_of V w1 = size_of V w" by blast
    have "lib_call (calls P (proc_of c i)) (pass P) (code_of c i) (c_libs c (proc_of c i)) (c_world c) = Some (Done (?k fd, l1, w1))"
      using op at t by (simp add: i open_or_def)
    from step_call [OF this] step have c': "c' = goes_on 0 (?k fd) c\<lparr>c_libs := (c_libs c)(0 := l1), c_world := w1\<rparr>"
      using at t by (auto simp: i open_or_def)
    have "opened V (unat (size_of V w)) (cap V w) fd b SP c'"
      using at t fd s1 l1 w by (simp add: c' opened_def filled_def)
    with fd show ?thesis by blast
  qed
qed

lemma unopened_step:
  assumes "unopened b SP l w c" and step: "tstep P i c c'"
    and w: "sane V w" "lib_max_message_size l = 0 \<or> lib_max_message_size l = size_of V w" "box V w b = empty_box" "\<not> delayed V w b"
      "T \<le> cap V w" "unat (size_of V w) < MESSAGE_SIZE"
    and K: "K = unat (size_of V w)"
    and SP: "\<And>fd. 0 \<le> fd \<Longrightarrow> starter fd cl err (R fd) T out (SP fd)"
  shows "unopened b SP l w c' \<or> (\<exists>fd. 0 \<le> fd \<and> filling V K fd cl err b (R fd) T ([Note ''EXECUTING'', Opened b fd] @ out) c')"
  using opens_step [OF assms(1) step w(1-4,6)]
proof (elim disjE exE conjE)
  fix fd
  assume fd: "0 \<le> fd" and op: "opened V (unat (size_of V w)) (cap V w) fd b SP c'"
  from op obtain t where t: "c_tasks c' = [t]" "t_proc t = 0" "t_code t = Say (Opened b fd) (SP fd)" "lines_of 0 c' = [Note ''EXECUTING'']"
    and fill: "filled V K fd b (c_world c') (c_libs c') []" and cap: "cap V (c_world c') = cap V w" unfolding opened_def K by blast
  have "filling V K fd cl err b (R fd) T ([Note ''EXECUTING'', Opened b fd] @ out) c'"
    unfolding filling_def using t fill cap w(5) SP [OF fd]
    by (intro exI [of _ t] exI [of _ "[]"] exI [of _ "[]"] exI [of _ T] exI [of _ "Opened b fd # out"] exI [of _ "[]"])
      (auto simp: apart_def intro: s_say)
  with fd show ?thesis by blast
qed blast

lemma unopened_goes_on:
  assumes "unopened b SP l w c" and "sane V w" and "lib_max_message_size l = 0 \<or> lib_max_message_size l = size_of V w"
  shows "\<not> over P c"
proof -
  from assms(1) obtain t where t: "c_tasks c = [t]" "t_proc t = 0" "c_libs c 0 = l" "c_world c = w"
    and stage: "t_code t = begins (open_or b ends SP) \<or> t_code t = open_or b ends SP" unfolding unopened_def by blast
  have "\<exists>c'. tstep P 0 c c'" using stage
  proof
    assume "t_code t = begins (open_or b ends SP)"
    with t show ?thesis by (simp add: begins_def step_Say)
  next
    assume at: "t_code t = open_or b ends SP"
    from opens [OF assms(2,3), of 0 b] obtain fd l1 w1 where "open_group (calls P 0) (Some b) l w = Done (fd, l1, w1)" by blast
    then have "lib_call (calls P (proc_of c 0)) (pass P) (code_of c 0) (c_libs c (proc_of c 0)) (c_world c)
      = Some (Done (if fd < 0 then Say Open_err ends else Say (Opened b fd) (SP fd), l1, w1))"
      using at t by (simp add: open_or_def)
    from tstep.call [OF _ this] t show ?thesis by auto
  qed
  then show ?thesis by (auto simp: over_def cstep_def)
qed

lemma writers_served:
  assumes w: "sane V w" "lib_max_message_size l = 0 \<or> lib_max_message_size l = size_of V w" "box V w b = empty_box" "\<not> delayed V w b"
      "T \<le> cap V w" "unat (size_of V w) < MESSAGE_SIZE"
    and K: "K = unat (size_of V w)"
    and SP: "\<And>fd. 0 \<le> fd \<Longrightarrow> starter fd cl err (R fd) T out (SP fd)"
    and R: "\<And>fd libs w ms. filled V K fd b w libs ms \<Longrightarrow> length ms = T \<Longrightarrow> \<exists>r. run (calls P 0) (pass P) (R fd) (libs 0) w = Done r"
    and run: "(cstep P)\<^sup>*\<^sup>* (starts (begins (open_or b ends SP)) l w) c" and fin: "over P c"
  shows "may_fail P \<and> err \<in> set (lines_of 0 c) \<or> all_done c \<and> (\<exists>fd libs w' ms o'. filled V K fd b w' libs ms \<and> length ms = T
    \<and> run (calls P 0) (pass P) (R fd) (libs 0) w' = Done (o', c_libs c 0, c_world c)
    \<and> lines_of 0 c = [Note ''EXECUTING'', Opened b fd] @ out @ o')"
proof -
  let ?pre = "\<lambda>fd. [Note ''EXECUTING'', Opened b fd] @ out"
  have inv: "unopened b SP l w c \<or> (\<exists>fd. 0 \<le> fd \<and> (filling V K fd cl err b (R fd) T (?pre fd) c \<or> reading V P K fd b (R fd) T (?pre fd) c)) \<or> failed P err c"
    using run
  proof (induction rule: rtranclp_induct)
    case base
    have "unopened b SP l w (starts (begins (open_or b ends SP)) l w)" by (simp add: unopened_def starts_def lines_of_def)
    then show ?case by blast
  next
    case (step c c')
    from step(2) obtain i where i: "tstep P i c c'" by (auto simp: cstep_def)
    have "reading V P K fd b (R fd) T (?pre fd) c \<Longrightarrow> reading V P K fd b (R fd) T (?pre fd) c'" for fd
      using reading_step [OF _ i, of K fd b "R fd" T "?pre fd"] R [of fd] by blast
    with step(3) show ?case
      using unopened_step [OF _ i w K SP] filling_step [OF _ i] failed_step [OF _ i] by blast
  qed
  then show ?thesis
  proof (elim disjE exE conjE)
    assume "unopened b SP l w c"
    with unopened_goes_on w(1,2) fin show ?thesis by blast
  next
    fix fd assume "filling V K fd cl err b (R fd) T (?pre fd) c"
    with filling_goes_on fin show ?thesis by blast
  next
    fix fd assume "reading V P K fd b (R fd) T (?pre fd) c"
    from reading_over [OF this fin] R [of fd] have "all_done c \<and> (\<exists>libs w ms out. filled V K fd b w libs ms \<and> length ms = T
      \<and> run (calls P 0) (pass P) (R fd) (libs 0) w = Done (out, c_libs c 0, c_world c) \<and> lines_of 0 c = ?pre fd @ out)" by blast
    then show ?thesis by fastforce
  next
    assume f: "failed P err c"
    from failed_over [OF f fin] f show ?thesis unfolding failed_def by blast
  qed
qed

section \<open>The programs\<close>

lemma signature_length: "signature k m \<Longrightarrow> 0 < k \<Longrightarrow> k < MESSAGE_SIZE \<Longrightarrow> 0 < length m \<and> length m \<le> MESSAGE_SIZE"
  using was_here_facts(2) by (auto simp: signature_def payload_def bytes_of_def)

text \<open>What the first task does after it has waited: read \<open>n\<close> of the messages, close the group, end.\<close>

lemma reader_run:
  assumes fd: "filled V K fd b w libs ms" and n: "n \<le> length ms"
  shows "\<exists>w'. run (calls P 0) (pass P) (Say (Reading z) (read_loop fd [0..<n] zeros (\<lambda>_. closing b fd ends) err)) (libs 0) w
      = Done (Reading z # got_lines zeros (take n ms) @ [Closed b fd, Note ''DONE''], libs 0, w')
    \<and> box V w' b = \<lparr>avail = drop n ms, held = []\<rparr>"
proof -
  from fd have use: "uses V w 0 fd b" and box: "box V w b = \<lparr>avail = ms, held = []\<rparr>"
    and sig: "list_all (signature K) ms" and size: "K < MESSAGE_SIZE" "K = unat (size_of V w)" and sane: "sane V w"
    by (simp_all add: filled_def)
  from size_pos [OF sane] have pos: "0 < K" by (simp add: size(2) unat_gt_0)
  have len: "list_all (\<lambda>m. 0 < length m \<and> length m \<le> MESSAGE_SIZE) (avail (box V w b))"
    using sig signature_length [OF _ pos size(1)] by (auto simp: box list_all_iff)
  from run_reads [OF use len zeros_facts(1), of z "[0..<n]" "\<lambda>_. closing b fd ends" err "libs 0"] n obtain w1 where
    r1: "run (calls P 0) (pass P) (Say (Reading z) (read_loop fd [0..<n] zeros (\<lambda>_. closing b fd ends) err)) (libs 0) w
      = after (Reading z # got_lines zeros (take n ms)) (run (calls P 0) (pass P) (closing b fd ends) (libs 0) w1)"
    and u1: "uses V w1 = uses V w" and b1: "box V w1 = (box V w)(b := \<lparr>avail = drop n ms, held = []\<rparr>)"
    by (auto simp: box simp del: upt_conv_Cons)
  from u1 use have "uses V w1 0 fd b" by simp
  from run_closing [OF this, of ends "libs 0"] obtain w2 where
    r2: "run (calls P 0) (pass P) (closing b fd ends) (libs 0) w1 = after [Closed b fd] (run (calls P 0) (pass P) ends (libs 0) w2)"
    and b2: "box V w2 = box V w1" by blast
  have "run (calls P 0) (pass P) ends (libs 0) w2 = Done ([Note ''DONE''], libs 0, w2)" by (simp add: ends_def)
  with r1 r2 b1 b2 show ?thesis by (intro exI [of _ w2]) simp
qed

lemma readers_served:
  assumes w: "sane V w" "lib_max_message_size l = 0 \<or> lib_max_message_size l = size_of V w" "box V w b = empty_box" "\<not> delayed V w b"
      "T \<le> cap V w" "unat (size_of V w) < MESSAGE_SIZE"
    and K: "K = unat (size_of V w)"
    and R: "\<And>fd. R fd = Say (Reading (int n)) (read_loop fd [0..<n] zeros (\<lambda>_. closing b fd ends) (\<lambda>rest. rest))" and n: "n \<le> T"
    and SP: "\<And>fd. 0 \<le> fd \<Longrightarrow> starter fd cl err (R fd) T out (SP fd)"
    and run: "(cstep P)\<^sup>*\<^sup>* (starts (begins (open_or b ends SP)) l w) c" and fin: "over P c"
  shows "may_fail P \<and> err \<in> set (lines_of 0 c) \<or> all_done c \<and> (\<exists>fd ms. length ms = T \<and> list_all (signature K) ms
    \<and> lines_of 0 c = [Note ''EXECUTING'', Opened b fd] @ out @ Reading (int n) # got_lines zeros (take n ms) @ [Closed b fd, Note ''DONE'']
    \<and> box V (c_world c) b = \<lparr>avail = drop n ms, held = []\<rparr>)"
proof -
  have run_R: "\<exists>w'. run (calls P 0) (pass P) (R fd) (libs 0) w
      = Done (Reading (int n) # got_lines zeros (take n ms) @ [Closed b fd, Note ''DONE''], libs 0, w')
    \<and> box V w' b = \<lparr>avail = drop n ms, held = []\<rparr>"
    if "filled V K fd b w libs ms" "length ms = T" for fd libs w ms
    unfolding R by (rule reader_run [OF that(1)]) (use that(2) n in simp)
  then have ok: "\<exists>r. run (calls P 0) (pass P) (R fd) (libs 0) w = Done r"
    if "filled V K fd b w libs ms" "length ms = T" for fd libs w ms using that by blast
  have "may_fail P \<and> err \<in> set (lines_of 0 c) \<or> all_done c \<and> (\<exists>fd libs w' ms o'. filled V K fd b w' libs ms \<and> length ms = T
      \<and> run (calls P 0) (pass P) (R fd) (libs 0) w' = Done (o', c_libs c 0, c_world c)
      \<and> lines_of 0 c = [Note ''EXECUTING'', Opened b fd] @ out @ o')"
    by (rule writers_served [where R = R and SP = SP and out = out, OF w K SP _ run fin]) (assumption, rule ok)
  then show ?thesis
  proof
    assume "may_fail P \<and> err \<in> set (lines_of 0 c)"
    then show ?thesis by blast
  next
    assume "all_done c \<and> (\<exists>fd libs w' ms o'. filled V K fd b w' libs ms \<and> length ms = T
      \<and> run (calls P 0) (pass P) (R fd) (libs 0) w' = Done (o', c_libs c 0, c_world c)
      \<and> lines_of 0 c = [Note ''EXECUTING'', Opened b fd] @ out @ o')"
    then obtain fd libs w' ms o' where ends: "all_done c" and fd: "filled V K fd b w' libs ms" "length ms = T"
      and r: "run (calls P 0) (pass P) (R fd) (libs 0) w' = Done (o', c_libs c 0, c_world c)"
      and lines: "lines_of 0 c = [Note ''EXECUTING'', Opened b fd] @ out @ o'" by blast
    from run_R [OF fd] r have "o' = Reading (int n) # got_lines zeros (take n ms) @ [Closed b fd, Note ''DONE'']"
      "box V (c_world c) b = \<lparr>avail = drop n ms, held = []\<rparr>" by auto
    with ends fd lines show ?thesis by (auto simp: filled_def)
  qed
qed

text \<open>\<open>mp_readwrite\<close>: three children write 0, 1 and 2 messages, and the parent reads all three.\<close>

lemma mp_readwrite_served:
  assumes "sane V w" and "lib_max_message_size l = 0 \<or> lib_max_message_size l = size_of V w" and "box V w 1 = empty_box"
    and "\<not> delayed V w 1" and "3 \<le> cap V w" and "unat (size_of V w) < MESSAGE_SIZE"
    and run: "(cstep P)\<^sup>*\<^sup>* (starts mp_readwrite_main l w) c" and fin: "over P c"
  shows "may_fail P \<and> Note ''ERR: fork'' \<in> set (lines_of 0 c) \<or> all_done c \<and> (\<exists>fd ms. length ms = 3 \<and> list_all (signature (unat (size_of V w))) ms
    \<and> lines_of 0 c = [Note ''EXECUTING'', Opened 1 fd, Note ''Dad is going to wait'', Reading 3] @ got_lines zeros ms
        @ [Closed 1 fd, Note ''DONE'']
    \<and> box V (c_world c) 1 = empty_box)"
proof -
  let ?R = "\<lambda>fd. Say (Reading (int 3)) (read_loop fd [0..<3] zeros (\<lambda>_. closing 1 fd ends) (\<lambda>rest. rest))"
  let ?SP = "\<lambda>fd. fork_all (mp_child fd) [0..<CHILDREN] (Say (Note ''Dad is going to wait'') (Join (?R fd))) (closing 1 fd ends)"
  have main: "mp_readwrite_main = begins (open_or 1 ends ?SP)" by (simp add: mp_readwrite_main_def CHILDREN_def Let_def)
  have sum: "sum_list (map (\<lambda>i. i) [0..<CHILDREN]) + 0 = 3" by (simp add: CHILDREN_def numeral_3_eq_3)
  have SP: "starter fd True (Note ''ERR: fork'') (?R fd) 3 [Note ''Dad is going to wait''] (?SP fd)" for fd
    using fork_starter [where f = "\<lambda>i. i" and child = "mp_child fd" and R = "?R fd" and xs = "[0..<CHILDREN]" and fail = "closing 1 fd ends",
        OF mp_child_writer s_say [OF s_join]]
    unfolding sum .
  from readers_served [OF assms(1-6) refl refl order_refl SP run [unfolded main] fin] show ?thesis
  proof (elim disjE conjE exE)
    fix fd ms
    assume ms: "length ms = 3" "list_all (signature (unat (size_of V w))) ms"
      and rest: "all_done c" "lines_of 0 c = [Note ''EXECUTING'', Opened 1 fd] @ [Note ''Dad is going to wait'']
        @ Reading (int 3) # got_lines zeros (take 3 ms) @ [Closed 1 fd, Note ''DONE'']"
        "box V (c_world c) 1 = \<lparr>avail = drop 3 ms, held = []\<rparr>"
    then show ?thesis by (intro disjI2 conjI exI [of _ fd] exI [of _ ms]) simp_all
  qed blast
qed

text \<open>\<open>mt_readwrite\<close>: three threads write three messages each, but only six are read.\<close>

lemma mt_readwrite_served:
  assumes "sane V w" and "lib_max_message_size l = 0 \<or> lib_max_message_size l = size_of V w" and "box V w 0 = empty_box"
    and "\<not> delayed V w 0" and "9 \<le> cap V w" and "unat (size_of V w) < MESSAGE_SIZE"
    and run: "(cstep P)\<^sup>*\<^sup>* (starts mt_readwrite_main l w) c" and fin: "over P c"
  shows "may_fail P \<and> Note ''ERR: pthread_create'' \<in> set (lines_of 0 c) \<or> all_done c \<and> (\<exists>fd ms. length ms = 9 \<and> list_all (signature (unat (size_of V w))) ms
    \<and> lines_of 0 c = [Note ''EXECUTING'', Opened 0 fd, Reading 6] @ got_lines zeros (take 6 ms) @ [Closed 0 fd, Note ''DONE'']
    \<and> box V (c_world c) 0 = \<lparr>avail = drop 6 ms, held = []\<rparr>)"
proof -
  let ?R = "\<lambda>fd. Say (Reading (int 6)) (read_loop fd [0..<6] zeros (\<lambda>_. closing 0 fd ends) (\<lambda>rest. rest))"
  let ?SP = "\<lambda>fd. create_all (mt_thread fd) [0..<THREADS] (Join (?R fd)) (closing 0 fd ends)"
  have main: "mt_readwrite_main = begins (open_or 0 ends ?SP)" by (simp add: mt_readwrite_main_def THREADS_def ITERATIONS_def)
  have sum: "length [0..<THREADS] * (ITERATIONS + 1) + 0 = 9" by (simp add: THREADS_def ITERATIONS_def)
  have SP: "starter fd False (Note ''ERR: pthread_create'') (?R fd) 9 [] (?SP fd)" if "0 \<le> fd" for fd
    using create_starter [OF mt_thread_writer [OF that] s_join, of "?R fd" "[0..<THREADS]" "closing 0 fd ends"] unfolding sum .
  have six: "(6::nat) \<le> 9" by simp
  from readers_served [OF assms(1-6) refl refl six SP run [unfolded main] fin] show ?thesis by auto
qed

end

end
