(* ===== verification/Counter_Laws.thy ===== *)
theory Counter_Laws
  imports Parallel_Laws
begin

text \<open>
  \<open>mt_ordinary\<close>: threads that share a counter under a semaphore. Each thread adds to the counter
  what it is going to write and subtracts what it tries to read. The counter never exceeds the
  number of messages in the group while nobody holds the semaphore; the proof follows the number
  by which a holder may still be off.
\<close>

section \<open>The threads\<close>

text \<open>After the semaphore has been released: perhaps a nap.\<close>

inductive napper :: "int \<Rightarrow> prog \<Rightarrow> bool" for fd where
  n_plain: "plain p \<Longrightarrow> napper fd p"
| n_say: "napper fd p \<Longrightarrow> napper fd (Say x p)"
| n_nap: "plain (k 0) \<Longrightarrow> napper fd (Nap fd k)"
| n_asleep: "plain (k 0) \<Longrightarrow> napper fd (Asleep fd k)"

text \<open>
  While a thread holds the semaphore, with the counter at \<open>v\<close>: it will send at most \<open>n\<close> messages, and
  when it releases the semaphore the group has at least \<open>v\<close> messages, if it has at least \<open>- g\<close> now.
\<close>

inductive holder :: "int \<Rightarrow> int \<Rightarrow> int \<Rightarrow> nat \<Rightarrow> prog \<Rightarrow> bool" for fd where
  h_post: "napper fd p \<Longrightarrow> g \<le> - v \<Longrightarrow> holder fd v g n (Sem_post p)"
| h_say: "holder fd v g n p \<Longrightarrow> holder fd v g n (Say x p)"
| h_rand: "(\<And>x. x < m \<Longrightarrow> holder fd v g n (k x)) \<Longrightarrow> 0 < m \<Longrightarrow> holder fd v g n (Rand m k)"
| h_tid: "(\<And>t. t < PID_LIMIT \<Longrightarrow> holder fd v g n (k t)) \<Longrightarrow> holder fd v g n (Get_tid k)"
| h_load: "holder fd v g n (k v) \<Longrightarrow> holder fd v g n (Load_var k)"
| h_store: "holder fd x g n p \<Longrightarrow> holder fd v g n (Store_var x p)"
| h_awake: "holder fd v g n (k 0) \<Longrightarrow> holder fd v g n (Awake fd k)"
| h_send: "signed m \<Longrightarrow> (\<And>r. 0 \<le> r \<Longrightarrow> holder fd v (g - 1) n (k r m)) \<Longrightarrow> holder fd v g (Suc n) (Send fd m k)"
| h_read: "length m = MESSAGE_SIZE \<Longrightarrow> (\<And>r m. 0 < r \<Longrightarrow> length m = MESSAGE_SIZE \<Longrightarrow> holder fd v (g + 1) n (k r m)) \<Longrightarrow>
    g \<le> g' \<Longrightarrow> (\<And>m. length m = MESSAGE_SIZE \<Longrightarrow> holder fd v g' n (k 0 m)) \<Longrightarrow> holder fd v g n (Retrieve fd m MESSAGE_SIZE k)"

text \<open>Before that.\<close>

inductive waiter :: "int \<Rightarrow> nat \<Rightarrow> prog \<Rightarrow> bool" for fd where
  q_say: "waiter fd n p \<Longrightarrow> waiter fd n (Say x p)"
| q_wait: "(\<And>v. holder fd v (- v) n p) \<Longrightarrow> waiter fd n (Sem_wait p)"

text \<open>The first task until it has waited for all threads; they send at most \<open>n\<close> messages.\<close>

inductive chief :: "int \<Rightarrow> line \<Rightarrow> prog \<Rightarrow> nat \<Rightarrow> prog \<Rightarrow> bool" for fd err R where
  c_create: "waiter fd n ch \<Longrightarrow> chief fd err R m (k True) \<Longrightarrow> k False = Say err q \<Longrightarrow> chief fd err R (n + m) (Create ch k)"
| c_pause: "chief fd err R n p \<Longrightarrow> chief fd err R n (Pause t p)"
| c_awake: "chief fd err R n (k 0) \<Longrightarrow> chief fd err R n (Awake fd k)"
| c_join: "chief fd err R 0 (Join R)"

lemma holder_sends:
  assumes "t < PID_LIMIT" and "length msg = MESSAGE_SIZE" and "\<And>m. length m = MESSAGE_SIZE \<Longrightarrow> holder fd v g n (ok m)"
  shows "holder fd v (g + int (length is)) (length is + n) (send_loop fd (\<lambda>_. was_here t) is msg ok fail)"
  using assms(2)
proof (induction "is" arbitrary: msg)
  case Nil
  with assms(3) show ?case by simp
next
  case (Cons i "is")
  let ?m = "bytes_of (was_here t) @ 0 # drop (length (was_here t) + 1) msg"
  have len: "length (was_here t) < MESSAGE_SIZE" by (rule was_here_facts(3) [OF assms(1)])
  with Cons.prems have m: "length ?m = MESSAGE_SIZE" by simp
  with assms(1) have "signed ?m" unfolding signed_def by blast
  then have "holder fd v (g + int (length is) + 1) (Suc (length is + n)) (Send fd ?m (\<lambda>ret msg. if ret < 0 then Say (Write_err i) (fail msg)
      else Say (Written (cstr msg)) (send_loop fd (\<lambda>_. was_here t) is msg ok fail)))"
    using Cons.IH [OF m] by (intro h_send) (auto intro: h_say)
  moreover have "\<not> length msg < length (was_here t) + 1" using len Cons.prems by simp
  ultimately show ?case by (simp add: sprintf_to_def add.commute add.left_commute)
qed

lemma holder_reads:
  assumes "length msg = MESSAGE_SIZE" and "\<And>m. length m = MESSAGE_SIZE \<Longrightarrow> holder fd v g n (ok m)"
  shows "holder fd v (g - int (length is)) n (read_loop fd is msg ok err)"
  using assms(1)
proof (induction "is" arbitrary: msg)
  case (Cons i "is")
  have "holder fd v (g - int (length (i # is))) n (Retrieve fd msg MESSAGE_SIZE (\<lambda>ret msg.
     if ret < 0 then Say (Read_err i) (err (read_loop fd is msg ok err))
     else if ret = 0 then Say No_more (ok msg) else Say (Got ret (cstr msg)) (read_loop fd is msg ok err)))"
    by (rule h_read [of _ _ _ _ _ _ g]) (use Cons assms(2) in \<open>auto intro!: h_say\<close>)
  then show ?case by simp
qed (use assms in simp)

lemma napper_ends: "napper fd ends" "napper fd (Say x (Nap fd (\<lambda>_. Say y ends)))"
  by (intro n_plain n_say n_nap plain_say plain_ends)+

lemma holder_more: "holder fd v g n p \<Longrightarrow> n \<le> n' \<Longrightarrow> holder fd v g n' p"
proof (induction arbitrary: n' rule: holder.induct)
  case (h_send m v g n k)
  from h_send(3) h_send(4) show ?case by (cases n') (auto intro: holder.h_send [OF h_send(1)])
next
  case (h_read m v g n k g')
  then show ?case by (intro holder.h_read [of _ _ _ _ _ _ g']) blast+
qed (auto intro: holder.intros)

lemma mt_body_holder: "holder fd v (- v) 6 (mt_body fd Sem_post)"
proof -
  have sends: "holder fd (v + int w - int r) (- v) 6 (send_loop fd (\<lambda>_. was_here t) [0..<w] zeros
       (\<lambda>_. Say (Reading (int r)) (read_loop fd [0..<r] zeros
         (\<lambda>_. let bed = (if s \<noteq> 0 then Say (Note ''Going to bed'') (Nap fd (\<lambda>_.
                 Say (Note ''What a beautiful nap!'') ends)) else ends) in
           if a = 0 then Say (Note ''Awaking barrier'') (Awake fd (\<lambda>_. Sem_post bed)) else Sem_post bed)
         (\<lambda>_. ends)))
       (\<lambda>_. ends))" (is "holder fd ?x _ 6 (send_loop fd _ _ zeros (\<lambda>_. Say _ ?reads) _)")
    if "t < PID_LIMIT" "w < 7" for r w t and a s :: nat
  proof -
    have post: "holder fd ?x (- ?x) 0 (let bed = (if s \<noteq> 0 then Say (Note ''Going to bed'') (Nap fd (\<lambda>_.
                 Say (Note ''What a beautiful nap!'') ends)) else ends) in
           if a = 0 then Say (Note ''Awaking barrier'') (Awake fd (\<lambda>_. Sem_post bed)) else Sem_post bed)"
      by (auto simp: Let_def intro!: h_say h_awake h_post napper_ends)
    have "holder fd ?x (- ?x - int (length [0..<r])) 0 ?reads" by (rule holder_reads) (rule zeros_facts, rule post)
    then have "holder fd ?x (- ?x - int r) 0 (Say (Reading (int r)) ?reads)" by (intro h_say) simp
    from holder_more [OF holder_sends [OF that(1) zeros_facts(1) this, of "[0..<w]" "\<lambda>_. ends"], of 6] that(2)
    show ?thesis by simp
  qed
  show ?thesis
    unfolding mt_body_def by (intro h_rand h_load h_store h_say h_tid; (rule sends; assumption)?) simp_all
qed

lemma mt_ordinary_waiter: "0 \<le> fd \<Longrightarrow> waiter fd 6 (mt_ordinary_thread fd)"
  by (auto simp: mt_ordinary_thread_def intro!: q_say q_wait mt_body_holder)

lemma create_chief:
  assumes "waiter fd n thread" and "chief fd (Note ''ERR: pthread_create'') R m ok"
  shows "chief fd (Note ''ERR: pthread_create'') R (length xs * n + m) (create_all thread xs ok fail)"
proof (induction xs)
  case (Cons i xs)
  from c_create [OF assms(1), of "Note ''ERR: pthread_create''" R _ "\<lambda>done. if done then create_all thread xs ok fail else Say (Note ''ERR: pthread_create'') fail"] Cons
  show ?case by (simp add: add.assoc)
qed (simp add: assms(2))

section \<open>The states of the program\<close>

text \<open>A thread, where \<open>h\<close> is the thread that holds the semaphore.\<close>

definition sharer :: "int \<Rightarrow> int \<Rightarrow> int \<Rightarrow> nat option \<Rightarrow> nat \<Rightarrow> nat \<Rightarrow> task \<Rightarrow> bool" where
  "sharer fd v g h j n t \<longleftrightarrow> t_proc t = 0 \<and> t_parent t = 0
     \<and> (if h = Some j then holder fd v g n (t_code t) else waiter fd n (t_code t) \<or> napper fd (t_code t))"

definition sharers :: "int \<Rightarrow> int \<Rightarrow> int \<Rightarrow> nat option \<Rightarrow> nat list \<Rightarrow> task list \<Rightarrow> bool" where
  "sharers fd v g h ns ts \<longleftrightarrow> length ns = length ts \<and> (\<forall>j. h = Some j \<longrightarrow> j < length ts)
     \<and> (\<forall>j < length ts. sharer fd v g h j (ns ! j) (ts ! j))"

text \<open>The semaphore has one unit, and the counter is right up to \<open>g\<close>.\<close>

definition balanced :: "int \<Rightarrow> nat option \<Rightarrow> nat \<Rightarrow> 'w conf \<Rightarrow> bool" where
  "balanced g h a c \<longleftrightarrow> c_sem c = (if h = None then 1 else 0) \<and> (h = None \<longrightarrow> g = - c_var c) \<and> 0 \<le> int a + g"

definition counting :: "'w view \<Rightarrow> nat \<Rightarrow> int \<Rightarrow> line \<Rightarrow> u8 \<Rightarrow> prog \<Rightarrow> nat \<Rightarrow> line list \<Rightarrow> 'w conf \<Rightarrow> bool" where
  "counting V K fd err b R T pre c \<longleftrightarrow> (\<exists>t ts n ns g h ms. c_tasks c = t # ts \<and> t_proc t = 0 \<and> chief fd err R n (t_code t)
     \<and> lines_of 0 c = pre \<and> sharers fd (c_var c) g h ns ts \<and> filled V K fd b (c_world c) (c_libs c) ms
     \<and> length ms + sum_list ns + n \<le> T \<and> T \<le> cap V (c_world c) \<and> balanced g h (length ms) c)"

text \<open>After the first task has waited.\<close>

definition joined :: "'w view \<Rightarrow> nat \<Rightarrow> int \<Rightarrow> u8 \<Rightarrow> prog \<Rightarrow> nat \<Rightarrow> line list \<Rightarrow> 'w conf \<Rightarrow> bool" where
  "joined V K fd b R T pre c \<longleftrightarrow> (\<exists>t ts ms. c_tasks c = t # ts \<and> t_proc t = 0 \<and> t_code t = R \<and> list_all (\<lambda>u. t_code u = Exit) ts
     \<and> lines_of 0 c = pre \<and> filled V K fd b (c_world c) (c_libs c) ms \<and> c_var c \<le> int (length ms) \<and> length ms \<le> T)"

text \<open>What a step of the thread \<open>j\<close> changes.\<close>

definition thread_move :: "'w view \<Rightarrow> nat \<Rightarrow> int \<Rightarrow> u8 \<Rightarrow> task \<Rightarrow> task list \<Rightarrow> nat \<Rightarrow> nat \<Rightarrow> int \<Rightarrow> nat option \<Rightarrow> u8 list list \<Rightarrow> 'w conf \<Rightarrow> 'w conf \<Rightarrow> bool" where
  "thread_move V K fd b t0 ts j n g h ms c c' \<longleftrightarrow> (\<exists>p n' g' h' ms'. c_tasks c' = t0 # ts[j := (ts ! j)\<lparr>t_code := p\<rparr>] \<and> lines_of 0 c' = lines_of 0 c
     \<and> sharer fd (c_var c') g' h' j n' ((ts ! j)\<lparr>t_code := p\<rparr>)
     \<and> (\<forall>i. i \<noteq> j \<longrightarrow> (h' = Some i \<longleftrightarrow> h = Some i) \<and> (h = Some i \<longrightarrow> c_var c' = c_var c \<and> g' = g))
     \<and> filled V K fd b (c_world c') (c_libs c') ms' \<and> length ms' + n' \<le> length ms + n \<and> cap V (c_world c') = cap V (c_world c)
     \<and> balanced g' h' (length ms') c')"

lemma sharers_update:
  assumes "sharers fd v g h ns ts" and "j < length ts" and "\<And>i. i \<noteq> j \<Longrightarrow> (h' = Some i \<longleftrightarrow> h = Some i) \<and> (h = Some i \<longrightarrow> v' = v \<and> g' = g)"
    and "sharer fd v' g' h' j n' t'"
  shows "sharers fd v' g' h' (ns[j := n']) (ts[j := t'])"
  unfolding sharers_def
proof (intro conjI allI impI)
  show "length (ns[j := n']) = length (ts[j := t'])" using assms(1) by (simp add: sharers_def)
  fix i
  show "i < length (ts[j := t'])" if "h' = Some i" using assms(1,2) assms(3) [of i] that by (cases "i = j") (auto simp: sharers_def)
  show "sharer fd v' g' h' i (ns[j := n'] ! i) (ts[j := t'] ! i)" if "i < length (ts[j := t'])"
    using assms(1,2,4) assms(3) [of i] that by (cases "i = j") (auto simp: sharers_def sharer_def)
qed

lemma sharers_snoc:
  assumes "sharers fd v g h ns ts" and "waiter fd n ch"
  shows "sharers fd v g h (ns @ [n]) (ts @ [\<lparr>t_proc = 0, t_parent = 0, t_code = ch\<rparr>])"
  using assms by (auto simp: sharers_def sharer_def nth_append less_Suc_eq)

lemma holder_not_exit: "\<not> holder fd v g n Exit"
  by (auto elim: holder.cases)

lemma waiter_not_exit: "\<not> waiter fd n Exit"
  by (auto elim: waiter.cases)

text \<open>Before the first thread: the counter and the semaphore get their values.\<close>

definition preparing :: "'w view \<Rightarrow> nat \<Rightarrow> nat \<Rightarrow> int \<Rightarrow> u8 \<Rightarrow> prog \<Rightarrow> 'w conf \<Rightarrow> bool" where
  "preparing V K C fd b S c \<longleftrightarrow> (\<exists>t. c_tasks c = [t] \<and> t_proc t = 0 \<and> filled V K fd b (c_world c) (c_libs c) [] \<and> cap V (c_world c) = C
     \<and> (t_code t = Say (Opened b fd) (Store_var 0 (Sem_init 1 S)) \<and> lines_of 0 c = [Note ''EXECUTING'']
       \<or> lines_of 0 c = [Note ''EXECUTING'', Opened b fd]
         \<and> (t_code t = Store_var 0 (Sem_init 1 S) \<or> t_code t = Sem_init 1 S \<and> c_var c = 0)))"

context parallel_client
begin

text \<open>Single calls on the group.\<close>

lemma sends_filled:
  assumes "filled V K fd b w libs ms" and "signed m" and "length ms < cap V w"
  shows "\<exists>ret w' x. send_message (calls P 0) fd (Some m) (libs 0) w = Done (ret, Some m, libs 0, w') \<and> 0 \<le> ret
    \<and> filled V K fd b w' libs (ms @ [x]) \<and> cap V w' = cap V w"
proof -
  from assms have "uses V w 0 fd b" "lib_max_message_size (libs 0) = size_of V w" "unat (size_of V w) < MESSAGE_SIZE"
    "\<not> delayed V w b" "stored (box V w b) < cap V w" by (simp_all add: filled_def stored_def)
  from sends_signed [OF this(1-3) assms(2) this(4,5)] obtain ret w' x where
    send: "send_message (calls P 0) fd (Some m) (libs 0) w = Done (ret, Some m, libs 0, w')" and ret: "0 \<le> ret"
    and x: "signature (unat (size_of V w)) x" and act: "acts V b [Post x] w w'" by blast
  from act x assms(1) have "filled V K fd b w' libs (ms @ [x])" "cap V w' = cap V w" by (auto simp: filled_def acts_def)
  with send ret show ?thesis by blast
qed

lemma retrieves_filled:
  assumes "filled V K fd b w libs ms" and "length m = MESSAGE_SIZE"
  shows "\<exists>ret m' w'. retrieve_message (calls P 0) fd m MESSAGE_SIZE (libs 0) w = Done (ret, m', libs 0, w') \<and> length m' = MESSAGE_SIZE
    \<and> (if ms = [] then ret = 0 else 0 < ret) \<and> filled V K fd b w' libs (tl ms) \<and> cap V w' = cap V w"
proof -
  from assms(1) have use: "uses V w 0 fd b" and box: "box V w b = \<lparr>avail = ms, held = []\<rparr>" and sane: "sane V w"
    and sig: "list_all (signature K) ms" and K: "unat (size_of V w) = K" "K < MESSAGE_SIZE" by (simp_all add: filled_def)
  from size_pos [OF sane] K have pos: "0 < K" by (metis unat_gt_0)
  have fit: "list_all (\<lambda>m. 0 < length m \<and> length m \<le> MESSAGE_SIZE) ms"
    using sig signature_length [OF _ pos K(2)] by (auto simp: list_all_iff)
  then have "list_all (\<lambda>x. length x \<le> min MESSAGE_SIZE (length m)) (avail (box V w b))" using assms(2) by (simp add: box list_all_iff)
  from reads [OF use this] obtain w' where
    rd: "os_read (calls P 0) fd m MESSAGE_SIZE w = Done (case ms of [] \<Rightarrow> (0, m, w') | x # xs \<Rightarrow> (int (length x), x @ drop (length x) m, w'))"
    and act: "acts V b [Fetch] w w'" unfolding box by auto
  have "filled V K fd b w' libs (tl ms)" "cap V w' = cap V w" using act assms(1) by (cases ms; simp add: filled_def acts_def)+
  then show ?thesis using rd uses_sane [OF use] fit assms(2)
    by (cases ms) (auto simp: retrieve_message_def)
qed

text \<open>A step of a thread that holds the semaphore, and of one that does not.\<close>

lemma holder_step:
  assumes step: "tstep P (Suc j) c c'" and tasks: "c_tasks c = t0 # ts" and j: "j < length ts"
    and h: "holder fd (c_var c) g n (t_code (ts ! j))" and t: "t_proc (ts ! j) = 0" "t_parent (ts ! j) = 0"
    and fd: "filled V K fd b (c_world c) (c_libs c) ms" and room: "length ms + n \<le> cap V (c_world c)"
    and bal: "balanced g (Some j) (length ms) c"
  shows "thread_move V K fd b t0 ts j n g (Some j) ms c c'"
proof -
  let ?i = "Suc j" and ?w = "c_world c"
  have at: "c_tasks c ! ?i = ts ! j" "?i < length (c_tasks c)" using tasks j by simp_all
  have use: "uses V ?w 0 fd b" using fd by (simp add: filled_def)
  from bal have sem: "c_sem c = 0" and slack: "0 \<le> int (length ms) + g" by (simp_all add: balanced_def)
  have other: "thread_move V K fd b t0 ts j n g (Some j) ms c c'"
    if "c_tasks c' = t0 # ts[j := (ts ! j)\<lparr>t_code := p\<rparr>]" "lines_of 0 c' = lines_of 0 c" "holder fd (c_var c') g' n' p"
      "filled V K fd b (c_world c') (c_libs c') ms'" "length ms' + n' \<le> length ms + n" "cap V (c_world c') = cap V ?w"
      "c_sem c' = 0" "0 \<le> int (length ms') + g'" for p g' n' ms'
    unfolding thread_move_def using that t
    by (intro exI [of _ p] exI [of _ n'] exI [of _ g'] exI [of _ "Some j"] exI [of _ ms']) (simp add: sharer_def balanced_def)
  from h show ?thesis
  proof (cases rule: holder.cases)
    case (h_post p)
    with step have c': "c' = goes_on ?i p c\<lparr>c_sem := Suc (c_sem c)\<rparr>" by (simp add: step_Sem_post at)
    show ?thesis unfolding thread_move_def using h_post t fd tasks sem slack
      by (intro exI [of _ p] exI [of _ n] exI [of _ "- c_var c"] exI [of _ None] exI [of _ ms]) (simp add: c' sharer_def balanced_def)
  next
    case (h_say p x)
    with step have "c' = goes_on ?i p c\<lparr>c_lines := c_lines c @ [(?i, x)]\<rparr>" by (simp add: step_Say at)
    with h_say fd tasks sem slack show ?thesis by (intro other [of p g n ms]) simp_all
  next
    case (h_rand m k)
    with step obtain x where "x < m" "c' = goes_on ?i (k x) c" by (auto simp: step_Rand at)
    with h_rand fd tasks sem slack show ?thesis by (intro other [of "k x" g n ms]) simp_all
  next
    case (h_tid k)
    with step obtain x where "x < PID_LIMIT" "c' = goes_on ?i (k x) c" by (auto simp: step_Get_tid at)
    with h_tid fd tasks sem slack show ?thesis by (intro other [of "k x" g n ms]) simp_all
  next
    case (h_load k)
    with step have "c' = goes_on ?i (k (c_var c)) c" by (simp add: step_Load_var at)
    with h_load fd tasks sem slack show ?thesis by (intro other [of "k (c_var c)" g n ms]) simp_all
  next
    case (h_store x p)
    with step have "c' = goes_on ?i p c\<lparr>c_var := x\<rparr>" by (simp add: step_Store_var at)
    with h_store fd tasks sem slack show ?thesis by (intro other [of p g n ms]) simp_all
  next
    case (h_awake k)
    from awakes [OF use] uses_sane [OF use] obtain w' where
      "awake_barrier (calls P 0) fd (c_libs c 0) ?w = Done (0, c_libs c 0, w')" and act: "acts V b [] ?w w'"
      by (auto simp: awake_barrier_def)
    then have "lib_call (calls P (proc_of c ?i)) (pass P) (code_of c ?i) (c_libs c (proc_of c ?i)) ?w
      = Some (Done (k 0, c_libs c (proc_of c ?i), w'))" by (simp add: at t h_awake)
    from step_lib [OF this, of c'] step h_awake have "c' = goes_on ?i (k 0) c\<lparr>c_world := w'\<rparr>" by (simp add: at)
    with h_awake fd tasks sem slack act show ?thesis by (intro other [of "k 0" g n ms]) (simp_all add: filled_def acts_def)
  next
    case (h_send m n1 k)
    with room have "length ms < cap V ?w" by simp
    from sends_filled [OF fd h_send(3) this] obtain ret w' x where
      send: "send_message (calls P 0) fd (Some m) (c_libs c 0) ?w = Done (ret, Some m, c_libs c 0, w')" "0 \<le> ret"
      and fd': "filled V K fd b w' (c_libs c) (ms @ [x])" "cap V w' = cap V ?w" by blast
    have "lib_call (calls P (proc_of c ?i)) (pass P) (code_of c ?i) (c_libs c (proc_of c ?i)) ?w
      = Some (Done (k ret m, c_libs c (proc_of c ?i), w'))" using send by (simp add: at t h_send)
    from step_lib [OF this, of c'] step h_send have "c' = goes_on ?i (k ret m) c\<lparr>c_world := w'\<rparr>" by (simp add: at)
    with h_send fd' tasks sem slack send show ?thesis by (intro other [of "k ret m" "g - 1" n1 "ms @ [x]"]) simp_all
  next
    case (h_read m k g1)
    from retrieves_filled [OF fd h_read(2)] obtain ret m' w' where
      get: "retrieve_message (calls P 0) fd m MESSAGE_SIZE (c_libs c 0) ?w = Done (ret, m', c_libs c 0, w')" "length m' = MESSAGE_SIZE"
      and ret: "if ms = [] then ret = 0 else 0 < ret" and fd': "filled V K fd b w' (c_libs c) (tl ms)" "cap V w' = cap V ?w" by blast
    have "lib_call (calls P (proc_of c ?i)) (pass P) (code_of c ?i) (c_libs c (proc_of c ?i)) ?w
      = Some (Done (k ret m', c_libs c (proc_of c ?i), w'))" using get by (simp add: at t h_read)
    from step_lib [OF this, of c'] step h_read have c': "c' = goes_on ?i (k ret m') c\<lparr>c_world := w'\<rparr>" by (simp add: at)
    show ?thesis
    proof (cases ms)
      case Nil
      with c' h_read get ret fd' tasks sem slack show ?thesis by (intro other [of "k ret m'" g1 n ms]) simp_all
    next
      case (Cons x xs)
      with c' h_read get ret fd' tasks sem slack show ?thesis by (intro other [of "k ret m'" "g + 1" n xs]) simp_all
    qed
  qed
qed

lemma sleeps:
  assumes "uses V w 0 fd b"
  obtains w' where "bed P i 0 fd w = Done w'" and "sane V w'" and "uses V w' = uses V w" and "box V w' = box V w"
    and "delayed V w' = delayed V w" and "cap V w' = cap V w" and "size_of V w' = size_of V w"
    and "sleep_on_barrier (calls P 0) fd l w = Block"
proof -
  from beds [OF assms, of i] obtain w' where w': "bed P i 0 fd w = Done w'" "sane V w'" "uses V w' = uses V w" "box V w' = box V w"
    "delayed V w' = delayed V w" "cap V w' = cap V w" "size_of V w' = size_of V w" by blast
  from beds_block [OF w'(1)] have "sleep_on_barrier (calls P 0) fd l w = Block" by (simp add: sleep_on_barrier_def)
  with w' show thesis by (rule that)
qed

lemma other_step:
  assumes step: "tstep P (Suc j) c c'" and tasks: "c_tasks c = t0 # ts" and j: "j < length ts" and h: "h \<noteq> Some j"
    and code: "waiter fd n (t_code (ts ! j)) \<or> napper fd (t_code (ts ! j))" and t: "t_proc (ts ! j) = 0" "t_parent (ts ! j) = 0"
    and fd: "filled V K fd b (c_world c) (c_libs c) ms" and bal: "balanced g h (length ms) c"
  shows "thread_move V K fd b t0 ts j n g h ms c c'"
proof -
  let ?i = "Suc j" and ?w = "c_world c"
  have at: "c_tasks c ! ?i = ts ! j" "?i < length (c_tasks c)" using tasks j by simp_all
  have use: "uses V ?w 0 fd b" using fd by (simp add: filled_def)
  have other: "thread_move V K fd b t0 ts j n g h ms c c'"
    if "c_tasks c' = t0 # ts[j := (ts ! j)\<lparr>t_code := p\<rparr>]" "lines_of 0 c' = lines_of 0 c" "waiter fd n p \<or> napper fd p"
      "filled V K fd b (c_world c') (c_libs c') ms" "cap V (c_world c') = cap V ?w" "c_sem c' = c_sem c" "c_var c' = c_var c" for p
    unfolding thread_move_def using that t h bal
    by (intro exI [of _ p] exI [of _ n] exI [of _ g] exI [of _ h] exI [of _ ms]) (simp add: sharer_def balanced_def)
  from code show ?thesis
  proof
    assume "waiter fd n (t_code (ts ! j))"
    then show ?thesis
    proof (cases rule: waiter.cases)
      case (q_say p x)
      with step have "c' = goes_on ?i p c\<lparr>c_lines := c_lines c @ [(?i, x)]\<rparr>" by (simp add: step_Say at)
      with q_say fd tasks show ?thesis by (intro other [of p]) simp_all
    next
      case (q_wait p)
      with step have pos: "0 < c_sem c" and c': "c' = goes_on ?i p c\<lparr>c_sem := c_sem c - 1\<rparr>" by (simp_all add: step_Sem_wait at)
      from pos bal have free: "h = None" "c_sem c = 1" "g = - c_var c" by (auto simp: balanced_def split: if_splits)
      show ?thesis unfolding thread_move_def using q_wait(2) [of "c_var c"] t fd tasks bal free
        by (intro exI [of _ p] exI [of _ n] exI [of _ g] exI [of _ "Some j"] exI [of _ ms]) (simp add: c' sharer_def balanced_def)
    qed
  next
    assume "napper fd (t_code (ts ! j))"
    then show ?thesis
    proof (cases rule: napper.cases)
      case n_plain
      then show ?thesis
      proof (cases rule: plain.cases)
        case plain_exit
        with step step_Exit [of c ?i P c'] at show ?thesis by simp
      next
        case (plain_say p x)
        with step have "c' = goes_on ?i p c\<lparr>c_lines := c_lines c @ [(?i, x)]\<rparr>" by (simp add: step_Say at)
        with plain_say fd tasks show ?thesis by (intro other [of p]) (simp_all add: napper.n_plain)
      qed
    next
      case (n_say p x)
      with step have "c' = goes_on ?i p c\<lparr>c_lines := c_lines c @ [(?i, x)]\<rparr>" by (simp add: step_Say at)
      with n_say fd tasks show ?thesis by (intro other [of p]) simp_all
    next
      case (n_nap k)
      from sleeps [OF use, of ?i "c_libs c 0"] obtain w' where bed: "bed P ?i 0 fd ?w = Done w'"
        and s': "sane V w'" "uses V w' = uses V ?w" "box V w' = box V ?w" "delayed V w' = delayed V ?w" "cap V w' = cap V ?w"
          "size_of V w' = size_of V ?w" and block: "sleep_on_barrier (calls P 0) fd (c_libs c 0) ?w = Block" by blast
      from step_Nap [of c ?i fd k P c'] step bed block have "c' = goes_on ?i (Asleep fd k) c\<lparr>c_world := w'\<rparr>"
        by (simp add: at t n_nap(1))
      with n_nap fd tasks s' show ?thesis by (intro other [of "Asleep fd k"]) (simp_all add: filled_def n_asleep)
    next
      case (n_asleep k)
      with step have "c' = goes_on ?i (k 0) c" by (simp add: step_Asleep at)
      with n_asleep fd tasks show ?thesis by (intro other [of "k 0"]) (simp_all add: n_plain)
    qed
  qed
qed

text \<open>A step of the first task, and any step.\<close>

lemma chief_step:
  assumes "counting V K fd err b R T pre c" and step: "tstep P 0 c c'"
  shows "counting V K fd err b R T pre c' \<or> joined V K fd b R T pre c' \<or> failed P err c'"
proof -
  from assms(1) obtain t ts n ns g h ms where tasks: "c_tasks c = t # ts" and p0: "t_proc t = 0" and ch: "chief fd err R n (t_code t)"
    and lines: "lines_of 0 c = pre" and sh: "sharers fd (c_var c) g h ns ts" and fd: "filled V K fd b (c_world c) (c_libs c) ms"
    and T: "length ms + sum_list ns + n \<le> T" "T \<le> cap V (c_world c)" and bal: "balanced g h (length ms) c"
    unfolding counting_def by blast
  let ?w = "c_world c"
  have at: "c_tasks c ! 0 = t" "0 < length (c_tasks c)" using tasks by simp_all
  have use: "uses V ?w 0 fd b" and sane: "sane V ?w" using fd by (simp_all add: filled_def)
  have on: "counting V K fd err b R T pre c'"
    if "c' = goes_on 0 p c\<lparr>c_world := w'\<rparr>" "chief fd err R n p" "filled V K fd b w' (c_libs c) ms" "cap V w' = cap V ?w" for p w'
    unfolding counting_def using that tasks p0 lines sh T bal
    by (intro exI [of _ "t\<lparr>t_code := p\<rparr>"] exI [of _ ts] exI [of _ n] exI [of _ ns] exI [of _ g] exI [of _ h] exI [of _ ms])
      (simp add: balanced_def)
  from ch show ?thesis
  proof (cases rule: chief.cases)
    case (c_create n1 chl m k q)
    let ?new = "\<lparr>t_proc = 0, t_parent = 0, t_code = chl\<rparr>"
    from c_create step consider (good) "c' = adds 0 0 chl (goes_on 0 (k True) c)" | (bad) "may_fail P" "c' = goes_on 0 (k False) c"
      using p0 by (auto simp: step_Create at)
    then show ?thesis
    proof cases
      case bad
      then have "failed P err c'" using c_create tasks by (simp add: failed_def)
      then show ?thesis by blast
    next
      case good
      have "counting V K fd err b R T pre c'"
        unfolding counting_def good using c_create tasks p0 lines fd T bal sharers_snoc [OF sh c_create(3)]
        by (intro exI [of _ "t\<lparr>t_code := k True\<rparr>"] exI [of _ "ts @ [?new]"] exI [of _ m] exI [of _ "ns @ [n1]"]
            exI [of _ g] exI [of _ h] exI [of _ ms]) (simp add: balanced_def)
      then show ?thesis by blast
    qed
  next
    case (c_pause p s)
    from naps [OF sane, of s] fd obtain w' where nap: "pass P s ?w = Done w'" and fd': "filled V K fd b w' (c_libs c) ms" "cap V w' = cap V ?w"
      by (auto simp: filled_def)
    have "lib_call (calls P (proc_of c 0)) (pass P) (code_of c 0) (c_libs c (proc_of c 0)) ?w
      = Some (Done (p, c_libs c (proc_of c 0), w'))" using nap by (simp add: at c_pause)
    from step_lib [OF this, of c'] step c_pause have "c' = goes_on 0 p c\<lparr>c_world := w'\<rparr>" by (simp add: at)
    from on [OF this c_pause(2) fd'] show ?thesis by blast
  next
    case (c_awake k)
    from awakes [OF use] uses_sane [OF use] obtain w' where
      wake: "awake_barrier (calls P 0) fd (c_libs c 0) ?w = Done (0, c_libs c 0, w')" and act: "acts V b [] ?w w'"
      by (auto simp: awake_barrier_def)
    have "lib_call (calls P (proc_of c 0)) (pass P) (code_of c 0) (c_libs c (proc_of c 0)) ?w
      = Some (Done (k 0, c_libs c (proc_of c 0), w'))" using wake by (simp add: at p0 c_awake)
    from step_lib [OF this, of c'] step c_awake have "c' = goes_on 0 (k 0) c\<lparr>c_world := w'\<rparr>" by (simp add: at)
    from on [OF this c_awake(2)] act fd show ?thesis by (simp add: filled_def acts_def)
  next
    case c_join
    with step have c': "c' = goes_on 0 R c" and gone: "list_all (\<lambda>u. t_parent u = 0 \<longrightarrow> t_code u = Exit) ts"
      using tasks by (auto simp: step_Join at)
    have ex: "list_all (\<lambda>u. t_code u = Exit) ts"
      using sh gone by (auto simp: list_all_length sharers_def sharer_def)
    have "h = None"
    proof (rule ccontr)
      assume "h \<noteq> None"
      then obtain j where "h = Some j" by blast
      with sh ex holder_not_exit show False by (auto simp: sharers_def sharer_def list_all_length)
    qed
    with bal have "c_var c \<le> int (length ms)" by (simp add: balanced_def)
    then have "joined V K fd b R T pre c'"
      unfolding joined_def c' using c_join tasks p0 lines fd ex T
      by (intro exI [of _ "t\<lparr>t_code := R\<rparr>"] exI [of _ ts] exI [of _ ms]) simp
    then show ?thesis by blast
  qed
qed

lemma counting_step:
  assumes "counting V K fd err b R T pre c" and step: "tstep P i c c'"
  shows "counting V K fd err b R T pre c' \<or> joined V K fd b R T pre c' \<or> failed P err c'"
proof (cases i)
  case 0
  with chief_step [OF assms(1)] step show ?thesis by simp
next
  case (Suc j)
  from assms(1) obtain t ts n ns g h ms where tasks: "c_tasks c = t # ts" and p0: "t_proc t = 0" and ch: "chief fd err R n (t_code t)"
    and lines: "lines_of 0 c = pre" and sh: "sharers fd (c_var c) g h ns ts" and fd: "filled V K fd b (c_world c) (c_libs c) ms"
    and T: "length ms + sum_list ns + n \<le> T" "T \<le> cap V (c_world c)" and bal: "balanced g h (length ms) c"
    unfolding counting_def by blast
  from step_index [OF step] have j: "j < length ts" "j < length ns" using tasks Suc sh by (simp_all add: sharers_def)
  from sh j(1) have s: "sharer fd (c_var c) g h j (ns ! j) (ts ! j)" by (simp add: sharers_def)
  then have t: "t_proc (ts ! j) = 0" "t_parent (ts ! j) = 0" by (simp_all add: sharer_def)
  from j(2) have le: "ns ! j \<le> sum_list ns" by (simp add: member_le_sum_list)
  have "thread_move V K fd b t ts j (ns ! j) g h ms c c'"
  proof (cases "h = Some j")
    case True
    with s T le holder_step [OF step [unfolded Suc] tasks j(1) _ t fd _ bal [unfolded True]] show ?thesis by (simp add: sharer_def)
  next
    case False
    with s show ?thesis by (intro other_step [OF step [unfolded Suc] tasks j(1) False _ t fd bal]) (simp add: sharer_def)
  qed
  then obtain p n' g' h' ms' where tasks': "c_tasks c' = t # ts[j := (ts ! j)\<lparr>t_code := p\<rparr>]" and lines': "lines_of 0 c' = lines_of 0 c"
    and s': "sharer fd (c_var c') g' h' j n' ((ts ! j)\<lparr>t_code := p\<rparr>)"
    and rest: "\<And>i. i \<noteq> j \<Longrightarrow> (h' = Some i \<longleftrightarrow> h = Some i) \<and> (h = Some i \<longrightarrow> c_var c' = c_var c \<and> g' = g)"
    and fd': "filled V K fd b (c_world c') (c_libs c') ms'" and sum: "length ms' + n' \<le> length ms + ns ! j"
    and cap: "cap V (c_world c') = cap V (c_world c)" and bal': "balanced g' h' (length ms') c'" unfolding thread_move_def by blast
  have "sum_list (ns[j := n']) = sum_list ns + n' - ns ! j" using j(2) by (rule sum_list_update)
  with sum le T(1) have "length ms' + sum_list (ns[j := n']) + n \<le> T" by simp
  then have "counting V K fd err b R T pre c'"
    unfolding counting_def using tasks' p0 ch lines lines' sharers_update [OF sh j(1) rest s'] fd' T(2) cap bal'
    by (intro exI [of _ t] exI [of _ "ts[j := (ts ! j)\<lparr>t_code := p\<rparr>]"] exI [of _ n] exI [of _ "ns[j := n']"] exI [of _ g']
        exI [of _ h'] exI [of _ ms']) simp
  then show ?thesis by blast
qed

section \<open>Progress\<close>

lemma holder_goes_on:
  assumes tasks: "c_tasks c = t0 # ts" and j: "j < length ts" and h: "holder fd (c_var c) g n (t_code (ts ! j))" and t: "t_proc (ts ! j) = 0"
    and fd: "filled V K fd b (c_world c) (c_libs c) ms" and room: "length ms + n \<le> cap V (c_world c)"
  shows "\<exists>c'. tstep P (Suc j) c c'"
proof -
  let ?i = "Suc j" and ?w = "c_world c"
  have at: "c_tasks c ! ?i = ts ! j" "?i < length (c_tasks c)" using tasks j by simp_all
  have use: "uses V ?w 0 fd b" using fd by (simp add: filled_def)
  have call: "\<exists>c'. tstep P ?i c c'" if "lib_call (calls P 0) (pass P) (t_code (ts ! j)) (c_libs c 0) ?w = Some (Done (p, c_libs c 0, w'))" for p w'
    using tstep.call [OF at(2), of P p "c_libs c 0" w'] that by (auto simp: at t)
  from h show ?thesis
  proof (cases rule: holder.cases)
    case (h_rand m k)
    then show ?thesis using at(2) by (auto simp: step_Rand at)
  next
    case (h_tid k)
    then show ?thesis using at(2) by (auto simp: step_Get_tid at PID_LIMIT_def intro: exI [of _ 0])
  next
    case (h_awake k)
    with awakes [OF use] uses_sane [OF use] show ?thesis by (auto simp: awake_barrier_def intro: call)
  next
    case (h_send m n1 k)
    with room have "length ms < cap V ?w" by simp
    from sends_filled [OF fd h_send(3) this] h_send show ?thesis by (auto intro: call)
  next
    case (h_read m k g1)
    from retrieves_filled [OF fd h_read(2)] h_read show ?thesis by (auto intro: call)
  qed (use at(2) in \<open>auto simp: step_Say step_Load_var step_Store_var step_Sem_post at\<close>)
qed

lemma other_goes_on:
  assumes tasks: "c_tasks c = t0 # ts" and j: "j < length ts" and code: "waiter fd n (t_code (ts ! j)) \<or> napper fd (t_code (ts ! j))"
    and t: "t_proc (ts ! j) = 0" and fd: "filled V K fd b (c_world c) (c_libs c) ms" and sem: "0 < c_sem c"
  shows "(\<exists>c'. tstep P (Suc j) c c') \<or> t_code (ts ! j) = Exit \<or> (\<exists>k. t_code (ts ! j) = Asleep fd k \<and> resting P (Suc j) 0 fd (c_world c))"
proof -
  let ?i = "Suc j" and ?w = "c_world c"
  have at: "c_tasks c ! ?i = ts ! j" "?i < length (c_tasks c)" using tasks j by simp_all
  have use: "uses V ?w 0 fd b" using fd by (simp add: filled_def)
  from code show ?thesis
  proof
    assume "waiter fd n (t_code (ts ! j))"
    then show ?thesis
      by (cases rule: waiter.cases) (use at(2) sem in \<open>auto simp: step_Say step_Sem_wait at\<close>)
  next
    assume "napper fd (t_code (ts ! j))"
    then show ?thesis
    proof (cases rule: napper.cases)
      case n_plain
      then show ?thesis by (cases rule: plain.cases) (use at(2) in \<open>auto simp: step_Say at\<close>)
    next
      case (n_nap k)
      from sleeps [OF use, of ?i "c_libs c 0"] obtain w' where "bed P ?i 0 fd ?w = Done w'" by blast
      with tstep.nap [OF at(2), of fd k P w'] n_nap show ?thesis by (auto simp: at t)
    qed (use at(2) in \<open>auto simp: step_Say step_Asleep at t\<close>)
  qed
qed

text \<open>The first task waits for a thread that nobody wakes; all others have ended or sleep as well.\<close>

lemma counting_over:
  assumes "counting V K fd err b R T pre c" and fin: "over P c"
  shows "code_of c 0 = Join R \<and> (\<exists>i k. i < length (c_tasks c) \<and> code_of c i = Asleep fd k)
    \<and> (\<forall>i < length (c_tasks c). 0 < i \<longrightarrow> code_of c i = Exit \<or> (\<exists>k. code_of c i = Asleep fd k) \<and> resting P i 0 fd (c_world c))"
proof -
  from assms(1) obtain t ts n ns g h ms where tasks: "c_tasks c = t # ts" and p0: "t_proc t = 0" and ch: "chief fd err R n (t_code t)"
    and sh: "sharers fd (c_var c) g h ns ts" and fd: "filled V K fd b (c_world c) (c_libs c) ms"
    and T: "length ms + sum_list ns + n \<le> T" "T \<le> cap V (c_world c)" and bal: "balanced g h (length ms) c"
    unfolding counting_def by blast
  let ?w = "c_world c"
  have use: "uses V ?w 0 fd b" and sane: "sane V ?w" using fd by (simp_all add: filled_def)
  have at: "c_tasks c ! 0 = t" "0 < length (c_tasks c)" using tasks by simp_all
  have stop: "\<not> tstep P i c c'" for i c' using fin by (auto simp: over_def cstep_def)
  have s: "sharer fd (c_var c) g h j (ns ! j) (ts ! j)" if "j < length ts" for j using sh that by (simp add: sharers_def)
  have "h = None"
  proof (rule ccontr)
    assume "h \<noteq> None"
    then obtain j where j: "h = Some j" "j < length ts" "j < length ns" using sh by (auto simp: sharers_def)
    then have "ns ! j \<le> sum_list ns" by (simp add: member_le_sum_list)
    with T have "length ms + ns ! j \<le> cap V ?w" by linarith
    with s [OF j(2)] j(1) holder_goes_on [OF tasks j(2) _ _ fd] stop show False by (auto simp: sharer_def)
  qed
  with bal have sem: "0 < c_sem c" by (simp add: balanced_def)
  have rest: "t_code (ts ! j) = Exit \<or> (\<exists>k. t_code (ts ! j) = Asleep fd k \<and> resting P (Suc j) 0 fd ?w)" if "j < length ts" for j
    using s [OF that] \<open>h = None\<close> other_goes_on [OF tasks that _ _ fd sem] stop by (simp add: sharer_def) blast
  have all: "\<forall>i < length (c_tasks c). 0 < i \<longrightarrow> code_of c i = Exit \<or> (\<exists>k. code_of c i = Asleep fd k) \<and> resting P i 0 fd ?w"
  proof (intro allI impI)
    fix i assume "i < length (c_tasks c)" "0 < i"
    then obtain j where "i = Suc j" "j < length ts" using tasks by (cases i) auto
    with rest [of j] tasks show "code_of c i = Exit \<or> (\<exists>k. code_of c i = Asleep fd k) \<and> resting P i 0 fd ?w" by auto
  qed
  from ch have wait: "t_code t = Join R"
  proof (cases rule: chief.cases)
    case (c_create n1 chl m k q)
    with at tstep.create [OF at(2), of chl k P] stop show ?thesis by simp
  next
    case (c_pause p x)
    from naps [OF sane, of x] obtain w' where "pass P x ?w = Done w'" by blast
    with tstep.call [OF at(2), of P p "c_libs c 0" w'] stop c_pause show ?thesis by (simp add: at p0)
  next
    case (c_awake k)
    from awakes [OF use] uses_sane [OF use] obtain w' where "awake_barrier (calls P 0) fd (c_libs c 0) ?w = Done (0, c_libs c 0, w')"
      by (auto simp: awake_barrier_def)
    with tstep.call [OF at(2), of P "k 0" "c_libs c 0" w'] stop c_awake show ?thesis by (simp add: at p0)
  qed
  have "\<not> list_all (\<lambda>u. t_code u = Exit) ts"
  proof
    assume "list_all (\<lambda>u. t_code u = Exit) ts"
    with step_Join [of c 0 R P "goes_on 0 R c"] stop wait tasks show False by (auto simp: list_all_iff)
  qed
  then obtain j where j: "j < length ts" "t_code (ts ! j) \<noteq> Exit" by (auto simp: list_all_length)
  with rest [OF j(1)] obtain k where "t_code (ts ! j) = Asleep fd k" by blast
  then have "Suc j < length (c_tasks c) \<and> code_of c (Suc j) = Asleep fd k" using tasks j by simp
  with wait all show ?thesis by (auto simp: at)
qed

lemma preparing_step:
  assumes "preparing V K C fd b S c" and step: "tstep P i c c'" and S: "chief fd err R T S" and C: "T \<le> C"
  shows "preparing V K C fd b S c' \<or> counting V K fd err b R T [Note ''EXECUTING'', Opened b fd] c'"
proof -
  from assms(1) obtain t where tasks: "c_tasks c = [t]" and p0: "t_proc t = 0" and fd: "filled V K fd b (c_world c) (c_libs c) []"
    and cap: "cap V (c_world c) = C"
    and stage: "t_code t = Say (Opened b fd) (Store_var 0 (Sem_init 1 S)) \<and> lines_of 0 c = [Note ''EXECUTING'']
       \<or> lines_of 0 c = [Note ''EXECUTING'', Opened b fd]
         \<and> (t_code t = Store_var 0 (Sem_init 1 S) \<or> t_code t = Sem_init 1 S \<and> c_var c = 0)"
    unfolding preparing_def by blast
  from step_index [OF step] tasks have i: "i = 0" by simp
  note step = step [unfolded i]
  from stage show ?thesis
  proof (elim disjE conjE)
    assume "t_code t = Say (Opened b fd) (Store_var 0 (Sem_init 1 S))" "lines_of 0 c = [Note ''EXECUTING'']"
    with step tasks p0 fd cap show ?thesis by (simp add: step_Say preparing_def)
  next
    assume "lines_of 0 c = [Note ''EXECUTING'', Opened b fd]" "t_code t = Store_var 0 (Sem_init 1 S)"
    with step tasks p0 fd cap show ?thesis by (simp add: step_Store_var preparing_def)
  next
    assume at: "lines_of 0 c = [Note ''EXECUTING'', Opened b fd]" "t_code t = Sem_init 1 S" "c_var c = 0"
    with step tasks have c': "c' = goes_on 0 S c\<lparr>c_sem := 1\<rparr>" by (simp add: step_Sem_init)
    have "counting V K fd err b R T [Note ''EXECUTING'', Opened b fd] c'"
      unfolding counting_def using at tasks p0 fd cap S C
      by (intro exI [of _ "t\<lparr>t_code := S\<rparr>"] exI [of _ "[]"] exI [of _ T] exI [of _ "[]"] exI [of _ 0] exI [of _ None] exI [of _ "[]"])
        (simp add: c' sharers_def balanced_def)
    then show ?thesis by blast
  qed
qed

lemma preparing_goes_on: "preparing V K C fd b S c \<Longrightarrow> \<not> over P c"
  unfolding preparing_def over_def cstep_def
  by (elim exE conjE disjE) (auto simp: step_Say step_Store_var step_Sem_init intro!: exI [of _ 0])

text \<open>The end of the program: the first task reads what should be there by the counter.\<close>

abbreviation (input) counted_read :: "u8 \<Rightarrow> int \<Rightarrow> int \<Rightarrow> prog" where
  "counted_read b fd v \<equiv> Say (Reading v) (read_loop fd [0..<nat v] zeros (\<lambda>_. closing b fd ends) (\<lambda>_. closing b fd ends))"

lemma joined_say:
  assumes "joined V K fd b (Say x p) T pre c" and step: "tstep P i c c'"
  shows "joined V K fd b p T (pre @ [x]) c'"
proof -
  from assms(1) obtain t ts ms where at: "c_tasks c = t # ts" "t_proc t = 0" "t_code t = Say x p" "list_all (\<lambda>u. t_code u = Exit) ts"
    "lines_of 0 c = pre" "filled V K fd b (c_world c) (c_libs c) ms" "c_var c \<le> int (length ms)" "length ms \<le> T" unfolding joined_def by blast
  have "i = 0" using exits_stop [OF at(1,4) step] .
  with step at have "c' = goes_on 0 p c\<lparr>c_lines := c_lines c @ [(0, x)]\<rparr>" by (simp add: step_Say)
  with at show ?thesis unfolding joined_def by (intro exI [of _ "t\<lparr>t_code := p\<rparr>"] exI [of _ ts] exI [of _ ms]) simp
qed

lemma joined_load:
  assumes "joined V K fd b (Load_var k) T pre c" and step: "tstep P i c c'"
  shows "\<exists>N. c_var c \<le> int N \<and> N \<le> T \<and> reading V P K fd b (k (c_var c)) N pre c'"
proof -
  from assms(1) obtain t ts ms where at: "c_tasks c = t # ts" "t_proc t = 0" "t_code t = Load_var k" "list_all (\<lambda>u. t_code u = Exit) ts"
    "lines_of 0 c = pre" "filled V K fd b (c_world c) (c_libs c) ms" "c_var c \<le> int (length ms)" "length ms \<le> T" unfolding joined_def by blast
  have "i = 0" using exits_stop [OF at(1,4) step] .
  with step at have "c' = goes_on 0 (k (c_var c)) c" by (simp add: step_Load_var)
  with at have "reading V P K fd b (k (c_var c)) (length ms) pre c'"
    unfolding reading_def alone_def by (intro exI [of _ "c_libs c"] exI [of _ "c_world c"] exI [of _ ms]) simp
  with at show ?thesis by blast
qed

lemma joined_goes_on:
  assumes "joined V K fd b R T pre c" and "(\<exists>x p. R = Say x p) \<or> (\<exists>k. R = Load_var k)"
  shows "\<not> over P c"
proof -
  from assms(1) obtain t ts where at: "c_tasks c = t # ts" "t_code t = R" unfolding joined_def by blast
  have "\<exists>c'. tstep P 0 c c'" using assms(2) at by (auto simp: step_Say step_Load_var)
  then show ?thesis by (auto simp: over_def cstep_def)
qed

lemma mt_ordinary_served:
  assumes w: "sane V w" "lib_max_message_size l = 0 \<or> lib_max_message_size l = size_of V w" "box V w 0 = empty_box" "\<not> delayed V w 0"
      "18 \<le> cap V w" "unat (size_of V w) < MESSAGE_SIZE"
    and run: "(cstep P)\<^sup>*\<^sup>* (starts mt_ordinary_main l w) c" and fin: "over P c"
  shows "may_fail P \<and> Note ''ERR: pthread_create'' \<in> set (lines_of 0 c)
    \<or> all_done c \<and> (\<exists>fd v ms. v \<le> int (length ms) \<and> length ms \<le> 18 \<and> list_all (signature (unat (size_of V w))) ms
        \<and> lines_of 0 c = [Note ''EXECUTING'', Opened 0 fd, Note ''Releasing resource'', Reading v] @ got_lines zeros (take (nat v) ms)
          @ [Closed 0 fd, Note ''DONE'']
        \<and> box V (c_world c) 0 = \<lparr>avail = drop (nat v) ms, held = []\<rparr>)
    \<or> (\<exists>fd p. code_of c 0 = Join p \<and> (\<exists>i k. i < length (c_tasks c) \<and> code_of c i = Asleep fd k)
        \<and> (\<forall>i < length (c_tasks c). 0 < i \<longrightarrow> code_of c i = Exit \<or> (\<exists>k. code_of c i = Asleep fd k) \<and> resting P i 0 fd (c_world c)))"
proof -
  let ?K = "unat (size_of V w)" and ?err = "Note ''ERR: pthread_create''"
  define J where "J fd = Say (Note ''Releasing resource'') (read_remaining fd)" for fd
  define S where "S fd = create_all (mt_ordinary_thread fd) [0..<THREADS] (Pause 8 (Awake fd (\<lambda>_. Pause 1 (Join (J fd))))) (closing 0 fd ends)" for fd
  define SP where "SP fd = Store_var 0 (Sem_init 1 (S fd))" for fd
  let ?pre = "\<lambda>fd. [Note ''EXECUTING'', Opened 0 fd]" and ?rel = "Note ''Releasing resource''"
  have main: "mt_ordinary_main = begins (open_or 0 ends SP)"
    by (simp add: mt_ordinary_main_def SP_def [abs_def] S_def J_def)
  have chief: "chief fd ?err (J fd) 18 (S fd)" if "0 \<le> fd" for fd
  proof -
    have "chief fd ?err (J fd) 0 (Pause 8 (Awake fd (\<lambda>_. Pause 1 (Join (J fd)))))" by (intro c_pause c_awake c_join)
    from create_chief [OF mt_ordinary_waiter [OF that] this] have "chief fd ?err (J fd) (length [0..<THREADS] * 6 + 0) (S fd)"
      unfolding S_def .
    then show ?thesis by (simp add: THREADS_def)
  qed
  have remaining: "read_remaining fd = Load_var (counted_read 0 fd)" for fd by (simp add: read_remaining_def)
  have R: "\<exists>w'. run (calls P 0) (pass P) (counted_read 0 fd v) (libs 0) w
      = Done (Reading v # got_lines zeros (take (nat v) ms) @ [Closed 0 fd, Note ''DONE''], libs 0, w')
    \<and> box V w' 0 = \<lparr>avail = drop (nat v) ms, held = []\<rparr>"
    if "filled V ?K fd 0 w libs ms" "length ms = N" "v \<le> int N" for fd v N w libs ms
    by (rule reader_run [OF that(1)]) (use that in simp)
  let ?reads = "\<lambda>fd c. \<exists>v N. v \<le> int N \<and> N \<le> 18 \<and> reading V P ?K fd 0 (counted_read 0 fd v) N (?pre fd @ [?rel]) c"
  let ?stage = "\<lambda>fd c. preparing V ?K (cap V w) fd 0 (S fd) c \<or> counting V ?K fd ?err 0 (J fd) 18 (?pre fd) c
    \<or> joined V ?K fd 0 (J fd) 18 (?pre fd) c \<or> joined V ?K fd 0 (read_remaining fd) 18 (?pre fd @ [?rel]) c \<or> ?reads fd c"
  have inv: "unopened 0 SP l w c \<or> (\<exists>fd. 0 \<le> fd \<and> ?stage fd c) \<or> failed P ?err c"
    using run
  proof (induction rule: rtranclp_induct)
    case base
    have "unopened 0 SP l w (starts mt_ordinary_main l w)" by (simp add: unopened_def starts_def lines_of_def main)
    then show ?case by blast
  next
    case (step c c')
    from step(2) obtain i where i: "tstep P i c c'" by (auto simp: cstep_def)
    from step(3) show ?case
    proof (elim disjE exE conjE)
      assume "unopened 0 SP l w c"
      from opens_step [OF this i w(1-4,6)] show ?thesis
      proof (elim disjE exE conjE)
        fix fd assume "0 \<le> fd" and "opened V ?K (cap V w) fd 0 SP c'"
        then have "preparing V ?K (cap V w) fd 0 (S fd) c'" unfolding opened_def preparing_def SP_def by blast
        with \<open>0 \<le> fd\<close> show ?thesis by blast
      qed blast
    next
      fix fd assume "0 \<le> fd" and "preparing V ?K (cap V w) fd 0 (S fd) c"
      with preparing_step [OF _ i chief w(5)] show ?thesis by blast
    next
      fix fd assume "0 \<le> fd" and "counting V ?K fd ?err 0 (J fd) 18 (?pre fd) c"
      with counting_step [OF _ i] show ?thesis by blast
    next
      fix fd assume "0 \<le> fd" and "joined V ?K fd 0 (J fd) 18 (?pre fd) c"
      with joined_say [OF _ i, of ?K fd 0 ?rel] show ?thesis unfolding J_def by blast
    next
      fix fd assume "0 \<le> fd" and "joined V ?K fd 0 (read_remaining fd) 18 (?pre fd @ [?rel]) c"
      from joined_load [OF this(2) [unfolded remaining] i] have "?reads fd c'" by blast
      with \<open>0 \<le> fd\<close> show ?thesis by blast
    next
      fix fd v N assume "0 \<le> fd" and N: "v \<le> int N" "N \<le> 18" and rd: "reading V P ?K fd 0 (counted_read 0 fd v) N (?pre fd @ [?rel]) c"
      from reading_step [OF rd i] R [OF _ _ N(1)] have "?reads fd c'" using N by blast
      with \<open>0 \<le> fd\<close> show ?thesis by blast
    next
      assume "failed P ?err c"
      with failed_step [OF _ i] show ?thesis by blast
    qed
  qed
  then show ?thesis
  proof (elim disjE exE conjE)
    assume "unopened 0 SP l w c"
    with unopened_goes_on w(1,2) fin show ?thesis by blast
  next
    fix fd assume "preparing V ?K (cap V w) fd 0 (S fd) c"
    with preparing_goes_on fin show ?thesis by blast
  next
    fix fd assume "counting V ?K fd ?err 0 (J fd) 18 (?pre fd) c"
    from counting_over [OF this fin] show ?thesis by blast
  next
    fix fd assume "joined V ?K fd 0 (J fd) 18 (?pre fd) c"
    with joined_goes_on fin show ?thesis unfolding J_def by blast
  next
    fix fd assume "joined V ?K fd 0 (read_remaining fd) 18 (?pre fd @ [?rel]) c"
    with joined_goes_on fin show ?thesis unfolding remaining by blast
  next
    fix fd v N assume N: "v \<le> int N" "N \<le> 18" and rd: "reading V P ?K fd 0 (counted_read 0 fd v) N (?pre fd @ [?rel]) c"
    have ok: "\<exists>r. run (calls P 0) (pass P) (counted_read 0 fd v) (libs 0) w = Done r"
      if "filled V ?K fd 0 w libs ms" "length ms = N" for libs w ms using R [OF that N(1)] by blast
    from reading_over [OF rd fin] ok obtain libs w' ms out where fin': "all_done c" "filled V ?K fd 0 w' libs ms" "length ms = N"
      and run': "run (calls P 0) (pass P) (counted_read 0 fd v) (libs 0) w' = Done (out, c_libs c 0, c_world c)"
      and lines: "lines_of 0 c = (?pre fd @ [?rel]) @ out" by blast
    from R [OF fin'(2,3) N(1)] run' have "out = Reading v # got_lines zeros (take (nat v) ms) @ [Closed 0 fd, Note ''DONE'']"
      "box V (c_world c) 0 = \<lparr>avail = drop (nat v) ms, held = []\<rparr>" by auto
    moreover have "list_all (signature ?K) ms" using fin'(2) by (simp add: filled_def)
    ultimately show ?thesis using fin' lines N by (intro disjI2 disjI1 conjI exI [of _ fd] exI [of _ v] exI [of _ ms]) simp_all
  next
    assume f: "failed P ?err c"
    from failed_over [OF f fin] f show ?thesis unfolding failed_def by blast
  qed
qed

end

end
