(* ===== verification/Scripts.thy ===== *)
theory Scripts
  imports Processes
begin

text \<open>
  Executions put together from the moves of single tasks: a script is what one task does while the
  others rest. Statements that some interleaving is possible are proved with them.
\<close>

section \<open>Moves of one task\<close>

text \<open>What a task is at, its process' library, the world and the counter.\<close>

type_synonym 'w moment = "prog \<times> lib \<times> 'w \<times> int"

inductive moves :: "('w, 'x) platform \<Rightarrow> nat \<Rightarrow> 'w moment \<Rightarrow> line list \<Rightarrow> 'w moment \<Rightarrow> bool" for P q where
  m_say: "moves P q (Say x p, l, w, v) [x] (p, l, w, v)"
| m_call: "lib_call (calls P q) (pass P) p l w = Some (Done (p', l', w')) \<Longrightarrow> moves P q (p, l, w, v) [] (p', l', w', v)"
| m_rand: "x < n \<Longrightarrow> moves P q (Rand n k, l, w, v) [] (k x, l, w, v)"
| m_tid: "x < PID_LIMIT \<Longrightarrow> moves P q (Get_tid k, l, w, v) [] (k x, l, w, v)"
| m_load: "moves P q (Load_var k, l, w, v) [] (k v, l, w, v)"
| m_store: "moves P q (Store_var x p, l, w, v) [] (p, l, w, x)"

inductive script :: "('w, 'x) platform \<Rightarrow> nat \<Rightarrow> 'w moment \<Rightarrow> line list \<Rightarrow> 'w moment \<Rightarrow> bool" for P q where
  sc_stop: "script P q s [] s"
| sc_move: "moves P q r out s \<Longrightarrow> script P q s out' t \<Longrightarrow> script P q r (out @ out') t"

lemma script_trans: "script P q r out s \<Longrightarrow> script P q s out' t \<Longrightarrow> script P q r (out @ out') t"
  by (induction rule: script.induct) (auto intro: script.intros)

text \<open>The same, one rule for each move.\<close>

lemma sc_say: "script P q (p, l, w, v) out s \<Longrightarrow> script P q (Say x p, l, w, v) (x # out) s"
  by (rule sc_move [OF m_say, simplified])

lemma sc_call: "lib_call (calls P q) (pass P) p l w = Some (Done (p', l', w')) \<Longrightarrow> script P q (p', l', w', v) out s \<Longrightarrow>
  script P q (p, l, w, v) out s"
  by (rule sc_move [OF m_call, simplified])

lemma sc_rand: "x < n \<Longrightarrow> script P q (k x, l, w, v) out s \<Longrightarrow> script P q (Rand n k, l, w, v) out s"
  by (rule sc_move [OF m_rand, simplified])

lemma sc_tid: "x < PID_LIMIT \<Longrightarrow> script P q (k x, l, w, v) out s \<Longrightarrow> script P q (Get_tid k, l, w, v) out s"
  by (rule sc_move [OF m_tid, simplified])

lemma sc_load: "script P q (k v, l, w, v) out s \<Longrightarrow> script P q (Load_var k, l, w, v) out s"
  by (rule sc_move [OF m_load, simplified])

lemma sc_store: "script P q (p, l, w, x) out s \<Longrightarrow> script P q (Store_var x p, l, w, v) out s"
  by (rule sc_move [OF m_store, simplified])

section \<open>Scenes\<close>

text \<open>A configuration that can be reached from \<open>a\<close>: its tasks and what they share, and what each has printed.\<close>

definition scene :: "('w, 'x) platform \<Rightarrow> 'w conf \<Rightarrow> task list \<Rightarrow> (nat \<Rightarrow> lib) \<Rightarrow> 'w \<Rightarrow> int \<Rightarrow> (nat \<Rightarrow> line list) \<Rightarrow> bool" where
  "scene P a ts ls w v ln \<longleftrightarrow> (\<exists>c. (cstep P)\<^sup>*\<^sup>* a c \<and> c_tasks c = ts \<and> c_libs c = ls \<and> c_world c = w \<and> c_var c = v
     \<and> (\<forall>j. lines_of j c = ln j))"

lemma scene_step:
  assumes "scene P a ts ls w v ln"
    and "\<And>c. c_tasks c = ts \<Longrightarrow> c_libs c = ls \<Longrightarrow> c_world c = w \<Longrightarrow> c_var c = v \<Longrightarrow> (\<And>j. lines_of j c = ln j) \<Longrightarrow>
      \<exists>i c'. tstep P i c c' \<and> c_tasks c' = ts' \<and> c_libs c' = ls' \<and> c_world c' = w' \<and> c_var c' = v' \<and> (\<forall>j. lines_of j c' = ln' j)"
  shows "scene P a ts' ls' w' v' ln'"
proof -
  from assms(1) obtain c where reach: "(cstep P)\<^sup>*\<^sup>* a c" and c: "c_tasks c = ts" "c_libs c = ls" "c_world c = w" "c_var c = v"
    "\<And>j. lines_of j c = ln j" unfolding scene_def by blast
  from assms(2) [OF c] obtain i c' where "tstep P i c c'" and c': "c_tasks c' = ts'" "c_libs c' = ls'" "c_world c' = w'" "c_var c' = v'"
    "\<forall>j. lines_of j c' = ln' j" by blast
  then have "cstep P c c'" by (auto simp: cstep_def)
  with reach have "(cstep P)\<^sup>*\<^sup>* a c'" by simp
  with c' show ?thesis unfolding scene_def by blast
qed

lemma tstep_moves:
  assumes "moves P q (p, l, w, v) out (p', l', w', v')" and "i < length (c_tasks c)" and "proc_of c i = q"
    and "p = code_of c i" and "l = c_libs c q" and "w = c_world c" and "v = c_var c"
  shows "\<exists>c'. tstep P i c c' \<and> c_tasks c' = (c_tasks c)[i := (c_tasks c ! i)\<lparr>t_code := p'\<rparr>] \<and> c_libs c' = (c_libs c)(q := l')
    \<and> c_world c' = w' \<and> c_var c' = v' \<and> (\<forall>j. lines_of j c' = lines_of j c @ (if j = i then out else []))"
  using assms(1)
proof (cases rule: moves.cases)
  case (m_say x)
  with assms tstep.say [of i c x p' P] show ?thesis
    by (intro exI [of _ "goes_on i p' c\<lparr>c_lines := c_lines c @ [(i, x)]\<rparr>"]) auto
next
  case m_call
  with assms tstep.call [of i c P p' l' w'] show ?thesis
    by (intro exI [of _ "goes_on i p' c\<lparr>c_libs := (c_libs c)(proc_of c i := l'), c_world := w'\<rparr>"]) auto
next
  case (m_rand x n k)
  with assms tstep.rand [of i c n k x P] show ?thesis by (intro exI [of _ "goes_on i p' c"]) auto
next
  case (m_tid x k)
  with assms tstep.gettid [of i c k x P] show ?thesis by (intro exI [of _ "goes_on i p' c"]) auto
next
  case (m_load k)
  with assms tstep.load [of i c k P] show ?thesis by (intro exI [of _ "goes_on i p' c"]) auto
next
  case m_store
  with assms tstep.store [of i c v' p' P] show ?thesis by (intro exI [of _ "goes_on i p' c\<lparr>c_var := v'\<rparr>"]) auto
qed

text \<open>A task plays its script.\<close>

lemma scene_script:
  assumes "script P q m out m'" and "scene P a ts ls w v ln" and "i < length ts" and "t_proc (ts ! i) = q"
    and "m = (t_code (ts ! i), ls q, w, v)" and "m' = (p', l', w', v')"
  shows "scene P a (ts[i := (ts ! i)\<lparr>t_code := p'\<rparr>]) (ls(q := l')) w' v' (ln(i := ln i @ out))"
  using assms
proof (induction arbitrary: ts ls w v ln rule: script.induct)
  case (sc_stop s)
  then show ?case by simp
next
  case (sc_move m out s out' t)
  obtain p1 l1 w1 v1 where s: "s = (p1, l1, w1, v1)" by (cases s)
  note mv = sc_move.hyps(1) [unfolded s sc_move.prems(4)]
  from sc_move.prems(1) have "scene P a (ts[i := (ts ! i)\<lparr>t_code := p1\<rparr>]) (ls(q := l1)) w1 v1 (ln(i := ln i @ out))"
  proof (rule scene_step)
    fix c assume c: "c_tasks c = ts" "c_libs c = ls" "c_world c = w" "c_var c = v" "\<And>j. lines_of j c = ln j"
    from tstep_moves [OF mv, of i c] c sc_move.prems(2,3)
    show "\<exists>i' c'. tstep P i' c c' \<and> c_tasks c' = ts[i := (ts ! i)\<lparr>t_code := p1\<rparr>] \<and> c_libs c' = ls(q := l1) \<and> c_world c' = w1
      \<and> c_var c' = v1 \<and> (\<forall>j. lines_of j c' = (ln(i := ln i @ out)) j)" by fastforce
  qed
  from sc_move.IH [OF this] sc_move.prems(2,3,5) show ?case by (simp add: s cong: if_cong)
qed

text \<open>The other steps.\<close>

lemma scene_starts: "scene P (starts p l w) [\<lparr>t_proc = 0, t_parent = 0, t_code = p\<rparr>] (\<lambda>_. l) w 0 (\<lambda>_. [])"
  unfolding scene_def by (intro exI [of _ "starts p l w"]) (simp add: starts_def lines_of_def)

lemma scene_fork:
  assumes "scene P a ts ls w v ln" and "i < length ts" and "t_code (ts ! i) = Fork ch k" and "q = t_proc (ts ! i)"
  shows "scene P a (ts[i := (ts ! i)\<lparr>t_code := k True\<rparr>] @ [\<lparr>t_proc = length ts, t_parent = i, t_code = ch\<rparr>])
    (ls(length ts := ls q)) (spawn P q (length ts) w) v ln"
  using assms(1)
proof (rule scene_step)
  fix c assume c: "c_tasks c = ts" "c_libs c = ls" "c_world c = w" "c_var c = v" "\<And>j. lines_of j c = ln j"
  let ?q = "length (c_tasks c)"
  let ?c = "adds i ?q ch (goes_on i (k True) c)\<lparr>c_libs := (c_libs c)(?q := c_libs c (proc_of c i)),
      c_world := spawn P (proc_of c i) ?q (c_world c)\<rparr>"
  have "tstep P i c ?c" by (rule tstep.fork) (simp_all add: c(1) assms(2,3))
  with c assms(4)
  show "\<exists>i' c'. tstep P i' c c' \<and> c_tasks c' = ts[i := (ts ! i)\<lparr>t_code := k True\<rparr>] @ [\<lparr>t_proc = length ts, t_parent = i, t_code = ch\<rparr>]
    \<and> c_libs c' = ls(length ts := ls q) \<and> c_world c' = spawn P q (length ts) w \<and> c_var c' = v \<and> (\<forall>j. lines_of j c' = ln j)"
    by (intro exI [of _ i] exI [of _ ?c]) simp
qed

lemma scene_create:
  assumes "scene P a ts ls w v ln" and "i < length ts" and "t_code (ts ! i) = Create ch k"
  shows "scene P a (ts[i := (ts ! i)\<lparr>t_code := k True\<rparr>] @ [\<lparr>t_proc = t_proc (ts ! i), t_parent = i, t_code = ch\<rparr>]) ls w v ln"
  using assms(1)
proof (rule scene_step)
  fix c assume c: "c_tasks c = ts" "c_libs c = ls" "c_world c = w" "c_var c = v" "\<And>j. lines_of j c = ln j"
  from tstep.create [of i c ch k P] c assms(2,3)
  show "\<exists>i' c'. tstep P i' c c' \<and> c_tasks c' = ts[i := (ts ! i)\<lparr>t_code := k True\<rparr>] @ [\<lparr>t_proc = t_proc (ts ! i), t_parent = i, t_code = ch\<rparr>]
    \<and> c_libs c' = ls \<and> c_world c' = w \<and> c_var c' = v \<and> (\<forall>j. lines_of j c' = ln j)"
    by (intro exI [of _ i] exI [of _ "adds i (proc_of c i) ch (goes_on i (k True) c)"]) simp
qed

lemma scene_join:
  assumes "scene P a ts ls w v ln" and "i < length ts" and "t_code (ts ! i) = Join p"
    and "list_all (\<lambda>t. t_parent t = i \<longrightarrow> t_code t = Exit) (drop (Suc i) ts)"
  shows "scene P a (ts[i := (ts ! i)\<lparr>t_code := p\<rparr>]) ls w v ln"
  using assms(1)
proof (rule scene_step)
  fix c assume c: "c_tasks c = ts" "c_libs c = ls" "c_world c = w" "c_var c = v" "\<And>j. lines_of j c = ln j"
  from tstep.join [of i c p P] c assms(2-4)
  show "\<exists>i' c'. tstep P i' c c' \<and> c_tasks c' = ts[i := (ts ! i)\<lparr>t_code := p\<rparr>]
    \<and> c_libs c' = ls \<and> c_world c' = w \<and> c_var c' = v \<and> (\<forall>j. lines_of j c' = ln j)"
    by (intro exI [of _ i] exI [of _ "goes_on i p c"]) simp
qed

lemma scene_nap:
  assumes "scene P a ts ls w v ln" and "i < length ts" and "t_code (ts ! i) = Nap fd k" and "bed P i (t_proc (ts ! i)) fd w = Done w'"
  shows "scene P a (ts[i := (ts ! i)\<lparr>t_code := Asleep fd k\<rparr>]) ls w' v ln"
  using assms(1)
proof (rule scene_step)
  fix c assume c: "c_tasks c = ts" "c_libs c = ls" "c_world c = w" "c_var c = v" "\<And>j. lines_of j c = ln j"
  from tstep.nap [of i c fd k P w'] c assms(2-4)
  show "\<exists>i' c'. tstep P i' c c' \<and> c_tasks c' = ts[i := (ts ! i)\<lparr>t_code := Asleep fd k\<rparr>]
    \<and> c_libs c' = ls \<and> c_world c' = w' \<and> c_var c' = v \<and> (\<forall>j. lines_of j c' = ln j)"
    by (intro exI [of _ i] exI [of _ "goes_on i (Asleep fd k) c\<lparr>c_world := w'\<rparr>"]) simp
qed

end
