(* ===== verification/Schedules.thy ===== *)
theory Schedules
  imports Counter_Laws Scripts
begin

text \<open>
  Interleavings of the test programs that go wrong, on any system that keeps the laws of
  \<open>parallel_client\<close>: a child that goes to bed after the barrier has been awakened, and two
  threads whose updates of a shared counter overlap.
\<close>

context parallel_client
begin

text \<open>Opening a group, and waking the barrier after a pause.\<close>

lemma opens_script:
  assumes "sane V w" and "lib_max_message_size l = 0 \<or> lib_max_message_size l = size_of V w"
  shows "\<exists>fd l' w'. script P p (begins (open_or b ends SP), l, w, v) [Note ''EXECUTING'', Opened b fd] (SP fd, l', w', v)
    \<and> lib_max_message_size l' = size_of V w \<and> 0 \<le> fd \<and> sane V w' \<and> uses V w' p fd b
    \<and> box V w' = box V w \<and> delayed V w' = delayed V w \<and> cap V w' = cap V w \<and> size_of V w' = size_of V w"
proof -
  from opens [OF assms, of p b] obtain fd l' w' where op: "open_group (calls P p) (Some b) l w = Done (fd, l', w')"
    "lib_max_message_size l' = size_of V w" "0 \<le> fd" "sane V w'" "uses V w' p fd b"
    "box V w' = box V w" "delayed V w' = delayed V w" "cap V w' = cap V w" "size_of V w' = size_of V w" by blast
  then have "lib_call (calls P p) (pass P) (open_or b ends SP) l w = Some (Done (Say (Opened b fd) (SP fd), l', w'))"
    by (simp add: open_or_def)
  then have "script P p (begins (open_or b ends SP), l, w, v) [Note ''EXECUTING'', Opened b fd] (SP fd, l', w', v)"
    unfolding begins_def by (rule sc_say [OF sc_call [OF _ sc_say [OF sc_stop]]])
  with op show ?thesis by blast
qed

lemma wakes_script:
  assumes "uses V w p fd b"
  shows "\<exists>w'. script P p (Pause n (Awake fd k), l, w, v) [] (k 0, l, w', v) \<and> sane V w' \<and> uses V w' = uses V w \<and> delayed V w' = delayed V w
    \<and> cap V w' = cap V w \<and> size_of V w' = size_of V w \<and> (held (box V w b) = [] \<longrightarrow> box V w' b = box V w b)"
proof -
  from uses_sane [OF assms] have sane: "sane V w" and fd: "0 \<le> fd" by simp_all
  from naps [OF sane, of n] obtain w1 where w1: "pass P n w = Done w1" "sane V w1" "uses V w1 = uses V w" "delayed V w1 = delayed V w"
    "cap V w1 = cap V w" "size_of V w1 = size_of V w" "\<forall>c. held (box V w c) = [] \<longrightarrow> box V w1 c = box V w c" by blast
  with assms have "uses V w1 p fd b" by simp
  from awakes [OF this] obtain w2 where w2: "os_ioctl (calls P p) fd IOCTL_AWAKE_BARRIER No_arg w1 = Done (0, No_arg, w2)"
    and act: "acts V b [] w1 w2" by blast
  from w1(1) w2 fd have "script P p (Pause n (Awake fd k), l, w, v) [] (k 0, l, w2, v)"
    by (intro sc_call [of P p _ l w "Awake fd k" l w1] sc_call [of P p _ l w1 "k 0" l w2] sc_stop) (simp_all add: awake_barrier_def)
  with w1 act show ?thesis by (auto simp: acts_def)
qed

lemma pause_filled:
  assumes "filled V K fd b w libs ms"
  shows "\<exists>w'. pass P n w = Done w' \<and> filled V K fd b w' libs ms \<and> cap V w' = cap V w"
proof -
  from assms have "sane V w" by (simp add: filled_def)
  from naps [OF this, of n] assms show ?thesis by (auto simp: filled_def)
qed

section \<open>A child that goes to bed too late\<close>

text \<open>
  \<open>sleep\<close>: nothing makes the child sleep before its parent lowers the barrier two seconds later. If it
  does so afterwards, nobody wakes it, and the parent waits for it for ever.
\<close>

lemma sleep_hangs:
  assumes "sane V w" and "lib_max_message_size l = 0 \<or> lib_max_message_size l = size_of V w"
  shows "\<exists>c fd p k. (cstep P)\<^sup>*\<^sup>* (starts sleep_main l w) c \<and> over P c \<and> length (c_tasks c) = 2
    \<and> code_of c 0 = Join p \<and> code_of c 1 = Asleep fd k \<and> resting P 1 1 fd (c_world c)
    \<and> Note ''Barrier awakened'' \<in> set (lines_of 0 c) \<and> Note ''Going to bed'' \<in> set (lines_of 1 c)"
proof -
  define J where "J fd = Join (closing 1 fd ends)" for fd
  define A where "A fd = Say (Note ''Barrier awakened'') (Pause 2 (J fd))" for fd
  define W where "W fd = Pause 2 (Awake fd (\<lambda>_. A fd))" for fd
  define N where "N fd ret = (if ret < 0 then Say (Note ''ERR: Cannot sleep'') else (\<lambda>p. p))
       (Say (Note ''What a beautiful nap!'') (Close_group fd ends))" for fd and ret :: int
  define SP where "SP fd = fork_all (\<lambda>_. sleep_child fd) [0] (W fd) (closing 1 fd ends)" for fd
  let ?a = "starts sleep_main l w" and ?t0 = "\<lambda>p. \<lparr>t_proc = 0, t_parent = 0, t_code = p\<rparr>" and ?t1 = "\<lambda>p. \<lparr>t_proc = 1, t_parent = 0, t_code = p\<rparr>"
  have main: "sleep_main = begins (open_or 1 ends SP)"
    by (simp add: sleep_main_def W_def A_def J_def SP_def [abs_def])
  have child: "sleep_child fd = Say (Note ''STARTED'') (Say (Note ''Going to bed'') (Nap fd (N fd)))" for fd
    by (simp add: sleep_child_def N_def [abs_def])
  \<comment> \<open>the parent opens the group and forks the child\<close>
  from opens_script [OF assms, of 0 1 SP 0] obtain fd l1 w1 where
    s1: "script P 0 (sleep_main, l, w, 0) [Note ''EXECUTING'', Opened 1 fd] (SP fd, l1, w1, 0)" and fd: "0 \<le> fd"
    and w1: "sane V w1" "uses V w1 0 fd 1" unfolding main by blast
  from scene_script [OF s1 scene_starts, of 0] have
    "scene P ?a [?t0 (SP fd)] ((\<lambda>_. l)(0 := l1)) w1 0 ((\<lambda>_. [])(0 := [Note ''EXECUTING'', Opened 1 fd]))" by simp
  from scene_fork [OF this, of 0 "sleep_child fd" "\<lambda>done. if done then W fd else Say (Note ''ERR: fork'') (closing 1 fd ends)" 0]
  have f: "scene P ?a [?t0 (W fd), ?t1 (sleep_child fd)] ((\<lambda>_. l)(0 := l1, 1 := l1)) (spawn P 0 1 w1) 0
      ((\<lambda>_. [])(0 := [Note ''EXECUTING'', Opened 1 fd]))" by (simp add: SP_def cong: if_cong)
  note sp = spawns [OF w1(1), of 0 1]
  with w1(2) have u: "uses V (spawn P 0 1 w1) 0 fd 1" "uses V (spawn P 0 1 w1) 1 fd 1" by simp_all
  \<comment> \<open>and wakes it, while the child has not run yet\<close>
  from wakes_script [OF u(1), of 2 "\<lambda>_. A fd" l1 0] obtain w2 where
    wake: "script P 0 (W fd, l1, spawn P 0 1 w1, 0) [] (A fd, l1, w2, 0)" and w2: "sane V w2" "uses V w2 = uses V (spawn P 0 1 w1)"
    unfolding W_def by blast
  from naps [OF w2(1), of 2] obtain w3 where nap: "pass P 2 w2 = Done w3" and w3: "uses V w3 = uses V w2" by blast
  have "script P 0 (A fd, l1, w2, 0) [Note ''Barrier awakened''] (J fd, l1, w3, 0)"
    unfolding A_def by (rule sc_say, rule sc_call [OF _ sc_stop]) (simp add: nap)
  from scene_script [OF script_trans [OF wake this] f, of 0]
  have g: "scene P ?a [?t0 (J fd), ?t1 (sleep_child fd)] ((\<lambda>_. l)(0 := l1, 1 := l1)) w3 0
      ((\<lambda>_. [])(0 := [Note ''EXECUTING'', Opened 1 fd, Note ''Barrier awakened'']))" by (simp add: fun_upd_twist)
  \<comment> \<open>the child goes to bed\<close>
  have "script P 1 (sleep_child fd, l1, w3, 0) [Note ''STARTED'', Note ''Going to bed''] (Nap fd (N fd), l1, w3, 0)"
    unfolding child by (intro sc_say sc_stop)
  from scene_script [OF this g, of 1]
  have h: "scene P ?a [?t0 (J fd), ?t1 (Nap fd (N fd))] ((\<lambda>_. l)(0 := l1, 1 := l1)) w3 0
      ((\<lambda>_. [])(0 := [Note ''EXECUTING'', Opened 1 fd, Note ''Barrier awakened''], 1 := [Note ''STARTED'', Note ''Going to bed'']))" by simp
  from u(2) w2(2) w3 have "uses V w3 1 fd 1" by simp
  from beds [OF this, of 1] obtain w4 where bed: "bed P 1 1 fd w3 = Done w4" and rest: "resting P 1 1 fd w4" by blast
  from scene_nap [OF h, of 1 fd "N fd" w4] bed obtain c where reach: "(cstep P)\<^sup>*\<^sup>* ?a c"
    and c: "c_tasks c = [?t0 (J fd), ?t1 (Asleep fd (N fd))]" "c_world c = w4"
    "lines_of 0 c = [Note ''EXECUTING'', Opened 1 fd, Note ''Barrier awakened'']" "lines_of 1 c = [Note ''STARTED'', Note ''Going to bed'']"
    unfolding scene_def by auto
  have "over P c"
    unfolding over_def cstep_def
  proof safe
    fix c' i assume step: "tstep P i c c'"
    from step_index [OF step] c(1) consider "i = 0" | "i = 1" by fastforce
    then show False
      by cases (use step c rest step_Asleep [of c 1 fd "N fd" P c'] in \<open>simp_all add: step_Join J_def\<close>)
  qed
  with reach c rest show ?thesis by (intro exI [of _ c] exI [of _ fd] exI [of _ "closing 1 fd ends"] exI [of _ "N fd"]) (simp add: J_def)
qed

end

section \<open>An update of the counter that is lost\<close>

text \<open>\<open>mt_ordinary_chaotic\<close>: what a thread does after it has stored the new value of the counter.\<close>

definition share :: "int \<Rightarrow> nat \<Rightarrow> nat \<Rightarrow> prog" where
  "share fd n r = Say (Note ''is going to'') (Get_tid (\<lambda>tid. Say (Writing n) (send_loop fd (\<lambda>_. was_here tid) [0..<n] zeros
     (\<lambda>_. Say (Reading (int r)) (read_loop fd [0..<r] zeros (\<lambda>_. ends) (\<lambda>_. ends))) (\<lambda>_. ends))))"

context parallel_client
begin

lemma chaotic_script:
  assumes "0 \<le> fd" and "n < 7" and "r < 7"
  shows "script P q (mt_chaotic_thread fd, l, w, v) [Note ''STARTED''] (Store_var (v + int n - int r) (share fd n r), l, w, v)"
proof -
  have five: "(1::nat) < 5" and two: "(0::nat) < 2" by simp_all
  have "script P q (mt_body fd (\<lambda>p. p), l, w, v) [] (Store_var (v + int n - int r) (share fd n r), l, w, v)"
    unfolding mt_body_def
    by (rule sc_rand [OF assms(2)], rule sc_rand [OF assms(3)], rule sc_rand [OF five], rule sc_rand [OF two], rule sc_load)
      (simp add: share_def Let_def sc_stop)
  then show ?thesis using assms(1) by (simp add: mt_chaotic_thread_def sc_say)
qed

lemma ends_script: "script P q (ends, l, w, v) [Note ''DONE''] (Exit, l, w, v)"
  unfolding ends_def by (rule sc_say [OF sc_stop])

lemma pid_0: "0 < PID_LIMIT"
  by (simp add: PID_LIMIT_def)

lemma share_none: "script P q (share fd 0 0, l, w, v) [Note ''is going to'', Writing 0, Reading 0, Note ''DONE''] (Exit, l, w, v)"
  unfolding share_def by (simp, rule sc_say, rule sc_tid [OF pid_0], intro sc_say ends_script)

lemma share_writes:
  assumes "filled V K fd b w libs ms" and "length ms < cap V w"
  shows "\<exists>w' x y. script P 0 (share fd 1 0, libs 0, w, v) [Note ''is going to'', Writing 1, Written y, Reading 0, Note ''DONE''] (Exit, libs 0, w', v)
    \<and> filled V K fd b w' libs (ms @ [x]) \<and> cap V w' = cap V w"
proof -
  let ?m = "bytes_of (was_here 0) @ 0 # drop (length (was_here 0) + 1) zeros"
  have len: "length (was_here 0) < MESSAGE_SIZE" by (rule was_here_facts(3) [OF pid_0])
  then have "length ?m = MESSAGE_SIZE" by simp
  with pid_0 have "signed ?m" unfolding signed_def by blast
  from sends_filled [OF assms(1) this assms(2)] obtain ret w' x where
    send: "send_message (calls P 0) fd (Some ?m) (libs 0) w = Done (ret, Some ?m, libs 0, w')" "0 \<le> ret"
    and w': "filled V K fd b w' libs (ms @ [x])" "cap V w' = cap V w" by blast
  let ?rest = "Say (Written (cstr ?m)) (Say (Reading 0) ends)"
  have call: "lib_call (calls P 0) (pass P) (send_loop fd (\<lambda>_. was_here 0) [0..<1] zeros
      (\<lambda>_. Say (Reading (int 0)) (read_loop fd [0..<0] zeros (\<lambda>_. ends) (\<lambda>_. ends))) (\<lambda>_. ends)) (libs 0) w = Some (Done (?rest, libs 0, w'))"
    using send len by (simp add: sprintf_to_def)
  have "script P 0 (?rest, libs 0, w', v) [Written (cstr ?m), Reading 0, Note ''DONE''] (Exit, libs 0, w', v)"
    by (intro sc_say ends_script)
  from sc_call [OF call this]
  have "script P 0 (share fd 1 0, libs 0, w, v) [Note ''is going to'', Writing 1, Written (cstr ?m), Reading 0, Note ''DONE''] (Exit, libs 0, w', v)"
    unfolding share_def by (intro sc_say sc_tid [OF pid_0])
  with w' show ?thesis by blast
qed

lemma share_reads:
  assumes "filled V K fd b w libs (m # ms)"
  shows "\<exists>w' n y. script P 0 (share fd 0 1, libs 0, w, v) [Note ''is going to'', Writing 0, Reading 1, Got n y, Note ''DONE''] (Exit, libs 0, w', v)
    \<and> filled V K fd b w' libs ms \<and> cap V w' = cap V w"
proof -
  from retrieves_filled [OF assms zeros_facts(1)] obtain ret m' w' where
    get: "retrieve_message (calls P 0) fd zeros MESSAGE_SIZE (libs 0) w = Done (ret, m', libs 0, w')" "0 < ret"
    and w': "filled V K fd b w' libs ms" "cap V w' = cap V w" by auto
  have call: "lib_call (calls P 0) (pass P) (read_loop fd [0..<1] zeros (\<lambda>_. ends) (\<lambda>_. ends)) (libs 0) w
    = Some (Done (Say (Got ret (cstr m')) ends, libs 0, w'))" using get by simp
  have "script P 0 (Say (Got ret (cstr m')) ends, libs 0, w', v) [Got ret (cstr m'), Note ''DONE''] (Exit, libs 0, w', v)"
    by (intro sc_say ends_script)
  note sc_call [OF call this]
  then have "script P 0 (share fd 0 1, libs 0, w, v) [Note ''is going to'', Writing 0, Reading 1, Got ret (cstr m'), Note ''DONE''] (Exit, libs 0, w', v)"
    unfolding share_def by (simp del: upt_Suc upt_conv_Cons add: sc_say sc_tid [OF pid_0])
  with w' show ?thesis by blast
qed

text \<open>The end of the main thread, when the counter is 1 and the group is empty.\<close>

lemma remaining_script:
  assumes "filled V K fd b w libs []"
  shows "\<exists>w'. script P 0 (read_remaining fd, libs 0, w, 1) [Reading 1, No_more, Closed 0 fd, Note ''DONE''] (Exit, libs 0, w', 1)"
proof -
  from retrieves_filled [OF assms zeros_facts(1)] obtain m' w1 where
    get: "retrieve_message (calls P 0) fd zeros MESSAGE_SIZE (libs 0) w = Done (0, m', libs 0, w1)"
    and w1: "filled V K fd b w1 libs []" by auto
  from w1 have use: "uses V w1 0 fd b" by (simp add: filled_def)
  from closes [OF use] uses_sane [OF use] obtain w2 where cl: "close_group (calls P 0) fd (libs 0) w1 = Done (libs 0, w2)"
    by (auto simp: close_group_def)
  have "script P 0 (closing 0 fd ends, libs 0, w1, 1) [Closed 0 fd, Note ''DONE''] (Exit, libs 0, w2, 1)"
    unfolding closing_def by (rule sc_call [OF _ sc_say [OF ends_script]]) (simp add: cl)
  note tail = this
  have "lib_call (calls P 0) (pass P) (read_loop fd [0..<1] zeros (\<lambda>_. closing 0 fd ends) (\<lambda>_. closing 0 fd ends)) (libs 0) w
    = Some (Done (Say No_more (closing 0 fd ends), libs 0, w1))" using get by simp
  note sc_call [OF this sc_say [OF tail]]
  then have "script P 0 (read_remaining fd, libs 0, w, 1) [Reading 1, No_more, Closed 0 fd, Note ''DONE''] (Exit, libs 0, w2, 1)"
    unfolding read_remaining_def by (intro sc_load) (simp del: upt_Suc upt_conv_Cons add: sc_say)
  then show ?thesis by blast
qed

end

text \<open>The main thread after the threads have been created, and after they have ended.\<close>

definition chaos_end :: "int \<Rightarrow> prog" where
  "chaos_end fd = Say (Note ''Thread creation and join'') (Pause 5 (read_remaining fd))"

definition chaos_wait :: "int \<Rightarrow> prog" where
  "chaos_wait fd = Pause 5 (Awake fd (\<lambda>_. Pause 1 (Join (chaos_end fd))))"

abbreviation (input) thread0 :: "prog \<Rightarrow> task" where
  "thread0 p \<equiv> \<lparr>t_proc = 0, t_parent = 0, t_code = p\<rparr>"

context parallel_client
begin

lemma chaotic_created:
  assumes "sane V w" and "lib_max_message_size l = 0 \<or> lib_max_message_size l = size_of V w" and "box V w 0 = empty_box"
    and "\<not> delayed V w 0" and "unat (size_of V w) < MESSAGE_SIZE"
  shows "\<exists>fd L w1. 0 \<le> fd \<and> filled V (unat (size_of V w)) fd 0 w1 L [] \<and> cap V w1 = cap V w
    \<and> scene P (starts mt_chaotic_main l w) (thread0 (chaos_wait fd) # replicate 3 (thread0 (mt_chaotic_thread fd))) L w1 0
        ((\<lambda>_. [])(0 := [Note ''EXECUTING'', Opened 0 fd]))"
proof -
  define C where "C fd xs = create_all (mt_chaotic_thread fd) xs (chaos_wait fd) (closing 0 fd ends)" for fd xs
  define SP where "SP fd = Store_var 0 (C fd [0..<THREADS])" for fd
  let ?a = "starts mt_chaotic_main l w"
  have main: "mt_chaotic_main = begins (open_or 0 ends SP)"
    by (simp add: mt_chaotic_main_def SP_def [abs_def] C_def chaos_wait_def chaos_end_def)
  from opens_script [OF assms(1,2), of 0 0 SP 0] obtain fd l1 w1 where
    s1: "script P 0 (mt_chaotic_main, l, w, 0) [Note ''EXECUTING'', Opened 0 fd] (SP fd, l1, w1, 0)" and fd: "0 \<le> fd"
    and w1: "lib_max_message_size l1 = size_of V w" "sane V w1" "uses V w1 0 fd 0" "box V w1 = box V w" "delayed V w1 = delayed V w"
      "cap V w1 = cap V w" "size_of V w1 = size_of V w" unfolding main by blast
  define L where "L = (\<lambda>_::nat. l)(0 := l1)"
  have f1: "filled V (unat (size_of V w)) fd 0 w1 L []" using w1 assms by (simp add: filled_def L_def)
  let ?T = "mt_chaotic_thread fd" and ?ln = "(\<lambda>_. [])(0 := [Note ''EXECUTING'', Opened 0 fd])"
  have "script P 0 (SP fd, l1, w1, 0) [] (C fd [0, 1, 2], l1, w1, 0)"
    unfolding SP_def by (rule sc_store) (simp add: THREADS_def numeral_3_eq_3 sc_stop upt_rec numeral_2_eq_2)
  from scene_script [OF script_trans [OF s1 this] scene_starts, of 0]
  have "scene P ?a [thread0 (C fd [0, 1, 2])] L w1 0 ?ln" by (simp add: L_def)
  note a = this
  have C: "C fd (x # xs) = Create ?T (\<lambda>done. if done then C fd xs else Say (Note ''ERR: pthread_create'') (closing 0 fd ends))" for x xs
    by (simp add: C_def cong: if_cong)
  from scene_create [OF a, of 0 ?T] have "scene P ?a [thread0 (C fd [1, 2]), thread0 ?T] L w1 0 ?ln" by (simp add: C)
  from scene_create [OF this, of 0 ?T] have "scene P ?a [thread0 (C fd [2]), thread0 ?T, thread0 ?T] L w1 0 ?ln" by (simp add: C)
  from scene_create [OF this, of 0 ?T] have "scene P ?a (thread0 (chaos_wait fd) # replicate 3 (thread0 ?T)) L w1 0 ?ln"
    by (simp add: C numeral_3_eq_3) (simp add: C_def)
  with fd f1 w1(6) show ?thesis by blast
qed

text \<open>
  The first two threads read the counter before one of them has written it. The first one adds 1
  and writes a message, the second one subtracts 1 and reads it, the third one does nothing.
\<close>

lemma chaotic_threads:
  assumes fd: "0 \<le> fd" and f1: "filled V K fd 0 w1 L []" and cap: "1 \<le> cap V w1"
    and b: "scene P a (t0 # replicate 3 (thread0 (mt_chaotic_thread fd))) L w1 0 ln" and ln: "ln 1 = []" "ln 2 = []" "ln 3 = []"
  shows "\<exists>w' x n y. filled V K fd 0 w' L [] \<and> scene P a (t0 # replicate 3 (thread0 Exit)) L w' 1 (ln
    (1 := [Note ''STARTED'', Note ''is going to'', Writing 1, Written x, Reading 0, Note ''DONE''],
     2 := [Note ''STARTED'', Note ''is going to'', Writing 0, Reading 1, Got n y, Note ''DONE''],
     3 := [Note ''STARTED'', Note ''is going to'', Writing 0, Reading 0, Note ''DONE'']))"
proof -
  let ?T = "thread0 (mt_chaotic_thread fd)" and ?store = "thread0 (Store_var 1 (share fd 1 0))" and ?st = "[Note ''STARTED'']"
  have three: "replicate 3 t = [t, t, t]" for t :: task by (simp add: numeral_3_eq_3)
  \<comment> \<open>the first thread reads the counter, then the second one reads and writes it\<close>
  from scene_script [OF chaotic_script [OF fd, of 1 0 0 "L 0" w1 0] b, of 1] ln have
    c: "scene P a [t0, ?store, ?T, ?T] L w1 0 (ln(1 := ?st))" by (simp add: three)
  have "script P 0 (mt_chaotic_thread fd, L 0, w1, 0) (?st @ []) (share fd 0 1, L 0, w1, - 1)"
    by (rule script_trans [OF chaotic_script [OF fd, of 0 1]]) (simp_all add: sc_store sc_stop)
  from scene_script [OF this c, of 2] ln have
    d: "scene P a [t0, ?store, thread0 (share fd 0 1), ?T] L w1 (- 1) (ln(1 := ?st, 2 := ?st))" by simp
  \<comment> \<open>the first thread overwrites the counter\<close>
  from share_writes [OF f1, of 1] cap obtain w2 m x where
    s3: "script P 0 (share fd 1 0, L 0, w1, 1) [Note ''is going to'', Writing 1, Written x, Reading 0, Note ''DONE''] (Exit, L 0, w2, 1)"
    and f2: "filled V K fd 0 w2 L [m]" by auto
  let ?l1 = "[Note ''STARTED'', Note ''is going to'', Writing 1, Written x, Reading 0, Note ''DONE'']"
  from scene_script [OF sc_store [OF s3, of "- 1"] d, of 1] have
    e: "scene P a [t0, thread0 Exit, thread0 (share fd 0 1), ?T] L w2 1 (ln(1 := ?l1, 2 := ?st))" by (simp add: fun_upd_twist)
  from share_reads [OF f2, of 1] obtain w3 n y where
    s4: "script P 0 (share fd 0 1, L 0, w2, 1) [Note ''is going to'', Writing 0, Reading 1, Got n y, Note ''DONE''] (Exit, L 0, w3, 1)"
    and f3: "filled V K fd 0 w3 L []" by auto
  let ?l2 = "[Note ''STARTED'', Note ''is going to'', Writing 0, Reading 1, Got n y, Note ''DONE'']"
  from scene_script [OF s4 e, of 2] have
    f: "scene P a [t0, thread0 Exit, thread0 Exit, ?T] L w3 1 (ln(1 := ?l1, 2 := ?l2))" by simp
  have "script P 0 (Store_var 1 (share fd 0 0), L 0, w3, 1) [Note ''is going to'', Writing 0, Reading 0, Note ''DONE''] (Exit, L 0, w3, 1)"
    by (rule sc_store [OF share_none])
  note script_trans [OF chaotic_script [OF fd, of 0 0 0 "L 0" w3 1], simplified, OF this]
  from scene_script [OF this f, of 3] ln have
    "scene P a (t0 # replicate 3 (thread0 Exit)) L w3 1 (ln(1 := ?l1, 2 := ?l2, 3 := [Note ''STARTED'', Note ''is going to'', Writing 0, Reading 0, Note ''DONE'']))"
    by (simp add: three)
  with f3 show ?thesis by blast
qed

text \<open>The main thread believes the counter.\<close>

lemma chaotic_ends:
  assumes f: "filled V K fd 0 w L []" and g: "scene P a (thread0 (chaos_wait fd) # replicate 3 (thread0 Exit)) L w 1 ln"
  shows "\<exists>w'. scene P a (replicate 4 (thread0 Exit)) L w' 1
    (ln(0 := ln 0 @ [Note ''Thread creation and join'', Reading 1, No_more, Closed 0 fd, Note ''DONE'']))"
proof -
  from f have "uses V w 0 fd 0" by (simp add: filled_def)
  from wakes_script [OF this, of 5 "\<lambda>_. Pause 1 (Join (chaos_end fd))" "L 0" 1] f obtain w4 where
    s6: "script P 0 (chaos_wait fd, L 0, w, 1) [] (Pause 1 (Join (chaos_end fd)), L 0, w4, 1)" and f4: "filled V K fd 0 w4 L []"
    unfolding chaos_wait_def by (auto simp: filled_def)
  from pause_filled [OF f4, of 1] obtain w5 where nap5: "pass P 1 w4 = Done w5" and f5: "filled V K fd 0 w5 L []" by blast
  have "script P 0 (Pause 1 (Join (chaos_end fd)), L 0, w4, 1) [] (Join (chaos_end fd), L 0, w5, 1)"
    by (rule sc_call [OF _ sc_stop]) (simp add: nap5 [simplified])
  from scene_script [OF script_trans [OF s6 this] g, of 0] have
    "scene P a (thread0 (Join (chaos_end fd)) # replicate 3 (thread0 Exit)) L w5 1 ln" by simp
  from scene_join [OF this, of 0 "chaos_end fd"] have
    h: "scene P a (thread0 (chaos_end fd) # replicate 3 (thread0 Exit)) L w5 1 ln" by (simp add: list_all_iff)
  from pause_filled [OF f5, of 5] obtain w6 where nap6: "pass P 5 w5 = Done w6" and f6: "filled V K fd 0 w6 L []" by blast
  from remaining_script [OF f6] obtain w7 where
    "script P 0 (read_remaining fd, L 0, w6, 1) [Reading 1, No_more, Closed 0 fd, Note ''DONE''] (Exit, L 0, w7, 1)" by auto
  then have "script P 0 (Pause 5 (read_remaining fd), L 0, w5, 1) [Reading 1, No_more, Closed 0 fd, Note ''DONE''] (Exit, L 0, w7, 1)"
    by (rule sc_call [rotated]) (simp add: nap6)
  from scene_script [OF sc_say [OF this, of "Note ''Thread creation and join''"] h, of 0] have
    "scene P a (thread0 Exit # replicate 3 (thread0 Exit)) L w7 1
      (ln(0 := ln 0 @ [Note ''Thread creation and join'', Reading 1, No_more, Closed 0 fd, Note ''DONE'']))"
    by (simp add: chaos_end_def)
  moreover have "thread0 Exit # replicate 3 (thread0 Exit) = replicate 4 (thread0 Exit)" by (simp add: eval_nat_numeral)
  ultimately show ?thesis by (simp only:) blast
qed

lemma chaotic_miscounts:
  assumes w: "sane V w" "lib_max_message_size l = 0 \<or> lib_max_message_size l = size_of V w" "box V w 0 = empty_box"
    "\<not> delayed V w 0" "unat (size_of V w) < MESSAGE_SIZE" and cap: "1 \<le> cap V w"
  shows "\<exists>c fd x n y. (cstep P)\<^sup>*\<^sup>* (starts mt_chaotic_main l w) c \<and> over P c \<and> all_done c
    \<and> lines_of 1 c = [Note ''STARTED'', Note ''is going to'', Writing 1, Written x, Reading 0, Note ''DONE'']
    \<and> lines_of 2 c = [Note ''STARTED'', Note ''is going to'', Writing 0, Reading 1, Got n y, Note ''DONE'']
    \<and> lines_of 3 c = [Note ''STARTED'', Note ''is going to'', Writing 0, Reading 0, Note ''DONE'']
    \<and> lines_of 0 c = [Note ''EXECUTING'', Opened 0 fd, Note ''Thread creation and join'', Reading 1, No_more, Closed 0 fd, Note ''DONE'']"
proof -
  let ?K = "unat (size_of V w)"
  from chaotic_created [OF w] obtain fd L w1 where fd: "0 \<le> fd" and f1: "filled V ?K fd 0 w1 L []" and c1: "cap V w1 = cap V w"
    and b: "scene P (starts mt_chaotic_main l w) (thread0 (chaos_wait fd) # replicate 3 (thread0 (mt_chaotic_thread fd))) L w1 0
        ((\<lambda>_. [])(0 := [Note ''EXECUTING'', Opened 0 fd]))" by blast
  from chaotic_threads [OF fd f1 _ b] cap c1 obtain w2 x n y where f2: "filled V ?K fd 0 w2 L []"
    and g: "scene P (starts mt_chaotic_main l w) (thread0 (chaos_wait fd) # replicate 3 (thread0 Exit)) L w2 1 ((\<lambda>_. [])
     (0 := [Note ''EXECUTING'', Opened 0 fd],
      1 := [Note ''STARTED'', Note ''is going to'', Writing 1, Written x, Reading 0, Note ''DONE''],
      2 := [Note ''STARTED'', Note ''is going to'', Writing 0, Reading 1, Got n y, Note ''DONE''],
      3 := [Note ''STARTED'', Note ''is going to'', Writing 0, Reading 0, Note ''DONE'']))" by auto
  from chaotic_ends [OF f2 g] obtain c where reach: "(cstep P)\<^sup>*\<^sup>* (starts mt_chaotic_main l w) c" and fin: "c_tasks c = replicate 4 (thread0 Exit)"
    and lines: "lines_of 1 c = [Note ''STARTED'', Note ''is going to'', Writing 1, Written x, Reading 0, Note ''DONE'']"
      "lines_of 2 c = [Note ''STARTED'', Note ''is going to'', Writing 0, Reading 1, Got n y, Note ''DONE'']"
      "lines_of 3 c = [Note ''STARTED'', Note ''is going to'', Writing 0, Reading 0, Note ''DONE'']"
      "lines_of 0 c = [Note ''EXECUTING'', Opened 0 fd, Note ''Thread creation and join'', Reading 1, No_more, Closed 0 fd, Note ''DONE'']"
    unfolding scene_def by auto
  have "over P c"
    unfolding over_def cstep_def
  proof safe
    fix c' i assume step: "tstep P i c c'"
    from step_index [OF step] fin have "code_of c i = Exit" by simp
    with step step_Exit show False by blast
  qed
  with reach fin lines show ?thesis by (intro exI [of _ c] exI [of _ fd] exI [of _ x] exI [of _ n] exI [of _ y]) (simp add: list_all_iff)
qed

end

end
