(* ===== verification/Multigroup_Laws.thy ===== *)
theory Multigroup_Laws
  imports Parallel_Laws
begin

text \<open>
  \<open>mp_multigroup\<close>: three children, of which the child \<open>n\<close> opens the group \<open>n\<close> and writes \<open>n\<close> texts to it; then
  the parent reads one group after the other. The children run in any interleaving, each on a
  group of its own.
\<close>

section \<open>The programs\<close>

definition group_rest :: "nat \<Rightarrow> int \<Rightarrow> prog" where
  "group_rest n fd = Get_tid (\<lambda>tid. Say (Writing n) (send_loop fd (\<lambda>_. was_here tid) [0..<n] zeros
     (\<lambda>_. Close_group fd ends) (\<lambda>_. Close_group fd ends)))"

lemma child_eq: "mp_multigroup_child n = Say (Note ''My number is'') (open_or (word_of_nat n) ends (group_rest n))"
  by (simp add: mp_multigroup_child_def group_rest_def [abs_def])

lemma group_rest_writer: "writer fd True n (group_rest n fd)"
  using sends_writer [of _ zeros fd True "\<lambda>_. Close_group fd ends" "[0..<n]"]
  by (auto simp: group_rest_def intro!: w_say w_tid w_close plain_ends)

text \<open>What the parent does while \<open>k\<close> children have been started, and at the end.\<close>

definition parent_end :: prog where
  "parent_end = read_groups [0..<CHILDREN] zeros ends"

definition parent_at :: "nat \<Rightarrow> prog" where
  "parent_at k = fork_all mp_multigroup_child [k..<CHILDREN] (Say (Note ''Dad is going to wait'') (Join parent_end)) ends"

lemma main_eq: "mp_multigroup_main = Say (Note ''EXECUTING'') (parent_at 0)"
  by (simp add: mp_multigroup_main_def begins_def parent_at_def parent_end_def)

lemma parent_forks: "k < CHILDREN \<Longrightarrow> parent_at k = Fork (mp_multigroup_child k)
    (\<lambda>done. if done then parent_at (Suc k) else Say (Note ''ERR: fork'') ends)"
  by (simp add: parent_at_def upt_conv_Cons cong: if_cong)

lemma parent_waits: "parent_at CHILDREN = Say (Note ''Dad is going to wait'') (Join parent_end)"
  by (simp add: parent_at_def)

section \<open>The states of the program\<close>

abbreviation group_no :: "nat \<Rightarrow> u8" where
  "group_no n \<equiv> word_of_nat n"

lemma group_no_inject: "i < CHILDREN \<Longrightarrow> j < CHILDREN \<Longrightarrow> group_no i = group_no j \<longleftrightarrow> i = j"
  by (simp add: CHILDREN_def word_of_nat_eq_iff take_bit_eq_mod)

text \<open>The child \<open>n\<close>, which has \<open>m\<close> texts left to write, and its group.\<close>

definition group_child :: "'w view \<Rightarrow> 'w \<Rightarrow> lib \<Rightarrow> nat \<Rightarrow> nat \<Rightarrow> task \<Rightarrow> bool" where
  "group_child V w l n m t \<longleftrightarrow> t_proc t = Suc n \<and> t_parent t = 0
     \<and> (m = n \<and> (lib_max_message_size l = 0 \<or> lib_max_message_size l = size_of V w)
         \<and> (t_code t = mp_multigroup_child n \<or> t_code t = open_or (group_no n) ends (group_rest n))
       \<or> (\<exists>fd. writer fd True m (t_code t) \<and> (plain (t_code t) \<or> uses V w (Suc n) fd (group_no n))
           \<and> lib_max_message_size l = size_of V w))"

definition stocked :: "'w view \<Rightarrow> nat \<Rightarrow> 'w \<Rightarrow> nat \<Rightarrow> nat \<Rightarrow> bool" where
  "stocked V K w n m \<longleftrightarrow> \<not> delayed V w (group_no n)
     \<and> (\<exists>ms. box V w (group_no n) = \<lparr>avail = ms, held = []\<rparr> \<and> list_all (signature K) ms \<and> length ms + m = n)"

definition world_ok :: "'w view \<Rightarrow> nat \<Rightarrow> 'w \<Rightarrow> lib \<Rightarrow> bool" where
  "world_ok V K w l \<longleftrightarrow> sane V w \<and> (lib_max_message_size l = 0 \<or> lib_max_message_size l = size_of V w)
     \<and> unat (size_of V w) = K \<and> K < MESSAGE_SIZE \<and> CHILDREN \<le> cap V w"

definition parent_stage :: "nat \<Rightarrow> 'w conf \<Rightarrow> bool" where
  "parent_stage k c \<longleftrightarrow> k = 0 \<and> code_of c 0 = mp_multigroup_main \<and> lines_of 0 c = []
     \<or> code_of c 0 = parent_at k \<and> lines_of 0 c = [Note ''EXECUTING'']
     \<or> k = CHILDREN \<and> code_of c 0 = Join parent_end \<and> lines_of 0 c = [Note ''EXECUTING'', Note ''Dad is going to wait'']"

definition spreading :: "'w view \<Rightarrow> nat \<Rightarrow> 'w conf \<Rightarrow> bool" where
  "spreading V K c \<longleftrightarrow> (\<exists>t ts m. c_tasks c = t # ts \<and> t_proc t = 0 \<and> length ts \<le> CHILDREN \<and> parent_stage (length ts) c
     \<and> world_ok V K (c_world c) (c_libs c 0)
     \<and> (\<forall>j < length ts. group_child V (c_world c) (c_libs c (Suc j)) j (m j) (ts ! j))
     \<and> (\<forall>j < CHILDREN. stocked V K (c_world c) j (m j)) \<and> (\<forall>j \<ge> length ts. m j = j))"

text \<open>All children have ended, and every group has its messages.\<close>

definition spread :: "'w view \<Rightarrow> ('w, 'x) platform \<Rightarrow> nat \<Rightarrow> 'w conf \<Rightarrow> bool" where
  "spread V P K c \<longleftrightarrow> (\<exists>l w. world_ok V K w l \<and> (\<forall>j < CHILDREN. stocked V K w j 0)
     \<and> alone P parent_end [Note ''EXECUTING'', Note ''Dad is going to wait''] l w c)"

lemma child_frame:
  assumes "group_child V w l n m t" and "size_of V w' = size_of V w" and "uses V w' (Suc n) = uses V w (Suc n)"
  shows "group_child V w' l n m t"
  using assms by (simp add: group_child_def)

lemma stocked_frame:
  assumes "stocked V K w n m" and "delayed V w' (group_no n) = delayed V w (group_no n)" and "box V w' (group_no n) = box V w (group_no n)"
  shows "stocked V K w' n m"
  using assms by (simp add: stocked_def)

lemma child_ended: "group_child V w l n m t \<Longrightarrow> t_code t = Exit \<Longrightarrow> m = 0"
  by (auto simp: group_child_def child_eq open_or_def writer_exit)

text \<open>The lines about one group after the other; every group has fewer messages than the parent asks for.\<close>

fun group_lines :: "nat list \<Rightarrow> int list \<Rightarrow> u8 list list list \<Rightarrow> u8 list \<Rightarrow> line list" where
  "group_lines (i # is) (fd # fds) (ms # mss) msg =
     [Opened (group_no i) fd, Reading (int CHILDREN)] @ got_lines msg ms @ [No_more, Closed (group_no i) fd]
     @ group_lines is fds mss (last_buf msg ms)"
| "group_lines is fds mss msg = []"

context parallel_client
begin

text \<open>One step of a child.\<close>

lemma child_step:
  assumes step: "tstep P (Suc j) c c'" and tasks: "c_tasks c = t0 # ts" and j: "j < length ts" "j < CHILDREN"
    and ch: "group_child V (c_world c) (c_libs c (Suc j)) j m (ts ! j)" and st: "stocked V K (c_world c) j m"
    and ok: "world_ok V K (c_world c) (c_libs c 0)"
  shows "\<exists>p m'. c_tasks c' = t0 # ts[j := (ts ! j)\<lparr>t_code := p\<rparr>] \<and> lines_of 0 c' = lines_of 0 c
    \<and> (\<forall>q. q \<noteq> Suc j \<longrightarrow> c_libs c' q = c_libs c q) \<and> world_ok V K (c_world c') (c_libs c' 0)
    \<and> group_child V (c_world c') (c_libs c' (Suc j)) j m' ((ts ! j)\<lparr>t_code := p\<rparr>) \<and> stocked V K (c_world c') j m'
    \<and> size_of V (c_world c') = size_of V (c_world c) \<and> (\<forall>q. q \<noteq> Suc j \<longrightarrow> uses V (c_world c') q = uses V (c_world c) q)
    \<and> (\<forall>b. b \<noteq> group_no j \<longrightarrow> box V (c_world c') b = box V (c_world c) b) \<and> delayed V (c_world c') = delayed V (c_world c)"
proof -
  let ?i = "Suc j" and ?w = "c_world c" and ?l = "c_libs c (Suc j)" and ?b = "group_no j"
  have at: "c_tasks c ! ?i = ts ! j" "?i < length (c_tasks c)" using tasks j by simp_all
  from ch have t: "t_proc (ts ! j) = Suc j" "t_parent (ts ! j) = 0" by (simp_all add: group_child_def)
  from ok have w: "sane V ?w" "unat (size_of V ?w) = K" "K < MESSAGE_SIZE" "CHILDREN \<le> cap V ?w" by (simp_all add: world_ok_def)
  from st obtain ms where late: "\<not> delayed V ?w ?b" and box: "box V ?w ?b = \<lparr>avail = ms, held = []\<rparr>"
    and ms: "list_all (signature K) ms" "length ms + m = j" unfolding stocked_def by blast
  from ch consider (start) "m = j" "lib_max_message_size ?l = 0 \<or> lib_max_message_size ?l = size_of V ?w" "t_code (ts ! j) = mp_multigroup_child j"
    | (enter) "m = j" "lib_max_message_size ?l = 0 \<or> lib_max_message_size ?l = size_of V ?w" "t_code (ts ! j) = open_or ?b ends (group_rest j)"
    | (writes) fd where "writer fd True m (t_code (ts ! j))" "plain (t_code (ts ! j)) \<or> uses V ?w (Suc j) fd ?b"
        "lib_max_message_size ?l = size_of V ?w"
    unfolding group_child_def by blast
  then show ?thesis
  proof cases
    case start
    with step have "c' = goes_on ?i (open_or ?b ends (group_rest j)) c\<lparr>c_lines := c_lines c @ [(?i, Note ''My number is'')]\<rparr>"
      by (simp add: step_Say at child_eq)
    with start tasks ok st t show ?thesis
      by (intro exI [of _ "open_or ?b ends (group_rest j)"] exI [of _ m]) (simp add: group_child_def)
  next
    case enter
    let ?k = "\<lambda>fd. if fd < 0 then Say Open_err ends else Say (Opened ?b fd) (group_rest j fd)"
    from opens [OF w(1) enter(2), of "Suc j" ?b] obtain fd l' w' where
      op: "open_group (calls P (Suc j)) (Some ?b) ?l ?w = Done (fd, l', w')" and l': "lib_max_message_size l' = size_of V ?w" and fd: "0 \<le> fd"
      and s': "sane V w'" "\<forall>q fd' c. uses V w' q fd' c \<longleftrightarrow> uses V ?w q fd' c \<or> (q, fd', c) = (Suc j, fd, ?b)"
      "box V w' = box V ?w" "delayed V w' = delayed V ?w" "cap V w' = cap V ?w" "size_of V w' = size_of V ?w" by blast
    have "lib_call (calls P (proc_of c ?i)) (pass P) (code_of c ?i) (c_libs c (proc_of c ?i)) ?w = Some (Done (?k fd, l', w'))"
      using op enter by (simp add: at t open_or_def)
    from step_call [OF this] step have c': "c' = goes_on ?i (?k fd) c\<lparr>c_libs := (c_libs c)(Suc j := l'), c_world := w'\<rparr>"
      using enter by (auto simp: at t open_or_def)
    have "writer fd True m (?k fd)" using fd enter(1) by (auto intro!: w_say group_rest_writer)
    moreover have "uses V w' (Suc j) fd ?b" using s'(2) by simp
    ultimately have "group_child V w' l' j m ((ts ! j)\<lparr>t_code := ?k fd\<rparr>)"
      using t l' s'(6) unfolding group_child_def by auto
    with tasks ok st s' show ?thesis
      by (intro exI [of _ "?k fd"] exI [of _ m]) (auto simp: c' world_ok_def stocked_def fun_eq_iff)
  next
    case (writes fd)
    have "stored (box V ?w ?b) + m \<le> cap V ?w" using box ms(2) j(2) w(4) by (simp add: stored_def)
    from writer_move [OF step at(1) writes(1) _ _ w(1-3) late this] writes t obtain p m' where
      c': "c_tasks c' = (c_tasks c)[?i := (ts ! j)\<lparr>t_code := p\<rparr>]" "\<forall>i. i \<noteq> ?i \<longrightarrow> lines_of i c' = lines_of i c" "c_libs c' = c_libs c"
      and w': "writer fd True m' p" "plain p \<or> uses V (c_world c') (Suc j) fd ?b"
      and on: "writes_on V K True (Suc j) ?b m m' ?w (c_world c')" by auto
    from on obtain xs where xs: "list_all (signature K) xs" "m = m' + length xs"
      "box V (c_world c') = (box V ?w)(?b := (box V ?w ?b)\<lparr>avail := avail (box V ?w ?b) @ xs\<rparr>)" unfolding writes_on_def by blast
    have same: "sane V (c_world c')" "delayed V (c_world c') = delayed V ?w" "cap V (c_world c') = cap V ?w"
      "size_of V (c_world c') = size_of V ?w" "\<forall>q. q \<noteq> Suc j \<longrightarrow> uses V (c_world c') q = uses V ?w q"
      using on by (auto simp: writes_on_def)
    have "group_child V (c_world c') (c_libs c' (Suc j)) j m' ((ts ! j)\<lparr>t_code := p\<rparr>)"
      using t w' writes(3) c'(3) same(4) unfolding group_child_def by auto
    moreover have "stocked V K (c_world c') j m'" using late box ms xs same(2) by (auto simp: stocked_def)
    moreover have "world_ok V K (c_world c') (c_libs c' 0)" using ok same c'(3) by (simp add: world_ok_def)
    ultimately show ?thesis using c' tasks same xs(3)
      by (intro exI [of _ p] exI [of _ m']) simp
  qed
qed

text \<open>One step of the parent, and any step.\<close>

lemma parent_step:
  assumes "spreading V K c" and step: "tstep P 0 c c'"
  shows "spreading V K c' \<or> spread V P K c' \<or> failed P (Note ''ERR: fork'') c'"
proof -
  from assms(1) obtain t ts m where tasks: "c_tasks c = t # ts" and p0: "t_proc t = 0" and le: "length ts \<le> CHILDREN"
    and stage: "parent_stage (length ts) c" and ok: "world_ok V K (c_world c) (c_libs c 0)"
    and ch: "\<forall>j < length ts. group_child V (c_world c) (c_libs c (Suc j)) j (m j) (ts ! j)"
    and st: "\<forall>j < CHILDREN. stocked V K (c_world c) j (m j)" and todo: "\<forall>j \<ge> length ts. m j = j" unfolding spreading_def by blast
  have at: "c_tasks c ! 0 = t" using tasks by simp
  have says: "spreading V K c'"
    if "code_of c 0 = Say x p" "parent_stage (length ts) (goes_on 0 p c\<lparr>c_lines := c_lines c @ [(0, x)]\<rparr>)" for x p
  proof -
    from step that(1) have c': "c' = goes_on 0 p c\<lparr>c_lines := c_lines c @ [(0, x)]\<rparr>" by (simp add: step_Say)
    show ?thesis unfolding spreading_def
      by (intro exI [of _ "t\<lparr>t_code := p\<rparr>"] exI [of _ ts] exI [of _ m]) (use that(2) tasks p0 le ok ch st todo in \<open>simp add: c'\<close>)
  qed
  from stage show ?thesis
    unfolding parent_stage_def
  proof (elim disjE conjE)
    assume "length ts = 0" "code_of c 0 = mp_multigroup_main" "lines_of 0 c = []"
    then have "spreading V K c'" using tasks by (intro says [of "Note ''EXECUTING''" "parent_at 0"]) (simp_all add: main_eq parent_stage_def)
    then show ?thesis by blast
  next
    assume k: "code_of c 0 = parent_at (length ts)" and lines: "lines_of 0 c = [Note ''EXECUTING'']"
    show ?thesis
    proof (cases "length ts = CHILDREN")
      case True
      with k lines tasks have "spreading V K c'"
        by (intro says [of "Note ''Dad is going to wait''" "Join parent_end"]) (simp_all add: parent_waits parent_stage_def)
      then show ?thesis by blast
    next
      case False
      with le have less: "length ts < CHILDREN" by simp
      let ?k = "length ts" and ?w = "c_world c" and ?q = "length (c_tasks c)"
      let ?new = "\<lparr>t_proc = Suc ?k, t_parent = 0, t_code = mp_multigroup_child ?k\<rparr>"
      from step k parent_forks [OF less] consider
        (good) "c' = adds 0 ?q (mp_multigroup_child ?k) (goes_on 0 (parent_at (Suc ?k)) c)\<lparr>c_libs := (c_libs c)(?q := c_libs c 0),
            c_world := spawn P 0 ?q ?w\<rparr>"
        | (bad) "may_fail P" "c' = goes_on 0 (Say (Note ''ERR: fork'') ends) c"
        using p0 by (auto simp: step_Fork at)
      then show ?thesis
      proof cases
        case bad
        then have "failed P (Note ''ERR: fork'') c'" using tasks by (simp add: failed_def)
        then show ?thesis by blast
      next
        case good
        from ok have sane: "sane V ?w" by (simp add: world_ok_def)
        note sp = spawns [OF sane, of 0 "Suc ?k"]
        have uses: "uses V (spawn P 0 (Suc ?k) ?w) r = uses V ?w r" if "r \<noteq> Suc ?k" for r using sp that by (auto simp: fun_eq_iff)
        have child: "group_child V (c_world c') (c_libs c' (Suc j)) j (m j) ((ts @ [?new]) ! j)" if "j < length (ts @ [?new])" for j
        proof (cases "j = ?k")
          case True
          with ok todo sp tasks show ?thesis by (simp add: good group_child_def world_ok_def)
        next
          case False
          with that have j: "j < ?k" by simp
          with child_frame [OF ch [rule_format, OF j]] sp uses [of "Suc j"] tasks show ?thesis by (simp add: good nth_append)
        qed
        have "spreading V K c'"
          unfolding spreading_def
        proof (intro exI conjI)
          show "c_tasks c' = t\<lparr>t_code := parent_at (Suc ?k)\<rparr> # (ts @ [?new])" using tasks by (simp add: good)
          show "parent_stage (length (ts @ [?new])) c'" using tasks lines by (simp add: good parent_stage_def)
          show "world_ok V K (c_world c') (c_libs c' 0)" using ok sp tasks by (simp add: good world_ok_def)
          show "\<forall>j < length (ts @ [?new]). group_child V (c_world c') (c_libs c' (Suc j)) j (m j) ((ts @ [?new]) ! j)" using child by blast
          show "\<forall>j < CHILDREN. stocked V K (c_world c') j (m j)" using st sp tasks by (auto simp: good intro: stocked_frame)
        qed (use p0 less todo in simp_all)
        then show ?thesis by blast
      qed
    qed
  next
    assume k: "length ts = CHILDREN" and code: "code_of c 0 = Join parent_end"
      and lines: "lines_of 0 c = [Note ''EXECUTING'', Note ''Dad is going to wait'']"
    with step have c': "c' = goes_on 0 parent_end c" and gone: "list_all (\<lambda>u. t_parent u = 0 \<longrightarrow> t_code u = Exit) ts"
      using tasks by (auto simp: step_Join)
    have ex: "list_all (\<lambda>u. t_code u = Exit) ts" using ch gone by (auto simp: list_all_length group_child_def)
    have "stocked V K (c_world c) j 0" if "j < CHILDREN" for j
    proof -
      from that k have j: "j < length ts" by simp
      with ex have "t_code (ts ! j) = Exit" by (simp add: list_all_length)
      from child_ended [OF ch [rule_format, OF j] this] st that show ?thesis by auto
    qed
    moreover have "alone P parent_end [Note ''EXECUTING'', Note ''Dad is going to wait''] (c_libs c 0) (c_world c) c'"
      unfolding alone_def using tasks p0 ex lines by (intro exI [of _ "t\<lparr>t_code := parent_end\<rparr>"] exI [of _ ts]) (simp add: c')
    ultimately have "spread V P K c'" using ok unfolding spread_def by blast
    then show ?thesis by blast
  qed
qed

lemma spreading_step:
  assumes "spreading V K c" and step: "tstep P i c c'"
  shows "spreading V K c' \<or> spread V P K c' \<or> failed P (Note ''ERR: fork'') c'"
proof (cases i)
  case 0
  with parent_step [OF assms(1)] step show ?thesis by simp
next
  case (Suc j)
  from assms(1) obtain t ts m where tasks: "c_tasks c = t # ts" and p0: "t_proc t = 0" and le: "length ts \<le> CHILDREN"
    and stage: "parent_stage (length ts) c" and ok: "world_ok V K (c_world c) (c_libs c 0)"
    and ch: "\<forall>j < length ts. group_child V (c_world c) (c_libs c (Suc j)) j (m j) (ts ! j)"
    and st: "\<forall>j < CHILDREN. stocked V K (c_world c) j (m j)" and todo: "\<forall>j \<ge> length ts. m j = j" unfolding spreading_def by blast
  from step_index [OF step] Suc tasks have j: "j < length ts" by simp
  with le have j3: "j < CHILDREN" by simp
  from child_step [OF step [unfolded Suc] tasks j j3 ch [rule_format, OF j] st [rule_format, OF j3] ok] obtain p m' where
    tasks': "c_tasks c' = t # ts[j := (ts ! j)\<lparr>t_code := p\<rparr>]" and lines: "lines_of 0 c' = lines_of 0 c"
    and libs: "\<And>q. q \<noteq> Suc j \<Longrightarrow> c_libs c' q = c_libs c q" and ok': "world_ok V K (c_world c') (c_libs c' 0)"
    and ch': "group_child V (c_world c') (c_libs c' (Suc j)) j m' ((ts ! j)\<lparr>t_code := p\<rparr>)" and st': "stocked V K (c_world c') j m'"
    and same: "size_of V (c_world c') = size_of V (c_world c)" "\<And>q. q \<noteq> Suc j \<Longrightarrow> uses V (c_world c') q = uses V (c_world c) q"
      "\<And>b. b \<noteq> group_no j \<Longrightarrow> box V (c_world c') b = box V (c_world c) b" "delayed V (c_world c') = delayed V (c_world c)" by blast
  let ?ts = "ts[j := (ts ! j)\<lparr>t_code := p\<rparr>]" and ?m = "m(j := m')"
  have child: "group_child V (c_world c') (c_libs c' (Suc i)) i (?m i) (?ts ! i)" if "i < length ?ts" for i
  proof (cases "i = j")
    case True
    with ch' j show ?thesis by simp
  next
    case False
    with that child_frame [OF ch [rule_format, of i]] same(1) same(2) [of "Suc i"] libs [of "Suc i"] show ?thesis by simp
  qed
  have stock: "stocked V K (c_world c') i (?m i)" if "i < CHILDREN" for i
  proof (cases "i = j")
    case True
    with st' show ?thesis by simp
  next
    case False
    with that j3 have "group_no i \<noteq> group_no j" by (simp add: group_no_inject)
    with False st that same(3,4) show ?thesis by (auto intro: stocked_frame)
  qed
  have "spreading V K c'"
    unfolding spreading_def
    by (intro exI [of _ t] exI [of _ ?ts] exI [of _ ?m])
      (use tasks tasks' p0 le stage lines ok' child stock todo j in \<open>simp add: parent_stage_def\<close>)
  then show ?thesis by blast
qed

text \<open>As long as the children are not all at their end, something can happen.\<close>

lemma child_goes_on:
  assumes tasks: "c_tasks c = t0 # ts" and j: "j < length ts" "j < CHILDREN" and ne: "t_code (ts ! j) \<noteq> Exit"
    and ch: "group_child V (c_world c) (c_libs c (Suc j)) j m (ts ! j)" and st: "stocked V K (c_world c) j m"
    and ok: "world_ok V K (c_world c) (c_libs c 0)"
  shows "\<exists>c'. tstep P (Suc j) c c'"
proof -
  let ?i = "Suc j" and ?w = "c_world c" and ?l = "c_libs c (Suc j)" and ?b = "group_no j"
  have at: "c_tasks c ! ?i = ts ! j" "?i < length (c_tasks c)" using tasks j by simp_all
  from ch have t: "t_proc (ts ! j) = Suc j" by (simp add: group_child_def)
  from ch consider (start) "t_code (ts ! j) = mp_multigroup_child j"
    | (enter) "lib_max_message_size ?l = 0 \<or> lib_max_message_size ?l = size_of V ?w" "t_code (ts ! j) = open_or ?b ends (group_rest j)"
    | (writes) fd where "writer fd True m (t_code (ts ! j))" "plain (t_code (ts ! j)) \<or> uses V ?w (Suc j) fd ?b"
        "lib_max_message_size ?l = size_of V ?w"
    unfolding group_child_def by blast
  then show ?thesis
  proof cases
    case start
    with at(2) show ?thesis by (simp add: child_eq step_Say at)
  next
    case enter
    from ok have "sane V ?w" by (simp add: world_ok_def)
    from opens [OF this enter(1), of "Suc j" ?b] obtain fd l' w' where "open_group (calls P (Suc j)) (Some ?b) ?l ?w = Done (fd, l', w')" by blast
    then have "lib_call (calls P (proc_of c ?i)) (pass P) (code_of c ?i) (c_libs c (proc_of c ?i)) ?w
      = Some (Done (if fd < 0 then Say Open_err ends else Say (Opened ?b fd) (group_rest j fd), l', w'))"
      using enter by (simp add: at t open_or_def)
    from tstep.call [OF at(2) this] show ?thesis by blast
  next
    case (writes fd)
    from st j(2) ok have "\<not> delayed V ?w ?b" "stored (box V ?w ?b) + m \<le> cap V ?w"
      by (auto simp: stocked_def world_ok_def stored_def)
    with writer_goes_on [OF at(2,1) writes(1) ne _ _ _ this] writes t ok show ?thesis by (simp add: world_ok_def)
  qed
qed

lemma spreading_goes_on:
  assumes "spreading V K c"
  shows "\<not> over P c"
proof -
  from assms(1) obtain t ts m where tasks: "c_tasks c = t # ts" and p0: "t_proc t = 0" and le: "length ts \<le> CHILDREN"
    and stage: "parent_stage (length ts) c" and ok: "world_ok V K (c_world c) (c_libs c 0)"
    and ch: "\<forall>j < length ts. group_child V (c_world c) (c_libs c (Suc j)) j (m j) (ts ! j)"
    and st: "\<forall>j < CHILDREN. stocked V K (c_world c) j (m j)" unfolding spreading_def by blast
  have "\<exists>i c'. tstep P i c c'"
  proof (cases "list_all (\<lambda>u. t_code u = Exit) ts")
    case False
    then obtain j where j: "j < length ts" "t_code (ts ! j) \<noteq> Exit" by (auto simp: list_all_length)
    with le ch st child_goes_on [OF tasks j(1) _ j(2) _ _ ok] show ?thesis by (meson less_le_trans)
  next
    case True
    have "\<exists>c'. tstep P 0 c c'"
      using stage unfolding parent_stage_def
    proof (elim disjE conjE)
      assume "code_of c 0 = parent_at (length ts)"
      then show ?thesis using parent_forks [of "length ts"] parent_waits le tasks
        by (cases "length ts = CHILDREN") (auto simp: step_Say step_Fork)
    qed (use True tasks in \<open>auto simp: main_eq step_Say step_Join list_all_iff\<close>)
    then show ?thesis by blast
  qed
  then show ?thesis by (auto simp: over_def cstep_def)
qed

section \<open>What the parent reads\<close>

lemma read_groups_run:
  assumes "sane V w" and "lib_max_message_size l = 0 \<or> lib_max_message_size l = size_of V w" and "K = unat (size_of V w)" and "K < MESSAGE_SIZE"
    and "list_all2 (\<lambda>i ms. box V w (group_no i) = \<lparr>avail = ms, held = []\<rparr> \<and> list_all (signature K) ms \<and> length ms < CHILDREN) is mss"
    and "distinct (map group_no is)" and "length msg = MESSAGE_SIZE"
  shows "\<exists>fds l' w'. length fds = length is
    \<and> run (calls P 0) (pass P) (read_groups is msg p) l w = after (group_lines is fds mss msg) (run (calls P 0) (pass P) p l' w')
    \<and> (\<forall>b. box V w' b = (if b \<in> group_no ` set is then empty_box else box V w b))"
  using assms
proof (induction "is" arbitrary: l w mss msg)
  case Nil
  then show ?case by (intro exI [of _ "[]"] exI [of _ l] exI [of _ w]) (simp add: after_def)
next
  case (Cons i "is")
  from Cons.prems(5) obtain ms mss' where mss: "mss = ms # mss'" and box: "box V w (group_no i) = \<lparr>avail = ms, held = []\<rparr>"
    and sig: "list_all (signature K) ms" and few: "length ms < CHILDREN"
    and rest: "list_all2 (\<lambda>i ms. box V w (group_no i) = \<lparr>avail = ms, held = []\<rparr> \<and> list_all (signature K) ms \<and> length ms < CHILDREN) is mss'"
    by (auto simp: list_all2_Cons1)
  let ?b = "group_no i"
  let ?read = "\<lambda>fd. Say (Reading (int CHILDREN)) (read_loop fd [0..<CHILDREN] msg
       (\<lambda>msg. Say (Closed ?b fd) (Close_group fd (read_groups is msg p))) (\<lambda>rest. Say (Closed ?b fd) (Close_group fd rest)))"
  from run_open_or [OF Cons.prems(1,2), of 0 ?b p ?read] obtain fd l1 w1 where
    r1: "run (calls P 0) (pass P) (open_or ?b p ?read) l w = after [Opened ?b fd] (run (calls P 0) (pass P) (?read fd) l1 w1)"
    and l1: "lib_max_message_size l1 = size_of V w" and w1: "uses V w1 0 fd ?b" "box V w1 = box V w" "size_of V w1 = size_of V w" by blast
  from size_pos [OF Cons.prems(1)] Cons.prems(3) have pos: "0 < K" by (simp add: unat_gt_0)
  have fit: "list_all (\<lambda>m. 0 < length m \<and> length m \<le> MESSAGE_SIZE) ms"
    using sig signature_length [OF _ pos Cons.prems(4)] by (auto simp: list_all_iff)
  then have fits: "list_all (\<lambda>m. 0 < length m \<and> length m \<le> MESSAGE_SIZE) (avail (box V w1 ?b))" by (simp add: w1 box)
  from run_reads [OF w1(1) fits Cons.prems(7), of "int CHILDREN" "[0..<CHILDREN]"
      "\<lambda>msg. Say (Closed ?b fd) (Close_group fd (read_groups is msg p))" "\<lambda>rest. Say (Closed ?b fd) (Close_group fd rest)" l1]
  obtain w2 where
    r2: "run (calls P 0) (pass P) (?read fd) l1 w1 = after (Reading (int CHILDREN) # got_lines msg ms @ [No_more])
        (run (calls P 0) (pass P) (Say (Closed ?b fd) (Close_group fd (read_groups is (last_buf msg ms) p))) l1 w2)"
    and w2: "uses V w2 = uses V w1" "size_of V w2 = size_of V w1"
      "box V w2 = (box V w1)(?b := (box V w1 ?b)\<lparr>avail := drop CHILDREN ms\<rparr>)"
    using few by (auto simp: w1 box)
  from w2(1) w1(1) have use: "uses V w2 0 fd ?b" by simp
  from closes [OF use] uses_sane [OF use] obtain w3 where close: "close_group (calls P 0) fd l1 w2 = Done (l1, w3)"
    and w3: "sane V w3" "box V w3 = box V w2" "size_of V w3 = size_of V w2" by (auto simp: close_group_def)
  have box3: "box V w3 b = (if b = ?b then empty_box else box V w b)" for b
    using w3(2) w2(3) w1(2) box few by simp
  have buf: "length (last_buf msg ms) = MESSAGE_SIZE"
    using length_last_buf [of msg ms] fit Cons.prems(7) by (auto simp: list_all_iff)
  have "list_all2 (\<lambda>i ms. box V w3 (group_no i) = \<lparr>avail = ms, held = []\<rparr> \<and> list_all (signature K) ms \<and> length ms < CHILDREN) is mss'"
    using rest
  proof (rule list.rel_mono_strong)
    fix j ms' assume "j \<in> set is" and "box V w (group_no j) = \<lparr>avail = ms', held = []\<rparr> \<and> list_all (signature K) ms' \<and> length ms' < CHILDREN"
    moreover from this(1) Cons.prems(6) have "group_no j \<noteq> ?b" by (metis image_eqI image_set distinct.simps(2) list.simps(9))
    ultimately show "box V w3 (group_no j) = \<lparr>avail = ms', held = []\<rparr> \<and> list_all (signature K) ms' \<and> length ms' < CHILDREN"
      by (simp add: box3)
  qed
  with Cons.IH [OF w3(1), of l1 mss' "last_buf msg ms"] l1 w1(3) w2(2) w3(3) Cons.prems(3,4,6) buf obtain fds l4 w4 where
    fds: "length fds = length is" and r4: "run (calls P 0) (pass P) (read_groups is (last_buf msg ms) p) l1 w3
      = after (group_lines is fds mss' (last_buf msg ms)) (run (calls P 0) (pass P) p l4 w4)"
    and b4: "\<forall>b. box V w4 b = (if b \<in> group_no ` set is then empty_box else box V w3 b)" by auto
  have r3: "run (calls P 0) (pass P) (Say (Closed ?b fd) (Close_group fd (read_groups is (last_buf msg ms) p))) l1 w2
      = after (Closed ?b fd # group_lines is fds mss' (last_buf msg ms)) (run (calls P 0) (pass P) p l4 w4)"
    using r4 close by simp
  have "run (calls P 0) (pass P) (read_groups (i # is) msg p) l w = after (group_lines (i # is) (fd # fds) mss msg) (run (calls P 0) (pass P) p l4 w4)"
    unfolding read_groups.simps r1 r2 r3 by (simp add: mss)
  with fds b4 box3 show ?case by (intro exI [of _ "fd # fds"] exI [of _ l4] exI [of _ w4]) auto
qed

lemma mp_multigroup_served:
  assumes w: "sane V w" "lib_max_message_size l = 0 \<or> lib_max_message_size l = size_of V w"
      "\<forall>j < CHILDREN. box V w (group_no j) = empty_box \<and> \<not> delayed V w (group_no j)" "CHILDREN \<le> cap V w" "unat (size_of V w) < MESSAGE_SIZE"
    and run: "(cstep P)\<^sup>*\<^sup>* (starts mp_multigroup_main l w) c" and fin: "over P c"
  shows "may_fail P \<and> Note ''ERR: fork'' \<in> set (lines_of 0 c) \<or> all_done c
    \<and> (\<exists>fds mss. length fds = CHILDREN \<and> list_all2 (\<lambda>i ms. length ms = i \<and> list_all (signature (unat (size_of V w))) ms) [0..<CHILDREN] mss
      \<and> lines_of 0 c = [Note ''EXECUTING'', Note ''Dad is going to wait''] @ group_lines [0..<CHILDREN] fds mss zeros @ [Note ''DONE'']
      \<and> (\<forall>j < CHILDREN. box V (c_world c) (group_no j) = empty_box))"
proof -
  let ?K = "unat (size_of V w)" and ?pre = "[Note ''EXECUTING'', Note ''Dad is going to wait'']"
  have reads: "\<exists>fds mss l2 w2. length fds = CHILDREN \<and> list_all2 (\<lambda>i ms. length ms = i \<and> list_all (signature ?K) ms) [0..<CHILDREN] mss
      \<and> run (calls P 0) (pass P) parent_end l1 w1 = Done (group_lines [0..<CHILDREN] fds mss zeros @ [Note ''DONE''], l2, w2)
      \<and> (\<forall>j < CHILDREN. box V w2 (group_no j) = empty_box)"
    if ok: "world_ok V ?K w1 l1" and st: "\<forall>j < CHILDREN. stocked V ?K w1 j 0" for l1 w1
  proof -
    from st obtain f where f: "\<forall>j < CHILDREN. box V w1 (group_no j) = \<lparr>avail = f j, held = []\<rparr> \<and> list_all (signature ?K) (f j) \<and> length (f j) = j"
      unfolding stocked_def by (metis add_0_right)
    let ?mss = "map f [0..<CHILDREN]"
    have "list_all2 (\<lambda>i ms. box V w1 (group_no i) = \<lparr>avail = ms, held = []\<rparr> \<and> list_all (signature ?K) ms \<and> length ms < CHILDREN) [0..<CHILDREN] ?mss"
      using f by (auto simp: list_all2_conv_all_nth)
    moreover have "distinct (map group_no [0..<CHILDREN])" by (auto simp: distinct_map inj_on_def group_no_inject)
    moreover have "sane V w1" "lib_max_message_size l1 = 0 \<or> lib_max_message_size l1 = size_of V w1" "?K = unat (size_of V w1)" "?K < MESSAGE_SIZE"
      using ok by (simp_all add: world_ok_def)
    ultimately obtain fds l2 w2 where r: "length fds = length [0..<CHILDREN]"
      "run (calls P 0) (pass P) parent_end l1 w1 = after (group_lines [0..<CHILDREN] fds ?mss zeros) (run (calls P 0) (pass P) ends l2 w2)"
      "\<forall>b. box V w2 b = (if b \<in> group_no ` set [0..<CHILDREN] then empty_box else box V w1 b)"
      using read_groups_run [of w1 l1 ?K "[0..<CHILDREN]" ?mss zeros ends] zeros_facts(1) unfolding parent_end_def by blast
    have "list_all2 (\<lambda>i ms. length ms = i \<and> list_all (signature ?K) ms) [0..<CHILDREN] ?mss" using f by (simp add: list_all2_conv_all_nth)
    with r show ?thesis by (intro exI [of _ fds] exI [of _ ?mss] exI [of _ l2] exI [of _ w2]) (simp add: ends_def)
  qed
  have inv: "spreading V ?K c \<or> spread V P ?K c \<or> failed P (Note ''ERR: fork'') c"
    using run
  proof (induction rule: rtranclp_induct)
    case base
    have "spreading V ?K (starts mp_multigroup_main l w)"
      unfolding spreading_def
      by (intro exI [of _ "\<lparr>t_proc = 0, t_parent = 0, t_code = mp_multigroup_main\<rparr>"] exI [of _ "[]"] exI [of _ "\<lambda>j. j"])
        (use w in \<open>simp add: starts_def lines_of_def parent_stage_def world_ok_def stocked_def\<close>)
    then show ?case by blast
  next
    case (step c c')
    from step(2) obtain i where i: "tstep P i c c'" by (auto simp: cstep_def)
    have "spread V P ?K c'" if spread: "spread V P ?K c"
    proof -
      from spread obtain l1 w1 where ok: "world_ok V ?K w1 l1" "\<forall>j < CHILDREN. stocked V ?K w1 j 0" and al: "alone P parent_end ?pre l1 w1 c"
        unfolding spread_def by blast
      from reads [OF ok] obtain r where "run (calls P 0) (pass P) parent_end l1 w1 = Done r" by blast
      from alone_keeps [OF al i this] ok show ?thesis unfolding spread_def by blast
    qed
    with step(3) show ?case using spreading_step [OF _ i] failed_step [OF _ i] by blast
  qed
  then show ?thesis
  proof (elim disjE)
    assume "spreading V ?K c"
    with spreading_goes_on fin show ?thesis by blast
  next
    assume "spread V P ?K c"
    then obtain l1 w1 where ok: "world_ok V ?K w1 l1" "\<forall>j < CHILDREN. stocked V ?K w1 j 0" and al: "alone P parent_end ?pre l1 w1 c"
      unfolding spread_def by blast
    from reads [OF ok] obtain fds mss l2 w2 where fds: "length fds = CHILDREN"
        "list_all2 (\<lambda>i ms. length ms = i \<and> list_all (signature ?K) ms) [0..<CHILDREN] mss"
      and r: "run (calls P 0) (pass P) parent_end l1 w1 = Done (group_lines [0..<CHILDREN] fds mss zeros @ [Note ''DONE''], l2, w2)"
      and b2: "\<forall>j < CHILDREN. box V w2 (group_no j) = empty_box" by blast
    from alone_over [OF al fin r] fds b2 show ?thesis by blast
  next
    assume f: "failed P (Note ''ERR: fork'') c"
    from failed_over [OF f fin] f show ?thesis unfolding failed_def by blast
  qed
qed

end

end
