(* ===== verification/Module_Processes.thy ===== *)
theory Module_Processes
  imports Module_Client Schedules Multigroup_Laws
begin

text \<open>
  Several processes and threads on the module: \<open>fork\<close> copies the table of open files, a task that
  sleeps on a barrier is on the wait queue of the device until an \<open>AWAKE\<close> takes it off. The
  module keeps the laws of \<open>parallel_client\<close>.
\<close>

definition mod_spawn :: "nat \<Rightarrow> nat \<Rightarrow> system \<Rightarrow> system" where
  "mod_spawn p q s = s\<lparr>tables := (tables s)(q := tables s p)\<rparr>"

definition mod_bed :: "('x) tsm_env_scheme \<Rightarrow> nat \<Rightarrow> nat \<Rightarrow> int \<Rightarrow> system \<Rightarrow> system outcome" where
  "mod_bed env i p fd s = (case fd_file fd (world_of s p) of
      Some (Group_file b) \<Rightarrow> obind (mod_exec env (kern s) (MDev b (EvIoctl i IOCTL_SLEEP_ON_BARRIER 0))) (\<lambda>(ob, t).
        case ob of ADev (ASys Sleeps) \<Rightarrow> Done (s\<lparr>kern := t\<rparr>) | _ \<Rightarrow> Block)
    | _ \<Rightarrow> Block)"

definition mod_resting :: "nat \<Rightarrow> nat \<Rightarrow> int \<Rightarrow> system \<Rightarrow> bool" where
  "mod_resting i p fd s = (case fd_file fd (world_of s p) of
      Some (Group_file b) \<Rightarrow> (case lookup_dev (devs_of (tsm_mgr (kern s))) b of
        Some d \<Rightarrow> i \<in> set (wait_queue d) | None \<Rightarrow> False)
    | _ \<Rightarrow> False)"

definition mod_platform :: "('x) tsm_env_scheme \<Rightarrow> (nat \<Rightarrow> system \<Rightarrow> (u8 \<times> addr) list) \<Rightarrow> bool \<Rightarrow> (system, unit) platform" where
  "mod_platform env due mf = \<lparr>calls = proc_os env, pass = passing env due, spawn = mod_spawn, bed = mod_bed env,
     resting = mod_resting, may_fail = mf\<rparr>"

lemma mod_platform_simps [simp]:
  "calls (mod_platform env due mf) = proc_os env" "pass (mod_platform env due mf) = passing env due"
  "spawn (mod_platform env due mf) = mod_spawn" "bed (mod_platform env due mf) = mod_bed env"
  "resting (mod_platform env due mf) = mod_resting" "may_fail (mod_platform env due mf) = mf"
  by (simp_all add: mod_platform_def)

lemma world_spawn: "world_of (mod_spawn p q s) r = world_of s (if r = q then p else r)"
  by (simp add: world_of_def mod_spawn_def)

lemma mod_spawns:
  assumes "sys_sane env s"
  shows "sys_sane env (mod_spawn p q s)
    \<and> (\<forall>r fd b. uses (mod_view env) (mod_spawn p q s) r fd b \<longleftrightarrow> uses (mod_view env) s (if r = q then p else r) fd b)
    \<and> box (mod_view env) (mod_spawn p q s) = box (mod_view env) s \<and> delayed (mod_view env) (mod_spawn p q s) = delayed (mod_view env) s
    \<and> cap (mod_view env) (mod_spawn p q s) = cap (mod_view env) s \<and> size_of (mod_view env) (mod_spawn p q s) = size_of (mod_view env) s"
proof -
  have kern: "kern (mod_spawn p q s) = kern s" by (simp add: mod_spawn_def)
  have "sys_sane env (mod_spawn p q s)" using assms by (simp add: sys_sane_def kern world_spawn)
  then show ?thesis using assms by (simp add: kern world_spawn fun_eq_iff)
qed

lemma mod_beds:
  assumes "uses (mod_view env) s p fd b"
  shows "\<exists>s'. mod_bed env i p fd s = Done s' \<and> sys_sane env s' \<and> uses (mod_view env) s' = uses (mod_view env) s
    \<and> box (mod_view env) s' = box (mod_view env) s \<and> delayed (mod_view env) s' = delayed (mod_view env) s
    \<and> cap (mod_view env) s' = cap (mod_view env) s \<and> size_of (mod_view env) s' = size_of (mod_view env) s \<and> mod_resting i p fd s'"
  using assms
proof (rule uses_group)
  fix d
  let ?e = "EvIoctl i IOCTL_SLEEP_ON_BARRIER 0" and ?sys = "dev_sys (kern s) d"
  let ?d = "(set_barrier d)\<lparr>wait_queue := wait_queue d @ [i]\<rparr>"
  assume sane: "sys_sane env s" and fd: "fd_file fd (world_of s p) = Some (Group_file b)"
    and look: "lookup_dev (devs_of (tsm_mgr (kern s))) b = Some d"
  have run: "gd_exec env ?sys ?e = Done (ASys Sleeps, ?sys\<lparr>dev := ?d\<rparr>)" by (simp add: gd_exec_def dev_sys_def ioctl_sleep)
  have op: "op_of ?sys ?e (ASys Sleeps) = Idle" using ioctl_distinct by (simp add: op_of_def)
  let ?t = "(kern s)\<lparr>tsm_mgr := (put_dev ?d (tsm_mgr (kern s)))\<lparr>mheap := mheap (tsm_mgr (kern s))\<rparr>\<rparr>"
  let ?s' = "s\<lparr>kern := ?t\<rparr>"
  note ev = client_event [OF sane look run]
  have t: "(kern s)\<lparr>tsm_mgr := (put_dev (dev (?sys\<lparr>dev := ?d\<rparr>)) (tsm_mgr (kern s)))\<lparr>mheap := heap (?sys\<lparr>dev := ?d\<rparr>)\<rparr>\<rparr> = ?t"
    by (simp add: dev_sys_def)
  have "mod_bed env i p fd s = Done ?s'" using fd ev(5) unfolding t by (simp add: mod_bed_def)
  moreover have sane': "sys_sane env ?s'" using ev(2) unfolding t by simp
  moreover have "uses (mod_view env) ?s' = uses (mod_view env) s" using sane sane' by (intro ext) simp
  moreover have "box (mod_view env) ?s' = box (mod_view env) s" using ev(3) unfolding t op by (auto simp: fun_eq_iff)
  moreover have "delayed (mod_view env) ?s' = delayed (mod_view env) s"
    using ev(4) look unfolding t by (intro ext) (simp add: late_in_def set_barrier_def)
  moreover have "cap (mod_view env) ?s' = cap (mod_view env) s" "size_of (mod_view env) ?s' = size_of (mod_view env) s" by simp_all
  moreover have "mod_resting i p fd ?s'"
  proof -
    from sane have ok: "mgr_ok (tsm_mgr (kern s))" by (simp add: sys_sane_def)
    from device_mem_ok [OF ok look] have "gsys_ok ?sys" by (simp add: gsys_ok_def dev_sys_def)
    from device_event(2) [OF ok look this run, of b] have "lookup_dev (devs_of (tsm_mgr ?t)) b = Some ?d" by (simp add: dev_sys_def)
    with fd show ?thesis by (simp add: mod_resting_def)
  qed
  ultimately show ?thesis by blast
qed

text \<open>The command of another thread would sleep as well.\<close>

lemma mod_beds_block:
  assumes "mod_bed env i p fd s = Done s'"
  shows "0 \<le> fd \<and> os_ioctl (proc_os env p) fd IOCTL_SLEEP_ON_BARRIER No_arg s = Block"
proof -
  from assms obtain b where fd: "fd_file fd (world_of s p) = Some (Group_file b)"
    by (auto simp: mod_bed_def split: option.splits ofile.splits)
  with assms obtain ob t where run0: "mod_exec env (kern s) (MDev b (EvIoctl i IOCTL_SLEEP_ON_BARRIER 0)) = Done (ob, t)"
    and res: "(case ob of ADev (ASys Sleeps) \<Rightarrow> Done (s\<lparr>kern := t\<rparr>) | _ \<Rightarrow> Block) = Done s'"
    by (auto simp: mod_bed_def obind_eq_Done)
  from res have "ob = ADev (ASys Sleeps)"
    by (simp split: manswer.split_asm answer.split_asm sysret.split_asm)
  with run0 have "mod_exec env (kern s) (MDev b (EvIoctl i IOCTL_SLEEP_ON_BARRIER 0)) = Done (ADev (ASys Sleeps), t)" by simp
  then obtain d where look: "lookup_dev (devs_of (tsm_mgr (kern s))) b = Some d"
    by (auto simp: mod_exec_def split: option.splits)
  then have "\<exists>t. mod_exec env (kern s) (MDev b (EvIoctl 0 IOCTL_SLEEP_ON_BARRIER 0)) = Done (ADev (ASys Sleeps), t)"
    by (simp add: mod_exec_def gd_exec_def ioctl_sleep)
  then obtain t' where "on_group env b (EvIoctl 0 IOCTL_SLEEP_ON_BARRIER 0) (world_of s p) = Done (ADev (ASys Sleeps), (world_of s p)\<lparr>kmod := t'\<rparr>)"
    by (auto simp: on_group_def)
  with fd have "os_ioctl (proc_os env p) fd IOCTL_SLEEP_ON_BARRIER No_arg s = Block" by (simp add: sys_ioctl_def)
  moreover from fd have "0 \<le> fd" by (auto simp: fd_file_def split: if_splits)
  ultimately show ?thesis by simp
qed

interpretation mod_parallel: parallel_client "mod_platform env due mf"
  "\<lambda>ms. msecs_to_jiffies env (ucast ms) \<noteq> 0" "mod_view env" for env :: "'x tsm_env_scheme" and due mf
proof (rule parallel_client.intro)
  show "group_client (calls (mod_platform env due mf)) (pass (mod_platform env due mf))
      (\<lambda>ms. msecs_to_jiffies env (ucast ms) \<noteq> 0) (mod_view env)"
    unfolding mod_platform_simps by (rule mod_client.group_client_axioms)
  show "parallel_client_axioms (mod_platform env due mf) (mod_view env)"
  proof (rule parallel_client_axioms.intro; unfold mod_platform_simps mod_view_simps(1))
    show "sys_sane env (mod_spawn p q s)
      \<and> (\<forall>r fd b. uses (mod_view env) (mod_spawn p q s) r fd b \<longleftrightarrow> uses (mod_view env) s (if r = q then p else r) fd b)
      \<and> box (mod_view env) (mod_spawn p q s) = box (mod_view env) s \<and> delayed (mod_view env) (mod_spawn p q s) = delayed (mod_view env) s
      \<and> cap (mod_view env) (mod_spawn p q s) = cap (mod_view env) s \<and> size_of (mod_view env) (mod_spawn p q s) = size_of (mod_view env) s"
      if "sys_sane env s" for s p q using that by (rule mod_spawns)
  next
    show "\<exists>s'. mod_bed env i p fd s = Done s' \<and> sys_sane env s' \<and> uses (mod_view env) s' = uses (mod_view env) s
        \<and> box (mod_view env) s' = box (mod_view env) s \<and> delayed (mod_view env) s' = delayed (mod_view env) s
        \<and> cap (mod_view env) s' = cap (mod_view env) s \<and> size_of (mod_view env) s' = size_of (mod_view env) s \<and> mod_resting i p fd s'"
      if "uses (mod_view env) s p fd b" for s p fd b i using that by (rule mod_beds)
  next
    show "0 \<le> fd \<and> os_ioctl (proc_os env p) fd IOCTL_SLEEP_ON_BARRIER No_arg s = Block"
      if "mod_bed env i p fd s = Done s'" for i p fd s s' using that by (rule mod_beds_block)
  qed
qed

end
