(* ===== verification/Process_Properties.thy ===== *)
theory Process_Properties
  imports Module_Processes Client_Properties
begin

text \<open>
  The test programs of several processes and threads on the module: what all their interleavings
  have in common, from the laws of \<open>parallel_client\<close>, which the module keeps (\<open>mod_parallel\<close>).
\<close>














end
