(* ===== verification/Logging.thy ===== *)
theory Logging
  imports Group_Manager_Laws
begin

text \<open>
  The functions that print a message, the messages of a device and the list of devices, with the
  macros of \<open>kern.h\<close>. What they hand to the kernel log is their result, line by line; \<open>debug\<close> is
  the value of \<open>DEBUG\<close>. A \<open>%s\<close> reads the buffer up to a zero byte, and running past the end of
  the buffer is a fault.
\<close>

section \<open>The macros\<close>

datatype log_level = Log_info | Log_err | Log_warn

type_synonym log_line = "log_level \<times> string"

definition CLASS_NAME :: string where "CLASS_NAME = ''tsm''"
definition START_MSG :: string where "START_MSG = ''begin''"
definition DONE_MSG :: string where "DONE_MSG = ''done''"
definition CS_START_MSG :: string where "CS_START_MSG = ''begin critical section''"
definition CS_DONE_MSG :: string where "CS_DONE_MSG = ''done critical section''"

abbreviation nl :: string where
  "nl \<equiv> [CHR 0x0A]"

text \<open>The name of the class and of the function come first; \<open>txt\<close> is what the format gives.\<close>

definition log_text :: "string \<Rightarrow> string \<Rightarrow> string" where
  "log_text fn txt = CLASS_NAME @ '': '' @ fn @ '': '' @ txt"

definition dbg :: "bool \<Rightarrow> string \<Rightarrow> string \<Rightarrow> log_line list" where
  "dbg debug fn txt = (if debug then [(Log_info, log_text fn txt)] else [])"

definition err :: "string \<Rightarrow> string \<Rightarrow> log_line list" where
  "err fn txt = [(Log_err, log_text fn txt)]"

definition info :: "string \<Rightarrow> string \<Rightarrow> log_line list" where
  "info fn txt = [(Log_info, log_text fn txt)]"

definition warn :: "string \<Rightarrow> string \<Rightarrow> log_line list" where
  "warn fn txt = [(Log_warn, log_text fn txt)]"

definition kmalloc_err :: "string \<Rightarrow> string \<Rightarrow> log_line list" where
  "kmalloc_err fn s = err fn (''kmalloc '' @ s @ nl)"

definition kzalloc_err :: "string \<Rightarrow> string \<Rightarrow> log_line list" where
  "kzalloc_err fn s = err fn (''kzalloc '' @ s @ nl)"

definition ref_err :: "string \<Rightarrow> string \<Rightarrow> log_line list" where
  "ref_err fn s = err fn (''cannot reference '' @ s @ nl)"

definition dbg_start :: "bool \<Rightarrow> string \<Rightarrow> log_line list" where
  "dbg_start debug fn = dbg debug fn (START_MSG @ nl)"

definition dbg_end :: "bool \<Rightarrow> string \<Rightarrow> log_line list" where
  "dbg_end debug fn = dbg debug fn (DONE_MSG @ nl)"

definition info_start :: "string \<Rightarrow> log_line list" where
  "info_start fn = info fn (START_MSG @ nl)"

definition info_end :: "string \<Rightarrow> log_line list" where
  "info_end fn = info fn (DONE_MSG @ nl)"

definition dbg_cs_start :: "bool \<Rightarrow> string \<Rightarrow> log_line list" where
  "dbg_cs_start debug fn = dbg debug fn (CS_START_MSG @ nl)"

definition dbg_cs_end :: "bool \<Rightarrow> string \<Rightarrow> log_line list" where
  "dbg_cs_end debug fn = dbg debug fn (CS_DONE_MSG @ nl)"

section \<open>Printing\<close>

definition c_string :: "u8 list \<Rightarrow> u8 list outcome" where
  "c_string buf = (if 0 \<in> set buf then Done (takeWhile (\<lambda>c. c \<noteq> 0) buf) else Fault OutOfBounds)"

definition chars :: "u8 list \<Rightarrow> string" where
  "chars bs = map (\<lambda>b. char_of (unat b)) bs"

text \<open>The arguments of \<open>dbg\<close> are evaluated only if \<open>DEBUG\<close> is set.\<close>

definition message_print :: "bool \<Rightarrow> message option \<Rightarrow> log_line list outcome" where
  "message_print debug msg = (let fn = ''message_print''; start = dbg_start debug fn in
     case msg of
       None \<Rightarrow> Done (start @ dbg debug fn (''0 - '' @ [CHR 0x27, CHR 0x27] @ nl))
     | Some m \<Rightarrow> (case data m of
         None \<Rightarrow> Done (start @ dbg debug fn (dec (data_size m) @ '' - '' @ [CHR 0x27, CHR 0x27] @ nl))
       | Some (a, buf) \<Rightarrow>
           obind (if debug then c_string buf else Done []) (\<lambda>s.
           Done (start @ dbg debug fn (dec (data_size m) @ '' - '' @ [CHR 0x27] @ chars s @ [CHR 0x27] @ nl)
             @ dbg_end debug fn))))"

text \<open>The body of \<open>list_for_each_prev\<close>, with its running number.\<close>

fun print_entries :: "bool \<Rightarrow> nat \<Rightarrow> message list \<Rightarrow> log_line list outcome" where
  "print_entries debug i [] = Done []"
| "print_entries debug i (m # ms) =
     obind (message_print debug (Some m)) (\<lambda>lines.
     obind (print_entries debug (Suc i) ms) (\<lambda>rest.
     Done (dbg debug ''message_list_print'' (dec i @ '', '') @ lines @ rest)))"

definition message_list_print :: "bool \<Rightarrow> message list ptr \<Rightarrow> log_line list outcome" where
  "message_list_print debug list = (let fn = ''message_list_print'' in
     obind (case list of
         None \<Rightarrow> Done (ref_err fn ''list'')
       | Some (a, ms) \<Rightarrow> if list_empty ms then Done (dbg debug fn (''message_list is empty'' @ nl)) else print_entries debug 0 (rev ms))
     (\<lambda>lines. Done (dbg_start debug fn @ lines @ dbg_end debug fn)))"

text \<open>\<open>%d\<close> shows the unsigned number of messages as a signed one.\<close>

definition dev_line :: "nat \<Rightarrow> group_dev \<Rightarrow> string" where
  "dev_line i d = dec i @ '', group_dev'' @ dec (unat (minor d)) @ '' - messages_number : '' @ dec_int (sint (messages_number d)) @ nl"

fun print_devs :: "bool \<Rightarrow> nat \<Rightarrow> group_dev list \<Rightarrow> log_line list" where
  "print_devs debug i [] = []"
| "print_devs debug i (d # ds) = dbg debug ''group_devs_list_print'' (dev_line i d) @ print_devs debug (Suc i) ds"

definition group_devs_list_print :: "bool \<Rightarrow> group_dev list ptr \<Rightarrow> log_line list" where
  "group_devs_list_print debug list = (let fn = ''group_devs_list_print'' in
     dbg_start debug fn @ (case list of None \<Rightarrow> ref_err fn ''list'' | Some (a, ds) \<Rightarrow> print_devs debug 0 ds) @ dbg_end debug fn)"

section \<open>Facts\<close>

text \<open>What a stored message shows: its content up to the first zero byte.\<close>

definition shown :: "message \<Rightarrow> string" where
  "shown m = chars (takeWhile (\<lambda>c. c \<noteq> 0) (content m))"

lemma c_string_ok:
  assumes "msg_ok m" and "data m = Some (a, buf)"
  shows "c_string buf = Done (takeWhile (\<lambda>c. c \<noteq> 0) (content m))"
proof -
  from assms have b: "data_size m < length buf" "buf ! data_size m = 0" by (auto simp: msg_ok_def)
  then have split: "buf = take (data_size m) buf @ 0 # drop (Suc (data_size m)) buf"
    by (metis id_take_nth_drop)
  have "takeWhile (\<lambda>c. c \<noteq> 0) buf = takeWhile (\<lambda>c. c \<noteq> 0) (take (data_size m) buf)"
    by (subst split) (auto simp: takeWhile_append takeWhile_eq_all_conv [THEN iffD2])
  moreover have "0 \<in> set buf" by (subst split) simp
  ultimately show ?thesis by (simp add: c_string_def content_def assms(2))
qed

text \<open>Without \<open>DEBUG\<close> only a missing list is reported.\<close>

lemma silent:
  "message_print False msg = Done []" "print_entries False i ms = Done []"
  "message_list_print False (Some (a, ms)) = Done []" "message_list_print False None = Done (ref_err ''message_list_print'' ''list'')"
  "group_devs_list_print False (Some (b, ds)) = []" "group_devs_list_print False None = ref_err ''group_devs_list_print'' ''list''"
proof -
  show msg: "message_print False msg = Done []" for msg
    by (simp add: message_print_def dbg_def dbg_start_def dbg_end_def Let_def split: option.split)
  show entries: "print_entries False i ms = Done []" for i ms by (induction ms arbitrary: i) (simp_all add: msg dbg_def)
  show "message_list_print False (Some (a, ms)) = Done []" "message_list_print False None = Done (ref_err ''message_list_print'' ''list'')"
    by (simp_all add: message_list_print_def entries dbg_def dbg_start_def dbg_end_def Let_def)
  have "print_devs False i ds = []" for i ds by (induction ds arbitrary: i) (simp_all add: dbg_def)
  then show "group_devs_list_print False (Some (b, ds)) = []" "group_devs_list_print False None = ref_err ''group_devs_list_print'' ''list''"
    by (simp_all add: group_devs_list_print_def dbg_def dbg_start_def dbg_end_def Let_def)
qed

text \<open>The lines about one stored message, with its number.\<close>

definition entry_lines :: "nat \<times> message \<Rightarrow> log_line list" where
  "entry_lines = (\<lambda>(i, m). map (Pair Log_info)
     [log_text ''message_list_print'' (dec i @ '', ''), log_text ''message_print'' (''begin'' @ nl),
      log_text ''message_print'' (dec (data_size m) @ '' - '' @ [CHR 0x27] @ shown m @ [CHR 0x27] @ nl),
      log_text ''message_print'' (''done'' @ nl)])"

lemma print_entries_ok:
  "list_all msg_ok ms \<Longrightarrow> print_entries True i ms = Done (concat (map entry_lines (List.enumerate i ms)))"
proof (induction ms arbitrary: i)
  case (Cons m ms)
  then obtain a buf where b: "data m = Some (a, buf)" by (auto simp: msg_ok_def split: option.splits)
  with Cons.prems have "c_string buf = Done (takeWhile (\<lambda>c. c \<noteq> 0) (content m))" by (simp add: c_string_ok)
  with Cons b show ?case
    by (simp add: message_print_def entry_lines_def shown_def dbg_def dbg_start_def dbg_end_def START_MSG_def DONE_MSG_def Let_def)
qed simp

text \<open>
  Printing the messages of a device never leaves a buffer, and shows them in the order in which
  readers will get them.
\<close>

lemma message_list_print_ok:
  assumes "dev_ok d"
  shows "message_list_print True (message_list d) = Done (
    [(Log_info, log_text ''message_list_print'' (''begin'' @ nl))]
    @ (if msgs d = [] then [(Log_info, log_text ''message_list_print'' (''message_list is empty'' @ nl))]
       else concat (map entry_lines (List.enumerate 0 (rev (msgs d)))))
    @ [(Log_info, log_text ''message_list_print'' (''done'' @ nl))])"
proof -
  from assms obtain a ms where "message_list d = Some (a, ms)" "list_all msg_ok (rev ms)"
    by (auto simp: dev_ok_def)
  then show ?thesis
    by (simp add: message_list_print_def print_entries_ok list_empty_def dbg_def dbg_start_def dbg_end_def START_MSG_def DONE_MSG_def Let_def)
qed

lemma print_devs_eq: "print_devs True i ds = map (\<lambda>(j, d). (Log_info, log_text ''group_devs_list_print'' (dev_line j d))) (List.enumerate i ds)"
  by (induction ds arbitrary: i) (simp_all add: dbg_def)

end
