(* ===== verification/Spec2Isabelle.thy ===== *)
theory Spec2Isabelle
  imports Group_Properties Group_Op_Properties Module_Properties Lib_Properties Concurrency_Properties Order_Properties
    Client_Properties Process_Properties Logging
begin

text \<open>
  Verification of the thread synchronization and messaging (TSM) subsystem: a Linux kernel
  module (\<open>src/kmodule\<close>), its user library (\<open>src/lib/tsm_lib.c\<close>) and the programs that use it
  (\<open>src/lib\<close>).

  \<^bold>\<open>The program.\<close> A control device \<open>/dev/tsm\<close> (\<open>tsm.c\<close>) installs groups. A group is a character
  device \<open>group_dev<n>\<close> with a FIFO of messages, a list of delayed messages with a work queue that
  publishes them, and a barrier (\<open>group_dev.c\<close>). The registry of all groups is
  \<open>group_dev_manager.c\<close>. A process uses the library: \<open>open_group\<close> installs a group through the
  control device and opens its device file; the other functions are one system call each.

  \<^bold>\<open>Theories and what they model.\<close>
  \<^item> \<open>TSM_Prelude\<close>: outcomes of C code (\<open>Done\<close>, \<open>Fault\<close> with the kind of fault, \<open>Block\<close>) and lemmas on
    lists and words. \<open>Event_System\<close>: runs of systems driven by events, with locales for invariants,
    simulation and monotone quantities. \<open>Mailbox\<close>: the abstract specification of a group.
  \<^item> \<open>Kernel_API\<close>: allocator, user copies, semaphores and \<open>linux/list.h\<close> as documented, and the
    locale \<open>fifo_store\<close> of a list used as a queue. What the kernel decides by itself is the record
    \<open>kernel_env\<close> and its extensions \<open>mgr_env\<close> and \<open>tsm_env\<close>.
  \<^item> \<open>Flags\<close>: the bit macros of \<open>group_dev.h\<close>. \<open>Group_Dev\<close>: \<open>struct group_dev\<close>, delays, flags and the
    work queue (\<open>_fflush_workqueue\<close> to \<open>add_delayed_work\<close>). \<open>Group_Fops\<close>: the file operations and the
    numbers of \<open>ioctl.h\<close>. A name with a leading underscore in C is modelled with the prefix \<open>raw_\<close>.
  \<^item> \<open>Format\<close>: \<open>sprintf\<close> with \<open>%d\<close>, device names. \<open>Group_Manager\<close>: \<open>group_dev_manager.c\<close>, with the
    fall-through labels of \<open>_install_group\<close> as the datatype \<open>install_label\<close>. \<open>Logging\<close>: the
    macros of \<open>kern.h\<close> and the printing functions, which give the lines they log.
    \<open>Install_Race\<close>: \<open>install_group\<close> in steps, between which another process runs. \<open>Tsm_Dev\<close>: \<open>tsm.c\<close>,
    and \<open>mod_exec\<close>, which dispatches events to the control device and to all group devices over one heap.
  \<^item> \<open>Tsm_Lib\<close>: \<open>tsm_lib.c\<close> over the record \<open>os\<close> of system calls; \<open>Lib_Module\<close> gives it the module's.
  \<^item> \<open>Locks\<close>: semaphore calls of the operations by any number of threads, with the locale
    \<open>ranked_locks\<close>. \<open>Sharing\<close>: readers, writers, works and flushes as interleaved steps on the lists
    and on the allocated messages. \<open>Barrier\<close>: SLEEP and AWAKE as interleaved steps. \<open>Races\<close>: the flag
    byte as loads and stores, a flush whose traversal is interrupted by timers, and a timer that
    expires before its work is linked. \<open>Sharing_History\<close>: the steps of \<open>Sharing\<close> with a record of what
    was written, released and fetched.
  \<^item> \<open>Texts\<close>: C strings in buffers. \<open>Client\<close>: a program as a tree of calls (\<open>prog\<close>), its execution by
    one process (\<open>run\<close>) and the loops the test programs share. \<open>Test_Programs\<close>: the \<open>main\<close>, child and
    thread functions of \<open>src/lib\<close>, one tree each. \<open>Processes\<close>: tasks in processes that run such trees in
    any interleaving (\<open>cstep\<close>); \<open>Scripts\<close>: single executions put together from the moves of each task.
    \<open>Module_Client\<close>, \<open>Module_Processes\<close>: the module as the system they run on.

  \<^bold>\<open>State and code.\<close> A pointer member is \<open>None\<close> or an address with the object it owns; a heap is the
  number of allocations so far and the set of live addresses. Lists are sequences from the entry
  after the head on, so the entry that is read first is the last one. Errors are the C results; a
  use of NULL, of freed memory, a bad \<open>kfree\<close> or an access outside an object is a \<open>Fault\<close>; a \<open>down\<close>
  on a taken semaphore is \<open>Block\<close>. Reads of uninitialised variables are a parameter of the kernel
  record. Machine integers have their width. In \<open>Group_Machine\<close> and \<open>Tsm_Dev\<close> every system call and
  every expired timer is one event; the theories on threads split them.

  \<^bold>\<open>What is proved.\<close>
  \<^item> \<open>Group_Dev_Laws\<close>, \<open>Group_Fops_Laws\<close>, \<open>Group_Machine\<close>, \<open>Group_Delivery\<close>: each operation on every
    branch, the invariant of a device with its memory, and the simulation of the mailbox. From these:
    exactly-once delivery, order of delivery, storage bound, absence of leaks, exact conditions for
    the one fault of a write (\<open>Group_Properties\<close>), single operations (\<open>Group_Op_Properties\<close>) and the
    form of all answers (\<open>Answers\<close>).
  \<^item> \<open>Group_Manager_Laws\<close>, \<open>Group_Free_Laws\<close>, \<open>Module_Laws\<close>: the registry invariant, installation with
    its clean-up, destruction. From these: groups are independent mailboxes, loading, running and
    unloading the module gives back all memory and kernel objects, runs complete
    (\<open>Module_Properties\<close>); the library on top of the module (\<open>Lib_Properties\<close>).
  \<^item> \<open>Concurrency_Properties\<close>: no deadlock and termination of lock runs, mutual exclusion and ownership
    of messages, the counter, no lost wake-up; and the races that do exist: log output after a
    message is freed, a timer during a flush, lost flag updates, an AWAKE that is undone.
    \<open>Order_Properties\<close>: the order of messages in all interleavings, and how a delayed message loses
    its place.
  \<^item> \<open>Install_Race\<close> with \<open>Module_Properties\<close>: two processes install the same group twice, or the registry
    itself.
  \<^item> \<open>Client_Laws\<close>, \<open>Program_Laws\<close>: the test programs of one process (\<open>Client_Properties\<close>).
    \<open>Parallel_Laws\<close>: programs that start writers for one group and read it afterwards; \<open>Counter_Laws\<close>:
    threads that share a counter under a semaphore; \<open>Multigroup_Laws\<close>: a child for each group; each by
    an invariant over all interleavings. \<open>Schedules\<close>: the executions in which \<open>sleep\<close> hangs and
    \<open>mt_ordinary_chaotic\<close> miscounts. From these: what the programs do on the module
    (\<open>Process_Properties\<close>).
  \<^item> \<open>Logging\<close>: printing the messages of a device never leaves a buffer and shows them in the order in
    which readers get them; without \<open>DEBUG\<close> only a missing list is reported.

  \<^bold>\<open>Interfaces.\<close> \<open>fifo_store\<close> (interpreted by the list operations), \<open>device_flag\<close> (both flags),
  \<open>event_system\<close>, \<open>simulation\<close>, \<open>mailbox_impl\<close>, \<open>monotone_system\<close> (one device, the module), \<open>registry\<close>
  (the group manager), \<open>ranked_locks\<close> (the semaphores of a device), \<open>group_client\<close> (what a process relies
  on when it uses groups) and \<open>parallel_client\<close> (the same with \<open>fork\<close> and sleeping tasks); the module
  interprets the last two.

  \<^bold>\<open>Bounds.\<close> No definition uses fuel. The waiting loop of \<open>open_group\<close> is bounded by \<open>ATTEMPTS\<close> as in
  the code; traversals recurse on the list they walk over; \<open>install_fail\<close> terminates by the position
  of its label. The loops of the test programs have constant bounds and are unrolled over lists.
  The step relations have no bound; termination of lock runs and of programs are theorems.

  \<^bold>\<open>Not modelled.\<close> The log lines of functions other than the printing ones: they would only add
  output to models that say what these functions do to the state (that \<open>group_write\<close> and
  \<open>delayed_work_fun\<close> print a message too late is in \<open>Sharing\<close>); the results of \<open>class_create\<close>, \<open>cdev_add\<close>
  and \<open>device_create\<close>, which the code does not look at; the names of class and region; udev,
  represented by the names its rule gives to device files; the decoration of the lines that the
  test programs print, and \<open>mygetch\<close>, which waits for a key. A call of the library is one step of
  \<open>Processes\<close>; \<open>Sharing\<close>, \<open>Locks\<close> and \<open>Barrier\<close> are about calls that overlap. \<open>pthread_join\<close> does not
  fail. The registry has no lock of its own; the races between the tests and the installations of
  two processes are modelled. Not modelled are unloading while a call runs, and two processors
  inside one \<open>list_add\<close>, a race on the pointers of a list that is a sequence in these theories.
\<close>

end
